(* ===== verification/Prelude.thy ===== *)
theory Prelude
  imports Main "HOL-Library.Word" "HOL-Library.Multiset"
begin

text \<open>
  Shared vocabulary of the development: machine words for Rust's \<open>usize\<close>, panics as values,
  windows of a list (what a Rust sub-slice reads and writes), the list of indices
  \<open>0..n\<close> a driver hands out, and the generic lemmas on them.

  \<open>usize\<close> is a 64-bit word: \<open>+\<close>, \<open>-\<close> and \<open>*\<close> wrap around, as Rust's operators
  do when overflow checks are off. Where a property says that a computation is exact
  (an equation on \<open>unat\<close> with no \<open>mod\<close>), no step of it overflows, so a build with
  overflow checks computes the same value and does not panic.
\<close>

section \<open>Words and panics\<close>

named_theorems usize_simps
  \<open>reading \<open>usize\<close> comparisons and operations as operations on \<open>nat\<close>\<close>
named_theorems window_simps
  \<open>reading and writing windows of a list\<close>

type_synonym usize = "64 word"

text \<open>Rust limits every allocation to \<open>isize::MAX\<close> bytes, so a slice of elements that are
  not zero-sized has at most this many elements.\<close>

definition isize_max :: nat where
  "isize_max = 2 ^ 63 - 1"

text \<open>Panic payloads: the panics the code itself can raise, and those of a user closure.\<close>

datatype payload =
    IndexOutOfBounds
  | DivisionByZero
  | InvalidOrdering
  | ScopedThreadPanicked
  | UserPanic nat

text \<open>The result of a call that may unwind.\<close>

datatype 'a outcome = Done 'a | Panicked payload

fun bind_outcome :: "'a outcome \<Rightarrow> ('a \<Rightarrow> 'b outcome) \<Rightarrow> 'b outcome" where
  "bind_outcome (Done x) f = f x"
| "bind_outcome (Panicked p) f = Panicked p"

fun map_done :: "('a \<Rightarrow> 'b) \<Rightarrow> 'a outcome \<Rightarrow> 'b outcome" where
  "map_done f (Done x) = Done (f x)"
| "map_done f (Panicked p) = Panicked p"

fun is_done :: "'a outcome \<Rightarrow> bool" where
  "is_done (Done x) = True"
| "is_done (Panicked p) = False"

fun the_done :: "'a outcome \<Rightarrow> 'a option" where
  "the_done (Done x) = Some x"
| "the_done (Panicked p) = None"

fun the_payload :: "'a outcome \<Rightarrow> payload option" where
  "the_payload (Done x) = None"
| "the_payload (Panicked p) = Some p"

lemma is_done_iff: "is_done r \<longleftrightarrow> (\<exists>x. r = Done x)"
  by (cases r) auto

section \<open>Word arithmetic without wrap-around\<close>

declare word_less_nat_alt [usize_simps] word_le_nat_alt [usize_simps]

lemma unat_usize_bound [simp]: "unat (x :: usize) < 2 ^ 64"
  using unsigned_less [of x] by simp

lemma unat_usize_bound_numeral [simp]: "unat (x :: usize) < 18446744073709551616"
  using unat_usize_bound [of x] by simp

lemma unat_of_nat_usize [usize_simps]:
  assumes "n < 2 ^ 64"
  shows "unat (of_nat n :: usize) = n"
  using assms by (simp add: unat_of_nat)

lemma unat_add_usize [usize_simps]:
  fixes x y :: usize
  assumes "unat x + unat y < 2 ^ 64"
  shows "unat (x + y) = unat x + unat y"
  using assms by (simp add: unat_word_ariths)

lemma unat_mult_usize [usize_simps]:
  fixes x y :: usize
  assumes "unat x * unat y < 2 ^ 64"
  shows "unat (x * y) = unat x * unat y"
  using assms by (simp add: unat_word_ariths)

lemma unat_sub_usize [usize_simps]:
  fixes x y :: usize
  assumes "unat y \<le> unat x"
  shows "unat (x - y) = unat x - unat y"
  using assms by (simp add: unat_sub word_le_nat_alt)

lemma unat_div_usize [usize_simps]:
  fixes x y :: usize
  shows "unat (x div y) = unat x div unat y"
  by (rule unat_div)

lemma unat_min_usize [usize_simps]:
  fixes x y :: usize
  shows "unat (min x y) = min (unat x) (unat y)"
  by (simp add: min_def word_le_nat_alt)

lemma unat_max_usize [usize_simps]:
  fixes x y :: usize
  shows "unat (max x y) = max (unat x) (unat y)"
  by (simp add: max_def word_le_nat_alt)

lemma usize_eq_iff: "(x :: usize) = y \<longleftrightarrow> unat x = unat y"
  by (simp add: word_unat_eq_iff)

lemma usize_pos_iff: "(x :: usize) \<noteq> 0 \<longleftrightarrow> 1 \<le> unat x"
  by (metis One_nat_def Suc_leI le_zero_eq neq0_conv not_less_eq_eq unat_eq_zero unat_0)

lemma unat_max_1 [simp]: "1 \<le> unat (max (x :: usize) 1)"
  by (simp add: unat_max_usize)


section \<open>Ceiling division\<close>

text \<open>The mathematical ceiling, the reference the crate's overflow-safe form is compared with.\<close>

definition ceil_div :: "nat \<Rightarrow> nat \<Rightarrow> nat" where
  "ceil_div n c = (n + (c - 1)) div c"

lemma ceil_div_0 [simp]: "0 < c \<Longrightarrow> ceil_div 0 c = 0"
  by (simp add: ceil_div_def)

lemma ceil_div_pos: "0 < n \<Longrightarrow> 0 < c \<Longrightarrow> ceil_div n c = 1 + (n - 1) div c"
proof -
  assume "0 < n" "0 < c"
  then have "n + (c - 1) = (n - 1) + c" by simp
  then have "ceil_div n c = (c + (n - 1)) div c" by (simp only: ceil_div_def add.commute)
  also have "\<dots> = Suc ((n - 1) div c)" using \<open>0 < c\<close> by (simp add: div_add_self1)
  finally show ?thesis by simp
qed

lemma ceil_div_le_iff:
  assumes "0 < c"
  shows "ceil_div n c \<le> k \<longleftrightarrow> n \<le> k * c"
proof -
  have "ceil_div n c \<le> k \<longleftrightarrow> n + (c - 1) < Suc k * c"
    using assms by (simp add: ceil_div_def div_less_iff_less_mult flip: less_Suc_eq_le)
  also have "\<dots> \<longleftrightarrow> n \<le> k * c"
    using assms by auto
  finally show ?thesis .
qed

lemma ceil_div_gt_iff: "0 < c \<Longrightarrow> k < ceil_div n c \<longleftrightarrow> k * c < n"
  using ceil_div_le_iff [of c n k] by linarith

lemma ceil_div_le_self: "0 < c \<Longrightarrow> ceil_div n c \<le> n"
  by (simp add: ceil_div_le_iff)

lemma ceil_div_eq_0_iff: "0 < c \<Longrightarrow> ceil_div n c = 0 \<longleftrightarrow> n = 0"
  using ceil_div_le_iff [of c n 0] by simp

lemma ceil_div_step:
  assumes "0 < n" "0 < c"
  shows "ceil_div n c = Suc (ceil_div (n - c) c)"
proof (cases "n \<le> c")
  case True
  then have "ceil_div n c \<le> 1" "0 < ceil_div n c"
    using assms ceil_div_le_iff [of c n 1] ceil_div_gt_iff [of c 0 n] by auto
  then show ?thesis using True assms by simp
next
  case False
  then have "n + (c - 1) = c + ((n - c) + (c - 1))" by simp
  then have "ceil_div n c = (c + ((n - c) + (c - 1))) div c" by (simp only: ceil_div_def)
  also have "\<dots> = Suc ((n - c + (c - 1)) div c)"
    using assms(2) by (subst div_add_self1) auto
  finally show ?thesis by (simp only: ceil_div_def)
qed

section \<open>Windows of a list\<close>

text \<open>
  A Rust sub-slice \<open>&xs[b .. b + n]\<close> reads \<open>window b n xs\<close>; writing the values \<open>ys\<close>
  through it turns the underlying buffer into \<open>overwrite b ys xs\<close>.
\<close>

definition window :: "nat \<Rightarrow> nat \<Rightarrow> 'a list \<Rightarrow> 'a list" where
  "window b n xs = take n (drop b xs)"

definition overwrite :: "nat \<Rightarrow> 'a list \<Rightarrow> 'a list \<Rightarrow> 'a list" where
  "overwrite b ys xs = take b xs @ ys @ drop (b + length ys) xs"

lemma length_window [window_simps]: "b + n \<le> length xs \<Longrightarrow> length (window b n xs) = n"
  by (simp add: window_def)

lemma nth_window [window_simps]:
  "i < n \<Longrightarrow> b + n \<le> length xs \<Longrightarrow> window b n xs ! i = xs ! (b + i)"
  by (simp add: window_def)

lemma window_0 [simp]: "window b 0 xs = []"
  by (simp add: window_def)

lemma window_all [simp]: "length xs \<le> n \<Longrightarrow> window 0 n xs = xs"
  by (simp add: window_def)

lemma window_append: "window b m xs @ window (b + m) n xs = window b (m + n) xs"
  by (simp add: window_def take_add add.commute)

lemma window_window:
  "m + k \<le> n \<Longrightarrow> window m k (window b n xs) = window (b + m) k xs"
  by (simp add: window_def drop_take min_def add.commute)

lemma length_overwrite [window_simps]:
  "b + length ys \<le> length xs \<Longrightarrow> length (overwrite b ys xs) = length xs"
  by (simp add: overwrite_def)

lemma nth_overwrite [window_simps]:
  assumes "b + length ys \<le> length xs" "i < length xs"
  shows "overwrite b ys xs ! i =
    (if b \<le> i \<and> i < b + length ys then ys ! (i - b) else xs ! i)"
  using assms by (auto simp: overwrite_def nth_append)

lemma overwrite_Nil [simp]: "b \<le> length xs \<Longrightarrow> overwrite b [] xs = xs"
  by (simp add: overwrite_def)

lemma overwrite_all [simp]: "length ys = length xs \<Longrightarrow> overwrite 0 ys xs = ys"
  by (simp add: overwrite_def)

lemma window_overwrite_same [window_simps]:
  "b + length ys \<le> length xs \<Longrightarrow> window b (length ys) (overwrite b ys xs) = ys"
  by (simp add: overwrite_def window_def)

lemma overwrite_window_same [window_simps]:
  "b + n \<le> length xs \<Longrightarrow> overwrite b (window b n xs) xs = xs"
  by (metis append_take_drop_id drop_drop add.commute length_window overwrite_def window_def)

text \<open>Two windows with no common position are independent.\<close>

definition apart :: "nat \<Rightarrow> nat \<Rightarrow> nat \<Rightarrow> nat \<Rightarrow> bool" where
  "apart b n c m \<longleftrightarrow> b + n \<le> c \<or> c + m \<le> b"

lemma window_overwrite_apart [window_simps]:
  assumes "apart b n c (length ys)" "c + length ys \<le> length xs" "b + n \<le> length xs"
  shows "window b n (overwrite c ys xs) = window b n xs"
proof (rule nth_equalityI)
  show "length (window b n (overwrite c ys xs)) = length (window b n xs)"
    using assms by (simp add: window_simps)
next
  fix i assume "i < length (window b n (overwrite c ys xs))"
  then show "window b n (overwrite c ys xs) ! i = window b n xs ! i"
    using assms by (auto simp: window_simps apart_def)
qed

lemma overwrite_overwrite_apart:
  assumes "apart b (length zs) c (length ys)"
    "c + length ys \<le> length xs" "b + length zs \<le> length xs"
  shows "overwrite b zs (overwrite c ys xs) = overwrite c ys (overwrite b zs xs)"
proof (rule nth_equalityI)
  show "length (overwrite b zs (overwrite c ys xs)) = length (overwrite c ys (overwrite b zs xs))"
    using assms by (simp add: window_simps)
next
  fix i assume "i < length (overwrite b zs (overwrite c ys xs))"
  then show "overwrite b zs (overwrite c ys xs) ! i = overwrite c ys (overwrite b zs xs) ! i"
    using assms by (auto simp: window_simps apart_def)
qed

section \<open>The indices a driver hands out\<close>

definition usize_range :: "usize \<Rightarrow> usize list" where
  "usize_range n = map of_nat [0..<unat n]"

lemma length_usize_range [simp]: "length (usize_range n) = unat n"
  by (simp add: usize_range_def)

lemma nth_usize_range [simp]: "i < unat n \<Longrightarrow> usize_range n ! i = of_nat i"
  by (simp add: usize_range_def)

lemma unat_of_nat_below: "i < unat (n :: usize) \<Longrightarrow> unat (of_nat i :: usize) = i"
  by (meson less_trans unat_of_nat_usize unat_usize_bound)

lemma map_unat_usize_range [simp]: "map unat (usize_range n) = [0..<unat n]"
  by (rule nth_equalityI) (auto simp: usize_range_def unat_of_nat_below)

lemma distinct_usize_range [simp]: "distinct (usize_range n)"
  by (metis distinct_map distinct_upt map_unat_usize_range)

lemma set_usize_range [simp]: "set (usize_range n) = {i. i < n}"
proof -
  have "i \<in> set (usize_range n) \<longleftrightarrow> i < n" for i
  proof -
    have "i \<in> set (usize_range n) \<longleftrightarrow> unat i \<in> set (map unat (usize_range n))"
      by (auto simp del: map_unat_usize_range simp: usize_eq_iff [symmetric])
    then show ?thesis by (simp add: word_less_nat_alt)
  qed
  then show ?thesis by auto
qed

text \<open>An order that runs every index below \<open>n\<close> exactly once.\<close>

definition schedule_of :: "usize \<Rightarrow> usize list \<Rightarrow> bool" where
  "schedule_of n order \<longleftrightarrow> mset order = mset (usize_range n)"

lemma schedule_ofD:
  assumes "schedule_of n order"
  shows "distinct order" and "set order = {i. i < n}" and "length order = unat n"
proof -
  have eq: "mset order = mset (usize_range n)" using assms by (simp add: schedule_of_def)
  show "distinct order" using mset_eq_imp_distinct_iff [OF eq] by simp
  show "set order = {i. i < n}" using mset_eq_setD [OF eq] by simp
  show "length order = unat n" using mset_eq_length [OF eq] by simp
qed

lemma schedule_ofI: "distinct order \<Longrightarrow> set order = {i. i < n} \<Longrightarrow> schedule_of n order"
  unfolding schedule_of_def
  by (metis distinct_usize_range set_eq_iff_mset_eq_distinct set_usize_range)

lemma schedule_of_range [simp]: "schedule_of n (usize_range n)"
  by (simp add: schedule_of_def)

end
