(* ===== verification/Tiler.thy ===== *)
theory Tiler
  imports Prelude
begin

text \<open>
  The contract every partitioning routine of the crate promises: a region of \<open>total\<close>
  positions is cut into \<open>count\<close> non-empty half-open ranges \<open>[lo i, hi i)\<close> that follow one
  another from \<open>0\<close> to \<open>total\<close>. The clients' facts (ranges in bounds, pairwise disjoint,
  every position in exactly one range, the pieces of a list concatenate to the list) are
  proved once here. \<open>ParChunks\<close>, \<open>ShardChunks\<close>, the shared-slice driver and the deque's
  shard plan interpret the locale.
\<close>

locale tiler =
  fixes invar :: "'p \<Rightarrow> bool"
    and count :: "'p \<Rightarrow> nat"
    and total :: "'p \<Rightarrow> nat"
    and lo :: "'p \<Rightarrow> nat \<Rightarrow> nat"
    and hi :: "'p \<Rightarrow> nat \<Rightarrow> nat"
  assumes count_0: "invar p \<Longrightarrow> count p = 0 \<Longrightarrow> total p = 0"
    and lo_0: "invar p \<Longrightarrow> 0 < count p \<Longrightarrow> lo p 0 = 0"
    and lo_Suc: "invar p \<Longrightarrow> Suc i < count p \<Longrightarrow> lo p (Suc i) = hi p i"
    and lo_less_hi: "invar p \<Longrightarrow> i < count p \<Longrightarrow> lo p i < hi p i"
    and hi_last: "invar p \<Longrightarrow> 0 < count p \<Longrightarrow> hi p (count p - 1) = total p"
begin

lemma hi_le_lo:
  assumes "invar p" "i < j" "j < count p"
  shows "hi p i \<le> lo p j"
  using assms(2,3)
proof (induction j)
  case (Suc j)
  show ?case
  proof (cases "i = j")
    case True
    with Suc.prems lo_Suc [OF assms(1)] show ?thesis by simp
  next
    case False
    with Suc have "hi p i \<le> lo p j" by simp
    also have "\<dots> \<le> hi p j" using lo_less_hi [OF assms(1), of j] Suc.prems by simp
    finally show ?thesis using lo_Suc [OF assms(1)] Suc.prems by simp
  qed
qed simp

lemma hi_le_total:
  assumes "invar p" "i < count p"
  shows "hi p i \<le> total p"
proof (cases "i = count p - 1")
  case True
  with hi_last [OF assms(1)] assms(2) show ?thesis by simp
next
  case False
  with assms(2) have "i < count p - 1" "count p - 1 < count p" by auto
  then have "hi p i \<le> lo p (count p - 1)" using hi_le_lo [OF assms(1)] by blast
  also have "\<dots> \<le> total p"
    using lo_less_hi [OF assms(1), of "count p - 1"] hi_last [OF assms(1)] assms(2) by simp
  finally show ?thesis .
qed

lemma disjoint_ranges:
  assumes "invar p" "i < count p" "j < count p" "i \<noteq> j"
  shows "{lo p i..<hi p i} \<inter> {lo p j..<hi p j} = {}"
  using assms hi_le_lo [OF assms(1), of i j] hi_le_lo [OF assms(1), of j i]
  by (cases "i < j") auto

lemma ranges_apart:
  assumes "invar p" "i < count p" "j < count p" "i \<noteq> j"
  shows "apart (lo p i) (hi p i - lo p i) (lo p j) (hi p j - lo p j)"
  using assms hi_le_lo [OF assms(1), of i j] hi_le_lo [OF assms(1), of j i]
    lo_less_hi [OF assms(1), of i] lo_less_hi [OF assms(1), of j]
  by (cases "i < j") (auto simp: apart_def)

lemma concat_prefix:
  assumes "invar p" "k \<le> count p" "0 < k"
  shows "concat (map (\<lambda>i. window (lo p i) (hi p i - lo p i) xs) [0..<k]) = window 0 (hi p (k - 1)) xs"
  using assms(2,3)
proof (induction k)
  case (Suc k)
  show ?case
  proof (cases "k = 0")
    case True
    with Suc.prems lo_0 [OF assms(1)] show ?thesis by simp
  next
    case False
    with Suc have "concat (map (\<lambda>i. window (lo p i) (hi p i - lo p i) xs) [0..<k])
        = window 0 (hi p (k - 1)) xs" by simp
    moreover have "lo p k = hi p (k - 1)"
      using lo_Suc [OF assms(1), of "k - 1"] False Suc.prems by simp
    moreover have "lo p k < hi p k" using lo_less_hi [OF assms(1)] Suc.prems by simp
    ultimately show ?thesis using window_append [of 0 "hi p (k - 1)" xs "hi p k - hi p (k - 1)"]
      by simp
  qed
qed simp

lemma concat_windows:
  assumes "invar p" "length xs = total p"
  shows "concat (map (\<lambda>i. window (lo p i) (hi p i - lo p i) xs) [0..<count p]) = xs"
proof (cases "count p = 0")
  case True
  with count_0 assms show ?thesis by simp
next
  case False
  then have "concat (map (\<lambda>i. window (lo p i) (hi p i - lo p i) xs) [0..<count p])
      = window 0 (hi p (count p - 1)) xs"
    using concat_prefix [OF assms(1), where k = "count p"] by simp
  also have "\<dots> = xs" using False hi_last [OF assms(1)] assms(2) by simp
  finally show ?thesis .
qed

lemma covered:
  assumes "invar p" "k < total p"
  shows "\<exists>i < count p. lo p i \<le> k \<and> k < hi p i"
proof -
  have pos: "0 < count p" using count_0 assms by fastforce
  have "\<exists>i < n. lo p i \<le> k \<and> k < hi p i"
    if "k < hi p (n - 1)" "0 < n" "n \<le> count p" for n
    using that
  proof (induction n)
    case (Suc n)
    show ?case
    proof (cases "n = 0 \<or> lo p n \<le> k")
      case True
      with Suc.prems lo_0 [OF assms(1)] show ?thesis by auto
    next
      case False
      then have "k < hi p (n - 1)"
        using lo_Suc [OF assms(1), of "n - 1"] Suc.prems by simp
      with Suc False show ?thesis by (metis Suc_leD less_Suc_eq neq0_conv)
    qed
  qed simp
  from this [of "count p"] show ?thesis using pos hi_last [OF assms(1)] assms(2) by simp
qed

lemma covered_once:
  assumes "invar p" "k < total p"
  shows "\<exists>!i. i < count p \<and> lo p i \<le> k \<and> k < hi p i"
proof -
  obtain i where i: "i < count p" "lo p i \<le> k" "k < hi p i" using covered [OF assms] by blast
  moreover have "j = i" if "j < count p" "lo p j \<le> k" "k < hi p j" for j
    using disjoint_ranges [OF assms(1) that(1) i(1)] that i by fastforce
  ultimately show ?thesis by blast
qed

lemmas tiler_facts = hi_le_total disjoint_ranges covered_once concat_windows lo_less_hi

end

end
