(* ===== verification/Region.thy ===== *)
theory Region
  imports Tiler
begin

text \<open>
  The region layer, \<^verbatim>\<open>src/region/\<close>: how many fixed-size shards tile a region
  (\<open>partition_count\<close>), the write capability over a sub-slice (\<open>WriterShard\<close>), the
  sequential iterator of disjoint shards (\<open>ShardChunks\<close>) and the indexed view
  (\<open>ParChunks\<close>).

  A region is a list of cell values. A \<open>&mut [MelinoeCell]\<close> is Rust's fat pointer: the
  position of its first cell in the region and its length. Reads and writes go to the
  region through the pointer, so two references that overlap really alias here, and the
  disjointness lemmas are statements about positions of the region.
\<close>

section \<open>Counting shards: \<^verbatim>\<open>region/tiling.rs\<close>\<close>

text \<open>Rust's integer division panics on a zero divisor.\<close>

definition usize_div :: "usize \<Rightarrow> usize \<Rightarrow> usize outcome" where
  "usize_div a b = (if b = 0 then Panicked DivisionByZero else Done (a div b))"

definition partition_count :: "usize \<Rightarrow> usize \<Rightarrow> usize outcome" where
  "partition_count len chunk =
     (if len = 0 then Done 0
      else bind_outcome (usize_div (len - 1) chunk) (\<lambda>q. Done (1 + q)))"

lemma partition_count_eq:
  assumes "chunk \<noteq> 0"
  shows "partition_count len chunk = Done (of_nat (ceil_div (unat len) (unat chunk)))"
proof (cases "len = 0")
  case True
  then show ?thesis using assms by (simp add: partition_count_def ceil_div_0 unat_gt_0)
next
  case False
  then have pos: "0 < unat len" "0 < unat chunk" using assms by (auto simp: unat_gt_0)
  have "ceil_div (unat len) (unat chunk) \<le> unat len"
    using pos by (rule_tac ceil_div_le_self)
  then have b: "ceil_div (unat len) (unat chunk) < 2 ^ 64"
    by (meson le_less_trans unat_usize_bound)
  have l1: "unat (len - 1) = unat len - 1" using pos by (simp add: unat_sub_usize)
  have c: "ceil_div (unat len) (unat chunk) = 1 + (unat len - 1) div unat chunk"
    using pos by (rule ceil_div_pos)
  have "unat (1 + (len - 1) div chunk) = 1 + (unat len - 1) div unat chunk"
    using b unfolding c by (simp add: usize_simps l1)
  then have "1 + (len - 1) div chunk = of_nat (ceil_div (unat len) (unat chunk))"
    using b unfolding usize_eq_iff c by (simp add: unat_of_nat_usize del: of_nat_Suc)
  then show ?thesis using False assms by (simp add: partition_count_def usize_div_def)
qed

lemma unat_partition_count:
  assumes "chunk \<noteq> 0" "partition_count len chunk = Done n"
  shows "unat n = ceil_div (unat len) (unat chunk)"
proof -
  have "ceil_div (unat len) (unat chunk) \<le> unat len"
    using assms(1) by (simp add: ceil_div_le_self unat_gt_0)
  then have "ceil_div (unat len) (unat chunk) < 2 ^ 64"
    by (meson le_less_trans unat_usize_bound)
  then show ?thesis using assms partition_count_eq [OF assms(1), of len]
    by (auto simp: unat_of_nat_usize)
qed


section \<open>Fat pointers into a region\<close>

record slice_ref =
  ptr :: nat
  meta :: usize

definition slice_in :: "slice_ref \<Rightarrow> 'a list \<Rightarrow> bool" where
  "slice_in s mem \<longleftrightarrow> ptr s + unat (meta s) \<le> length mem"

definition slice_cells :: "slice_ref \<Rightarrow> nat set" where
  "slice_cells s = {ptr s ..< ptr s + unat (meta s)}"

text \<open>What a shared view of the slice reads, and the region after the values \<open>ys\<close> were
  written through an exclusive view.\<close>

definition slice_read :: "slice_ref \<Rightarrow> 'a list \<Rightarrow> 'a list" where
  "slice_read s mem = window (ptr s) (unat (meta s)) mem"

definition slice_write :: "slice_ref \<Rightarrow> 'a list \<Rightarrow> 'a list \<Rightarrow> 'a list" where
  "slice_write s ys mem = overwrite (ptr s) ys mem"

text \<open>\<open>[T]::get\<close> and \<open>[T]::get_mut\<close>: the latter yields the position the reference points at.\<close>

definition slice_get :: "'a list \<Rightarrow> usize \<Rightarrow> 'a option" where
  "slice_get xs i = (if unat i < length xs then Some (xs ! unat i) else None)"

definition slice_get_mut :: "slice_ref \<Rightarrow> usize \<Rightarrow> nat option" where
  "slice_get_mut s i = (if i < meta s then Some (ptr s + unat i) else None)"

text \<open>\<open>[T]::split_at_mut\<close>.\<close>

definition split_at_mut :: "slice_ref \<Rightarrow> usize \<Rightarrow> (slice_ref \<times> slice_ref) outcome" where
  "split_at_mut s mid =
     (if mid \<le> meta s
      then Done (\<lparr>ptr = ptr s, meta = mid\<rparr>, \<lparr>ptr = ptr s + unat mid, meta = meta s - mid\<rparr>)
      else Panicked IndexOutOfBounds)"

section \<open>\<open>WriterShard\<close>: \<^verbatim>\<open>region/shard.rs\<close>\<close>

record writer_shard =
  sh_cells :: slice_ref

definition shard_new :: "slice_ref \<Rightarrow> writer_shard" where
  "shard_new s = \<lparr>sh_cells = s\<rparr>"

definition shard_len :: "writer_shard \<Rightarrow> usize" where
  "shard_len sh = meta (sh_cells sh)"

definition shard_is_empty :: "writer_shard \<Rightarrow> bool" where
  "shard_is_empty sh \<longleftrightarrow> meta (sh_cells sh) = 0"

definition shard_as_slice :: "writer_shard \<Rightarrow> 'a list \<Rightarrow> 'a list" where
  "shard_as_slice sh mem = slice_read (sh_cells sh) mem"

text \<open>\<open>as_mut_slice\<close> and \<open>into_mut_slice\<close> hand out the exclusive slice itself: reading it is
  \<open>slice_read\<close>, assigning its elements is \<open>slice_write\<close>.\<close>

definition shard_as_mut_slice :: "writer_shard \<Rightarrow> slice_ref" where
  "shard_as_mut_slice sh = sh_cells sh"

definition shard_into_mut_slice :: "writer_shard \<Rightarrow> slice_ref" where
  "shard_into_mut_slice sh = sh_cells sh"

definition shard_get :: "writer_shard \<Rightarrow> 'a list \<Rightarrow> usize \<Rightarrow> 'a option" where
  "shard_get sh mem i = slice_get (shard_as_slice sh mem) i"

definition shard_iter :: "writer_shard \<Rightarrow> 'a list \<Rightarrow> 'a list" where
  "shard_iter sh mem = shard_as_slice sh mem"

definition shard_get_mut :: "writer_shard \<Rightarrow> usize \<Rightarrow> nat option" where
  "shard_get_mut sh i = slice_get_mut (shard_as_mut_slice sh) i"

text \<open>\<open>iter_mut\<close> yields one exclusive reference per cell, here the cells' positions.\<close>

definition shard_iter_mut :: "writer_shard \<Rightarrow> nat list" where
  "shard_iter_mut sh =
     (let s = shard_as_mut_slice sh in [ptr s ..< ptr s + unat (meta s)])"

text \<open>A \<open>for\<close> loop over a borrowed shard.\<close>

definition shard_into_iter :: "writer_shard \<Rightarrow> 'a list \<Rightarrow> 'a list" where
  "shard_into_iter sh mem = shard_as_slice sh mem"

definition shard_into_iter_mut :: "writer_shard \<Rightarrow> nat list" where
  "shard_into_iter_mut sh =
     (let s = shard_as_mut_slice sh in [ptr s ..< ptr s + unat (meta s)])"

definition shard_split_at :: "writer_shard \<Rightarrow> usize \<Rightarrow> (writer_shard \<times> writer_shard) outcome" where
  "shard_split_at sh mid =
     bind_outcome (split_at_mut (sh_cells sh) mid)
       (\<lambda>(left, right). Done (shard_new left, shard_new right))"

definition shard_as_cells :: "writer_shard \<Rightarrow> slice_ref" where
  "shard_as_cells sh = sh_cells sh"

definition shard_into_cells :: "writer_shard \<Rightarrow> slice_ref" where
  "shard_into_cells sh = sh_cells sh"

lemmas shard_defs = shard_new_def shard_len_def shard_is_empty_def shard_as_slice_def
  shard_as_mut_slice_def shard_into_mut_slice_def shard_get_def shard_iter_def shard_get_mut_def
  shard_iter_mut_def shard_into_iter_def shard_into_iter_mut_def shard_split_at_def shard_as_cells_def shard_into_cells_def
  split_at_mut_def slice_get_def slice_get_mut_def

lemma length_slice_read [simp]: "slice_in s mem \<Longrightarrow> length (slice_read s mem) = unat (meta s)"
  by (simp add: slice_in_def slice_read_def length_window)

lemma slice_write_read:
  assumes "slice_in s mem" "length ys = unat (meta s)"
  shows "slice_read s (slice_write s ys mem) = ys"
  using assms window_overwrite_same [of "ptr s" ys mem]
  by (simp add: slice_in_def slice_read_def slice_write_def)

lemma length_slice_write [simp]:
  "slice_in s mem \<Longrightarrow> length ys = unat (meta s) \<Longrightarrow> length (slice_write s ys mem) = length mem"
  by (simp add: slice_in_def slice_write_def length_overwrite)

lemma slice_cells_apart:
  "apart (ptr s) (unat (meta s)) (ptr t) (unat (meta t)) \<Longrightarrow> slice_cells s \<inter> slice_cells t = {}"
  by (auto simp: slice_cells_def apart_def)

lemma slice_read_write_apart:
  assumes "apart (ptr s) (unat (meta s)) (ptr t) (unat (meta t))"
    "slice_in s mem" "slice_in t mem" "length ys = unat (meta t)"
  shows "slice_read s (slice_write t ys mem) = slice_read s mem"
  using assms by (simp add: slice_in_def slice_read_def slice_write_def window_overwrite_apart)

lemma slice_write_commute:
  assumes "apart (ptr s) (unat (meta s)) (ptr t) (unat (meta t))"
    "slice_in s mem" "slice_in t mem" "length ys = unat (meta t)" "length zs = unat (meta s)"
  shows "slice_write s zs (slice_write t ys mem) = slice_write t ys (slice_write s zs mem)"
  using assms overwrite_overwrite_apart [of "ptr s" zs "ptr t" ys mem]
  by (simp add: slice_in_def slice_write_def)

text \<open>Splitting: the halves follow one another, cover the shard and touch no common cell;
  an index past the end is the only panic.\<close>

lemma shard_split_at_Done:
  assumes "mid \<le> shard_len sh"
  shows "shard_split_at sh mid =
    Done (\<lparr>sh_cells = \<lparr>ptr = ptr (sh_cells sh), meta = mid\<rparr>\<rparr>,
          \<lparr>sh_cells = \<lparr>ptr = ptr (sh_cells sh) + unat mid, meta = meta (sh_cells sh) - mid\<rparr>\<rparr>)"
  using assms by (simp add: shard_defs)

lemma shard_split_at_panics:
  "shard_len sh < mid \<Longrightarrow> shard_split_at sh mid = Panicked IndexOutOfBounds"
  by (simp add: shard_defs)

lemma shard_split_at_cells:
  assumes "shard_split_at sh mid = Done (l, r)"
  shows "slice_cells (sh_cells l) \<union> slice_cells (sh_cells r) = slice_cells (sh_cells sh)"
    and "slice_cells (sh_cells l) \<inter> slice_cells (sh_cells r) = {}"
    and "shard_as_slice l mem @ shard_as_slice r mem = shard_as_slice sh mem"
proof -
  have le: "mid \<le> shard_len sh"
    using assms shard_split_at_panics [of sh mid] by (cases "shard_len sh < mid") auto
  then have le': "unat mid \<le> unat (shard_len sh)" by (simp add: word_le_nat_alt)
  have l: "l = \<lparr>sh_cells = \<lparr>ptr = ptr (sh_cells sh), meta = mid\<rparr>\<rparr>"
    and r: "r = \<lparr>sh_cells = \<lparr>ptr = ptr (sh_cells sh) + unat mid, meta = meta (sh_cells sh) - mid\<rparr>\<rparr>"
    using assms shard_split_at_Done [OF le] by auto
  show "slice_cells (sh_cells l) \<union> slice_cells (sh_cells r) = slice_cells (sh_cells sh)"
    and "slice_cells (sh_cells l) \<inter> slice_cells (sh_cells r) = {}"
    using le' by (auto simp: l r slice_cells_def shard_len_def unat_sub_usize)
  show "shard_as_slice l mem @ shard_as_slice r mem = shard_as_slice sh mem"
    using le' window_append [of "ptr (sh_cells sh)" "unat mid" mem "unat (shard_len sh) - unat mid"]
    by (simp add: l r shard_as_slice_def slice_read_def shard_len_def unat_sub_usize)
qed

section \<open>\<open>ShardChunks\<close>: \<^verbatim>\<open>region/chunks.rs\<close>\<close>

record shard_chunks =
  sc_rest :: "slice_ref option"
  sc_chunk :: usize

definition shard_chunks_of :: "writer_shard \<Rightarrow> usize \<Rightarrow> shard_chunks" where
  "shard_chunks_of sh chunk_size = \<lparr>sc_rest = Some (sh_cells sh), sc_chunk = max chunk_size 1\<rparr>"

definition chunks_next :: "shard_chunks \<Rightarrow> (writer_shard option \<times> shard_chunks) outcome" where
  "chunks_next it =
     (case sc_rest it of
        None \<Rightarrow> Done (None, it)
      | Some sl \<Rightarrow>
          if meta sl = 0 then Done (None, it\<lparr>sc_rest := None\<rparr>)
          else let mid = min (sc_chunk it) (meta sl) in
            bind_outcome (split_at_mut sl mid)
              (\<lambda>(head, tail). Done (Some (shard_new head), it\<lparr>sc_rest := Some tail\<rparr>)))"

definition chunks_size_hint :: "shard_chunks \<Rightarrow> (usize \<times> usize option) outcome" where
  "chunks_size_hint it =
     (let remaining = (case sc_rest it of None \<Rightarrow> 0 | Some s \<Rightarrow> meta s) in
      bind_outcome (partition_count remaining (sc_chunk it))
        (\<lambda>shards. Done (shards, Some shards)))"

text \<open>A consumer's \<open>for\<close> loop over the iterator; \<open>None\<close> if it never ends.\<close>

partial_function (option) chunks_collect :: "shard_chunks \<Rightarrow> writer_shard list option" where
  "chunks_collect it =
     (case chunks_next it of
        Panicked p \<Rightarrow> None
      | Done (None, it') \<Rightarrow> Some []
      | Done (Some sh, it') \<Rightarrow> Option.bind (chunks_collect it') (\<lambda>shs. Some (sh # shs)))"


text \<open>The \<open>i\<close>-th shard of the tiling of \<open>m\<close> cells from position \<open>b\<close> by chunks of \<open>c\<close>.\<close>

definition tile_shard :: "nat \<Rightarrow> nat \<Rightarrow> nat \<Rightarrow> nat \<Rightarrow> writer_shard" where
  "tile_shard b m c i =
     \<lparr>sh_cells = \<lparr>ptr = b + i * c, meta = of_nat (min c (m - i * c))\<rparr>\<rparr>"

lemma tile_shard_Suc: "tile_shard b m c (Suc i) = tile_shard (b + c) (m - c) c i"
  by (simp add: tile_shard_def algebra_simps)

lemma chunks_next_empty:
  "sc_rest it = Some s \<Longrightarrow> meta s = 0 \<Longrightarrow> chunks_next it = Done (None, it\<lparr>sc_rest := None\<rparr>)"
  by (simp add: chunks_next_def)

lemma chunks_next_step:
  assumes "sc_rest it = Some s" "meta s \<noteq> 0"
  shows "chunks_next it =
    Done (Some (tile_shard (ptr s) (unat (meta s)) (unat (sc_chunk it)) 0),
      it\<lparr>sc_rest := Some \<lparr>ptr = ptr s + min (unat (sc_chunk it)) (unat (meta s)),
          meta = meta s - min (sc_chunk it) (meta s)\<rparr>\<rparr>)"
proof -
  have "of_nat (min (unat (sc_chunk it)) (unat (meta s))) = min (sc_chunk it) (meta s)"
    by (simp add: usize_eq_iff unat_of_nat_usize unat_min_usize min_less_iff_disj)
  then show ?thesis using assms
    by (simp add: chunks_next_def split_at_mut_def shard_new_def tile_shard_def unat_min_usize Let_def)
qed

lemma chunks_collect_tiles:
  assumes "sc_rest it = Some s" "sc_chunk it \<noteq> 0"
  shows "chunks_collect it =
    Some (map (tile_shard (ptr s) (unat (meta s)) (unat (sc_chunk it)))
      [0..<ceil_div (unat (meta s)) (unat (sc_chunk it))])"
  using assms
proof (induction "unat (meta s)" arbitrary: it s rule: less_induct)
  case less
  let ?c = "unat (sc_chunk it)" and ?m = "unat (meta s)"
  have c: "0 < ?c" using less.prems(2) by (simp add: unat_gt_0)
  show ?case
  proof (cases "meta s = 0")
    case True
    then show ?thesis
      using less.prems c by (simp add: chunks_collect.simps chunks_next_empty)
  next
    case False
    then have m: "0 < ?m" by (simp add: unat_gt_0)
    let ?s' = "\<lparr>ptr = ptr s + min ?c ?m, meta = meta s - min (sc_chunk it) (meta s)\<rparr>"
    let ?it' = "it\<lparr>sc_rest := Some ?s'\<rparr>"
    have m': "unat (meta ?s') = ?m - ?c"
      by (simp add: unat_sub_usize unat_min_usize)
    have "chunks_collect ?it' =
        Some (map (tile_shard (ptr ?s') (unat (meta ?s')) ?c) [0..<ceil_div (unat (meta ?s')) ?c])"
      using less.hyps [of ?s' ?it'] less.prems m c m' by simp
    moreover have "map (tile_shard (ptr ?s') (?m - ?c) ?c) [0..<ceil_div (?m - ?c) ?c] =
        map (tile_shard (ptr s + ?c) (?m - ?c) ?c) [0..<ceil_div (?m - ?c) ?c]"
      using c by (cases "?m \<le> ?c") (simp_all add: min_def)
    ultimately have "chunks_collect it = Some (tile_shard (ptr s) ?m ?c 0 #
        map (tile_shard (ptr s + ?c) (?m - ?c) ?c) [0..<ceil_div (?m - ?c) ?c])"
      using chunks_next_step [OF less.prems(1) False] m'
      by (subst chunks_collect.simps) simp
    also have "\<dots> = Some (map (tile_shard (ptr s) ?m ?c) [0..<Suc (ceil_div (?m - ?c) ?c)])"
      by (simp only: map_upt_Suc tile_shard_Suc [abs_def] list.map)
    finally show ?thesis using ceil_div_step [OF m c] by (simp only:)
  qed
qed

text \<open>The size hint is the number of shards still to come.\<close>

lemma chunks_size_hint_exact:
  assumes "sc_chunk it \<noteq> 0"
  obtains n shs where "chunks_size_hint it = Done (n, Some n)"
    and "chunks_collect it = Some shs" and "unat n = length shs"
proof (cases "sc_rest it")
  case None
  then show ?thesis
    using that by (simp add: chunks_size_hint_def partition_count_def chunks_collect.simps
        chunks_next_def)
next
  case (Some s)
  obtain n where n: "partition_count (meta s) (sc_chunk it) = Done n"
    using partition_count_eq [OF assms] by blast
  show ?thesis
  proof (rule that)
    show "chunks_size_hint it = Done (n, Some n)" using Some n by (simp add: chunks_size_hint_def)
    show "unat n = length (map (tile_shard (ptr s) (unat (meta s)) (unat (sc_chunk it)))
        [0..<ceil_div (unat (meta s)) (unat (sc_chunk it))])"
      using unat_partition_count [OF assms n] by simp
  qed (rule chunks_collect_tiles [OF Some assms])
qed


section \<open>\<open>ParChunks\<close>: \<^verbatim>\<open>region/par_chunks.rs\<close>\<close>

record par_chunks =
  pc_base :: nat
  pc_len :: usize
  pc_chunk :: usize

definition par_new :: "slice_ref \<Rightarrow> usize \<Rightarrow> par_chunks" where
  "par_new s chunk_size =
     \<lparr>pc_base = ptr s, pc_len = meta s, pc_chunk = max chunk_size 1\<rparr>"

definition shard_par_chunks :: "writer_shard \<Rightarrow> usize \<Rightarrow> par_chunks" where
  "shard_par_chunks sh chunk_size = par_new (sh_cells sh) chunk_size"

definition par_len :: "par_chunks \<Rightarrow> usize outcome" where
  "par_len p = partition_count (pc_len p) (pc_chunk p)"

definition par_is_empty :: "par_chunks \<Rightarrow> bool" where
  "par_is_empty p \<longleftrightarrow> pc_len p = 0"

definition par_range :: "par_chunks \<Rightarrow> usize \<Rightarrow> usize \<times> usize" where
  "par_range p index =
     (let start = index * pc_chunk p;
          stop = start + pc_chunk p;
          stop' = (if stop < pc_len p then stop else pc_len p);
          start' = (if start < pc_len p then start else pc_len p)
      in (start', stop'))"

definition get_unchecked_chunk :: "par_chunks \<Rightarrow> usize \<Rightarrow> writer_shard" where
  "get_unchecked_chunk p index =
     (let (start, stop) = par_range p index
      in shard_new \<lparr>ptr = pc_base p + unat start, meta = stop - start\<rparr>)"

text \<open>
  What \<open>par_chunks\<close> establishes: the chunk size is clamped to at least one, and the length
  is that of a slice of elements that occupy memory.
\<close>

definition par_invar :: "par_chunks \<Rightarrow> bool" where
  "par_invar p \<longleftrightarrow> pc_chunk p \<noteq> 0 \<and> unat (pc_len p) \<le> isize_max"

definition par_count :: "par_chunks \<Rightarrow> nat" where
  "par_count p = ceil_div (unat (pc_len p)) (unat (pc_chunk p))"

lemma par_new_chunk [simp]: "pc_chunk (par_new s chunk_size) \<noteq> 0"
  using unat_max_1 [of chunk_size] by (auto simp: par_new_def)

lemma par_new_invar: "unat (meta s) \<le> isize_max \<Longrightarrow> par_invar (par_new s chunk_size)"
  unfolding par_invar_def using par_new_chunk by (simp add: par_new_def)

lemma par_len_count:
  assumes "pc_chunk p \<noteq> 0"
  shows "par_len p = Done (of_nat (par_count p))" and "par_count p \<le> unat (pc_len p)"
    and "unat (of_nat (par_count p) :: usize) = par_count p"
proof -
  show "par_len p = Done (of_nat (par_count p))"
    unfolding par_len_def par_count_def by (rule partition_count_eq [OF assms])
  show le: "par_count p \<le> unat (pc_len p)"
    using assms by (simp add: par_count_def ceil_div_le_self unat_gt_0)
  show "unat (of_nat (par_count p) :: usize) = par_count p"
    using le unat_usize_bound [of "pc_len p"] by (intro unat_of_nat_usize) linarith
qed

lemma par_range_exact:
  assumes "par_invar p" "unat i < par_count p"
  shows "unat (fst (par_range p i)) = unat i * unat (pc_chunk p)"
    and "unat (snd (par_range p i)) = min (unat i * unat (pc_chunk p) + unat (pc_chunk p)) (unat (pc_len p))"
    and "unat i * unat (pc_chunk p) < unat (pc_len p)"
proof -
  let ?c = "unat (pc_chunk p)" and ?l = "unat (pc_len p)"
  have c: "0 < ?c" and l: "?l \<le> 9223372036854775807"
    using assms(1) by (auto simp: par_invar_def isize_max_def unat_gt_0)
  have lt: "unat i * ?c < ?l"
    using assms(2) c by (simp add: par_count_def ceil_div_gt_iff)
  then show "unat i * ?c < ?l" .
  have start: "unat (i * pc_chunk p) = unat i * ?c"
    using lt less_trans [OF lt unat_usize_bound] by (intro unat_mult_usize)
  have "unat i * ?c + ?c < 2 ^ 64"
  proof (cases "unat i")
    case 0
    then show ?thesis using unat_usize_bound by simp
  next
    case (Suc k)
    then have "?c \<le> unat i * ?c" by simp
    then have "unat i * ?c + ?c < 18446744073709551616" using lt l by linarith
    then show ?thesis by simp
  qed
  then have stop: "unat (i * pc_chunk p + pc_chunk p) = unat i * ?c + ?c"
    using start by (simp add: unat_add_usize)
  show "unat (fst (par_range p i)) = unat i * ?c"
    using lt start by (simp add: par_range_def Let_def word_less_nat_alt)
  show "unat (snd (par_range p i)) = min (unat i * ?c + ?c) ?l"
    using stop by (simp add: par_range_def Let_def word_less_nat_alt min_def)
qed

lemma get_unchecked_chunk_tile:
  assumes "par_invar p" "unat i < par_count p"
  shows "get_unchecked_chunk p i =
    tile_shard (pc_base p) (unat (pc_len p)) (unat (pc_chunk p)) (unat i)"
proof -
  let ?c = "unat (pc_chunk p)" and ?l = "unat (pc_len p)"
  obtain s e where se: "par_range p i = (s, e)" by (cases "par_range p i")
  then have s: "unat s = unat i * ?c" and e: "unat e = min (unat i * ?c + ?c) ?l"
    and lt: "unat i * ?c < ?l"
    using par_range_exact [OF assms] by auto
  have "unat (e - s) = min ?c (?l - unat i * ?c)"
    using s e lt by (simp add: unat_sub_usize)
  then have "e - s = of_nat (min ?c (?l - unat i * ?c))"
    by (simp add: usize_eq_iff unat_of_nat_usize min_less_iff_disj)
  then show ?thesis using se s
    by (simp add: get_unchecked_chunk_def tile_shard_def shard_new_def)
qed

interpretation par: tiler par_invar par_count "\<lambda>p. unat (pc_len p)"
  "\<lambda>p i. unat (fst (par_range p (of_nat i)))" "\<lambda>p i. unat (snd (par_range p (of_nat i)))"
proof (unfold_locales, goal_cases)
  case (1 p)
  then show ?case by (simp add: par_invar_def par_count_def ceil_div_eq_0_iff unat_gt_0)
next
  case (2 p)
  then show ?case using par_range_exact(1) [of p 0] by simp
next
  case (3 p i)
  then have b: "par_count p \<le> unat (pc_len p)" by (simp add: par_len_count par_invar_def)
  then have "unat (of_nat i :: usize) = i" "unat (of_nat (Suc i) :: usize) = Suc i"
    using 3 by (auto intro!: unat_of_nat_below [of _ "pc_len p"] simp del: of_nat_Suc)
  with 3 show ?case
    using par_range_exact [of p "of_nat i"] par_range_exact [of p "of_nat (Suc i)"] by simp
next
  case (4 p i)
  then have b: "par_count p \<le> unat (pc_len p)" by (simp add: par_len_count par_invar_def)
  then have "unat (of_nat i :: usize) = i"
    using 4 by (auto intro!: unat_of_nat_below [of _ "pc_len p"])
  with 4 show ?case
    using par_range_exact [of p "of_nat i"] by (auto simp: par_invar_def unat_gt_0)
next
  case (5 p)
  then have b: "par_count p \<le> unat (pc_len p)" by (simp add: par_len_count par_invar_def)
  then have i: "unat (of_nat (par_count p - 1) :: usize) = par_count p - 1"
    using 5 by (intro unat_of_nat_below [of _ "pc_len p"]) linarith
  have c: "0 < unat (pc_chunk p)" using 5 by (simp add: par_invar_def unat_gt_0)
  have "unat (pc_len p) \<le> par_count p * unat (pc_chunk p)"
    using ceil_div_le_iff [OF c, of "unat (pc_len p)" "par_count p"] by (simp add: par_count_def)
  moreover have "(par_count p - 1) * unat (pc_chunk p) + unat (pc_chunk p) = par_count p * unat (pc_chunk p)"
    using 5 by (simp add: algebra_simps flip: mult_Suc_right)
  ultimately show ?case using par_range_exact(2) [of p "of_nat (par_count p - 1)"] 5 i by simp
qed


section \<open>Properties\<close>

lemma slice_cells_tile:
  assumes "i * c < m" "m < 2 ^ 64" "0 < c"
  shows "slice_cells (sh_cells (tile_shard b m c i)) = {b + i * c ..< b + min (i * c + c) m}"
    and "meta (sh_cells (tile_shard b m c i)) \<noteq> 0"
proof -
  have u: "unat (of_nat (min c (m - i * c)) :: usize) = min c (m - i * c)"
    using assms by (intro unat_of_nat_usize) linarith
  have "i * c + min c (m - i * c) = min (i * c + c) m" using assms by linarith
  then show "slice_cells (sh_cells (tile_shard b m c i)) = {b + i * c ..< b + min (i * c + c) m}"
    unfolding slice_cells_def tile_shard_def by (simp add: u add.assoc)
  have "unat (of_nat (min c (m - i * c)) :: usize) \<noteq> 0" using u assms by auto
  then show "meta (sh_cells (tile_shard b m c i)) \<noteq> 0" by (auto simp: tile_shard_def)
qed

lemma chunk_cells:
  assumes "par_invar p" "unat i < par_count p"
  shows "slice_cells (sh_cells (get_unchecked_chunk p i)) =
      (\<lambda>k. pc_base p + k) ` {unat (fst (par_range p i)) ..< unat (snd (par_range p i))}"
    and "meta (sh_cells (get_unchecked_chunk p i)) \<noteq> 0"
proof -
  note r = par_range_exact [OF assms]
  have c: "0 < unat (pc_chunk p)" using assms(1) by (simp add: par_invar_def unat_gt_0)
  note t = slice_cells_tile [OF r(3) unat_usize_bound c, of "pc_base p"]
  show "slice_cells (sh_cells (get_unchecked_chunk p i)) =
      (\<lambda>k. pc_base p + k) ` {unat (fst (par_range p i)) ..< unat (snd (par_range p i))}"
    unfolding get_unchecked_chunk_tile [OF assms] t(1) r(1,2)
    by (simp add: image_add_atLeastLessThan add.commute)
  show "meta (sh_cells (get_unchecked_chunk p i)) \<noteq> 0"
    unfolding get_unchecked_chunk_tile [OF assms] by (rule t(2))
qed

lemma below_par_count:
  assumes "par_len p = Done n" "par_invar p"
  shows "i < n \<longleftrightarrow> unat i < par_count p"
proof -
  have "n = of_nat (par_count p)" using assms par_len_count(1) [of p] by (simp add: par_invar_def)
  then have "unat n = par_count p" using assms(2) par_len_count(3) [of p] by (simp add: par_invar_def)
  then show ?thesis by (simp add: word_less_nat_alt)
qed

text \<open>\<open>partition_count\<close> computes the ceiling of \<open>len / chunk\<close> for every pair of machine
  words with \<open>chunk >= 1\<close>: no intermediate step overflows, however large \<open>len\<close> is, and the
  count never exceeds the length.\<close>

theorem partition_count_is_ceiling:
  assumes "chunk \<noteq> 0"
  shows "\<exists>n. partition_count len chunk = Done n
    \<and> unat n = ceil_div (unat len) (unat chunk) \<and> n \<le> len"
proof -
  obtain n where n: "partition_count len chunk = Done n" using partition_count_eq [OF assms] by blast
  then have "unat n = ceil_div (unat len) (unat chunk)" by (rule unat_partition_count [OF assms])
  moreover have "ceil_div (unat len) (unat chunk) \<le> unat len"
    using assms by (simp add: ceil_div_le_self unat_gt_0)
  ultimately show ?thesis using n by (simp add: word_le_nat_alt)
qed

theorem partition_count_is_ceiling_witness:
  "(7 :: usize) \<noteq> 0 \<and> (\<exists>n. partition_count (- 1) 7 = Done n
    \<and> unat n = ceil_div (unat (- 1 :: usize)) (unat (7 :: usize)) \<and> n \<le> - 1)"
  using partition_count_is_ceiling [of 7 "- 1"] by simp

text \<open>C2. The indexed view vends sound \<open>&mut\<close> shards: every index below \<open>len()\<close> names a
  non-empty run of cells inside the region, two different indices never share a cell, and
  the shards together cover the region. The hypothesis \<open>par_invar\<close> is what \<open>par_chunks\<close>
  establishes for elements that occupy memory.\<close>

theorem par_chunks_partition:
  assumes "par_invar p" and "par_len p = Done n"
  shows "(\<forall>i. i < n \<longrightarrow> \<not> shard_is_empty (get_unchecked_chunk p i))
    \<and> (\<forall>i j. i < n \<longrightarrow> j < n \<longrightarrow> i \<noteq> j \<longrightarrow>
         slice_cells (sh_cells (get_unchecked_chunk p i))
           \<inter> slice_cells (sh_cells (get_unchecked_chunk p j)) = {})
    \<and> (\<Union>i \<in> {i. i < n}. slice_cells (sh_cells (get_unchecked_chunk p i)))
         = {pc_base p ..< pc_base p + unat (pc_len p)}"
proof (intro conjI allI impI)
  note below = below_par_count [OF assms(2,1)]
  fix i j assume "i < n"
  then show "\<not> shard_is_empty (get_unchecked_chunk p i)"
    using chunk_cells(2) [OF assms(1)] below by (simp add: shard_is_empty_def)
  assume "j < n" "i \<noteq> j"
  then show "slice_cells (sh_cells (get_unchecked_chunk p i))
      \<inter> slice_cells (sh_cells (get_unchecked_chunk p j)) = {}"
    using \<open>i < n\<close> below chunk_cells(1) [OF assms(1)]
      par.disjoint_ranges [OF assms(1), of "unat i" "unat j"]
    by (auto simp: usize_eq_iff [symmetric])
next
  note below = below_par_count [OF assms(2,1)]
  let ?R = "\<lambda>i. {unat (fst (par_range p i)) ..< unat (snd (par_range p i))}"
  have "k \<in> (\<Union>i \<in> {i. i < n}. ?R i) \<longleftrightarrow> k < unat (pc_len p)" for k
  proof
    assume "k < unat (pc_len p)"
    then obtain i where i: "i < par_count p" "k \<in> ?R (of_nat i)"
      using par.covered [OF assms(1)] by auto
    moreover have "unat (of_nat i :: usize) = i"
      using i(1) par_len_count(2) [of p] assms(1)
      by (intro unat_of_nat_below [of _ "pc_len p"]) (auto simp: par_invar_def)
    ultimately have "(of_nat i :: usize) < n" using below by simp
    then show "k \<in> (\<Union>i \<in> {i. i < n}. ?R i)" using i(2) by blast
  next
    assume "k \<in> (\<Union>i \<in> {i. i < n}. ?R i)"
    then show "k < unat (pc_len p)"
      using below par_range_exact(2) [OF assms(1)] by fastforce
  qed
  then have "(\<Union>i \<in> {i. i < n}. ?R i) = {0 ..< unat (pc_len p)}"
    by (simp only: set_eq_iff atLeastLessThan_iff le0 simp_thms)
  then have "(\<lambda>k. pc_base p + k) ` (\<Union>i \<in> {i. i < n}. ?R i) =
      {pc_base p ..< pc_base p + unat (pc_len p)}"
    by (simp add: image_add_atLeastLessThan add.commute)
  moreover have "slice_cells (sh_cells (get_unchecked_chunk p i)) = (\<lambda>k. pc_base p + k) ` ?R i"
    if "i < n" for i
    using chunk_cells(1) [OF assms(1)] below that by simp
  ultimately show "(\<Union>i \<in> {i. i < n}. slice_cells (sh_cells (get_unchecked_chunk p i)))
      = {pc_base p ..< pc_base p + unat (pc_len p)}" by (simp add: image_UN)
qed


theorem par_chunks_partition_witness:
  "let p = shard_par_chunks \<lparr>sh_cells = \<lparr>ptr = 0, meta = 6\<rparr>\<rparr> 4 in
     par_invar p \<and> par_len p = Done 2 \<and>
     (\<Union>i \<in> {i. i < 2}. slice_cells (sh_cells (get_unchecked_chunk p i))) = {0 ..< 6}"
proof -
  let ?p = "shard_par_chunks \<lparr>sh_cells = \<lparr>ptr = 0, meta = 6\<rparr>\<rparr> 4"
  have inv: "par_invar ?p"
    by (simp add: par_invar_def shard_par_chunks_def par_new_def isize_max_def max_def word_le_nat_alt)
  have len: "par_len ?p = Done 2"
    by (simp add: par_len_def shard_par_chunks_def par_new_def max_def partition_count_def usize_div_def
        word_le_nat_alt)
  have "(\<Union>i \<in> {i. i < 2}. slice_cells (sh_cells (get_unchecked_chunk ?p i)))
      = {pc_base ?p ..< pc_base ?p + unat (pc_len ?p)}"
    using par_chunks_partition [OF inv len] by blast
  then show ?thesis using inv len by (simp add: shard_par_chunks_def par_new_def)
qed

text \<open>C34. The two partition primitives agree on every region and every chunk size: looping over
  \<open>WriterShard::chunks\<close> ends, without a panic, and yields exactly the shards that
  \<open>WriterShard::par_chunks\<close> vends at the indices \<open>0..len()\<close>, in the same order; the iterator's
  size hint is that same \<open>len()\<close>.\<close>

theorem chunks_agree_with_par_chunks:
  assumes "unat (shard_len sh) \<le> isize_max"
    and "par_len (shard_par_chunks sh chunk_size) = Done n"
  shows "chunks_collect (shard_chunks_of sh chunk_size) =
      Some (map (get_unchecked_chunk (shard_par_chunks sh chunk_size)) (usize_range n))
    \<and> chunks_size_hint (shard_chunks_of sh chunk_size) = Done (n, Some n)"
proof
  let ?p = "shard_par_chunks sh chunk_size" and ?it = "shard_chunks_of sh chunk_size"
  have inv: "par_invar ?p" using assms(1)
    by (simp add: shard_par_chunks_def par_new_invar shard_len_def)
  have f [simp]: "pc_base ?p = ptr (sh_cells sh)" "pc_len ?p = meta (sh_cells sh)"
    "sc_chunk ?it = pc_chunk ?p" "sc_rest ?it = Some (sh_cells sh)"
    by (simp_all add: shard_par_chunks_def par_new_def shard_chunks_of_def)
  have c: "sc_chunk ?it \<noteq> 0" using inv by (simp add: par_invar_def)
  have n: "unat n = par_count ?p"
    using assms(2) par_len_count [of ?p] inv by (simp add: par_invar_def)
  have "map (get_unchecked_chunk ?p) (usize_range n) =
      map (\<lambda>i. tile_shard (pc_base ?p) (unat (pc_len ?p)) (unat (pc_chunk ?p)) (unat i)) (usize_range n)"
    using get_unchecked_chunk_tile [OF inv] n by (auto simp: word_less_nat_alt)
  also have "\<dots> = map (tile_shard (pc_base ?p) (unat (pc_len ?p)) (unat (pc_chunk ?p)))
      (map unat (usize_range n))" by (simp only: map_map comp_def)
  also have "\<dots> = map (tile_shard (pc_base ?p) (unat (pc_len ?p)) (unat (pc_chunk ?p))) [0..<par_count ?p]"
    by (simp only: map_unat_usize_range n)
  finally show "chunks_collect ?it = Some (map (get_unchecked_chunk ?p) (usize_range n))"
    using chunks_collect_tiles [OF f(4) c] by (simp add: par_count_def)
  show "chunks_size_hint ?it = Done (n, Some n)"
    using assms(2) by (simp add: chunks_size_hint_def par_len_def)
qed

theorem chunks_agree_with_par_chunks_witness:
  "let sh = \<lparr>sh_cells = \<lparr>ptr = 3, meta = 7\<rparr>\<rparr> in
     unat (shard_len sh) \<le> isize_max \<and> par_len (shard_par_chunks sh 3) = Done 3 \<and>
     chunks_size_hint (shard_chunks_of sh 3) = Done (3, Some 3)"
proof -
  let ?sh = "\<lparr>sh_cells = \<lparr>ptr = 3, meta = 7\<rparr>\<rparr>"
  have a: "unat (shard_len ?sh) \<le> isize_max" by (simp add: shard_len_def isize_max_def)
  have b: "par_len (shard_par_chunks ?sh 3) = Done 3"
    by (simp add: par_len_def shard_par_chunks_def par_new_def max_def partition_count_def usize_div_def
        word_le_nat_alt)
  show ?thesis using a b chunks_agree_with_par_chunks [OF a b] by simp
qed

text \<open>Splitting a shard: within bounds the two halves are disjoint, cover the shard's cells
  and read its contents in order; a split point past the end is a panic and nothing else
  is.\<close>

theorem shard_split_at_splits:
  "shard_split_at sh mid =
     (if mid \<le> shard_len sh
      then Done (\<lparr>sh_cells = \<lparr>ptr = ptr (sh_cells sh), meta = mid\<rparr>\<rparr>,
             \<lparr>sh_cells = \<lparr>ptr = ptr (sh_cells sh) + unat mid, meta = shard_len sh - mid\<rparr>\<rparr>)
      else Panicked IndexOutOfBounds)
   \<and> (case shard_split_at sh mid of Panicked _ \<Rightarrow> shard_len sh < mid
      | Done (l, r) \<Rightarrow>
          slice_cells (sh_cells l) \<union> slice_cells (sh_cells r) = slice_cells (sh_cells sh)
          \<and> slice_cells (sh_cells l) \<inter> slice_cells (sh_cells r) = {}
          \<and> shard_as_slice l mem @ shard_as_slice r mem = shard_as_slice sh mem)"
proof (intro conjI)
  show "shard_split_at sh mid =
     (if mid \<le> shard_len sh
      then Done (\<lparr>sh_cells = \<lparr>ptr = ptr (sh_cells sh), meta = mid\<rparr>\<rparr>,
             \<lparr>sh_cells = \<lparr>ptr = ptr (sh_cells sh) + unat mid, meta = shard_len sh - mid\<rparr>\<rparr>)
      else Panicked IndexOutOfBounds)"
    by (simp add: shard_defs)
next
  show "case shard_split_at sh mid of Panicked _ \<Rightarrow> shard_len sh < mid
      | Done (l, r) \<Rightarrow>
          slice_cells (sh_cells l) \<union> slice_cells (sh_cells r) = slice_cells (sh_cells sh)
          \<and> slice_cells (sh_cells l) \<inter> slice_cells (sh_cells r) = {}
          \<and> shard_as_slice l mem @ shard_as_slice r mem = shard_as_slice sh mem"
  proof (cases "shard_split_at sh mid")
    case (Done lr)
    obtain l r where "lr = (l, r)" by fastforce
    then show ?thesis using Done shard_split_at_cells [of sh mid l r] by simp
  next
    case (Panicked q)
    then show ?thesis using shard_split_at_Done [of mid sh] by (cases "mid \<le> shard_len sh") auto
  qed
qed


end
