(* ===== verification/Tokens.thy ===== *)
theory Tokens
  imports Prelude
begin

text \<open>
  Brands, token families and permits: \<^verbatim>\<open>src/token/\<close> and \<^verbatim>\<open>src/sync/tokens/\<close>.

  The crate's tokens carry no data; what they do is restrict which programs compile. The
  model is a machine whose operations are the expressions a program can write with them
  (open a scope, borrow the token, share it, send it, borrow a cell, drop a guard) and whose
  errors are the compiler's rejections. A brand, an invariant lifetime that unifies with no
  other, is a number no scope had before. Live permits and live views (references into
  cells) are the loans the borrow checker tracks: a shared borrow excludes exclusive ones, an
  exclusive borrow excludes all others, and what a value borrows from cannot be used again
  in a conflicting way before the value is dropped.
\<close>

section \<open>The permit lattice: \<^verbatim>\<open>token/capability.rs\<close>\<close>

text \<open>Every write permit is also a read permit: \<open>WritePermit \<sqsubseteq> ReadPermit\<close>.\<close>

datatype capability = WriteCap | ReadCap

instantiation capability :: linorder
begin

fun less_eq_capability :: "capability \<Rightarrow> capability \<Rightarrow> bool" where
  "less_eq_capability WriteCap c \<longleftrightarrow> True"
| "less_eq_capability ReadCap c \<longleftrightarrow> c = ReadCap"

definition less_capability :: "capability \<Rightarrow> capability \<Rightarrow> bool" where
  "less_capability a b \<longleftrightarrow> a \<le> b \<and> \<not> b \<le> a"

instance
proof
  fix x y z :: capability
  show "x < y \<longleftrightarrow> x \<le> y \<and> \<not> y \<le> x" by (rule less_capability_def)
  show "x \<le> x" by (cases x) auto
  show "x \<le> y \<Longrightarrow> y \<le> z \<Longrightarrow> x \<le> z" by (cases x; cases y) auto
  show "x \<le> y \<Longrightarrow> y \<le> x \<Longrightarrow> x = y" by (cases x; cases y) auto
  show "x \<le> y \<or> y \<le> x" by (cases x; cases y) auto
qed

end

text \<open>The in-crate carriers of a permit: \<open>&T\<close> and \<open>&mut T\<close> for a brand owner \<open>T\<close>, and the
  \<open>Copy\<close> token \<open>SharedReadToken\<close>. The traits are sealed, so there are no others.\<close>

datatype carrier = OwnerRef | OwnerMut | SharedRead

fun carrier_capability :: "carrier \<Rightarrow> capability" where
  "carrier_capability OwnerRef = ReadCap"
| "carrier_capability OwnerMut = WriteCap"
| "carrier_capability SharedRead = ReadCap"

definition ReadPermit :: "carrier \<Rightarrow> bool" where
  "ReadPermit c \<longleftrightarrow> carrier_capability c \<le> ReadCap"

definition WritePermit :: "carrier \<Rightarrow> bool" where
  "WritePermit c \<longleftrightarrow> carrier_capability c \<le> WriteCap"

section \<open>Token families\<close>

datatype family = ExclusiveFamily | SyncRegionFamily | ThreadLocalFamily

text \<open>The auto-trait posture the \<open>marker_extra\<close> gives the token: \<open>()\<close> is \<open>Send + Sync\<close>,
  \<open>PhantomData<*const ()>\<close> is neither.\<close>

datatype marker_extra = UnitExtra | RawPointerExtra

fun family_extra :: "family \<Rightarrow> marker_extra" where
  "family_extra ExclusiveFamily = UnitExtra"
| "family_extra SyncRegionFamily = UnitExtra"
| "family_extra ThreadLocalFamily = RawPointerExtra"

definition family_send :: "family \<Rightarrow> bool" where
  "family_send fam \<longleftrightarrow> family_extra fam = UnitExtra"

definition family_sync :: "family \<Rightarrow> bool" where
  "family_sync fam \<longleftrightarrow> family_extra fam = UnitExtra"

text \<open>\<open>share: yes\<close> or \<open>no\<close> of the macro invocation.\<close>

fun family_share :: "family \<Rightarrow> bool" where
  "family_share ExclusiveFamily = True"
| "family_share SyncRegionFamily = True"
| "family_share ThreadLocalFamily = False"

text \<open>\<open>&T: Send\<close> iff \<open>T: Sync\<close>, \<open>&mut T: Send\<close> iff \<open>T: Send\<close>; \<open>SharedReadToken\<close> is \<open>Send + Sync\<close>.\<close>

fun carrier_send :: "family \<Rightarrow> carrier \<Rightarrow> bool" where
  "carrier_send fam OwnerRef = family_sync fam"
| "carrier_send fam OwnerMut = family_send fam"
| "carrier_send fam SharedRead = True"

section \<open>The machine\<close>

type_synonym brand = nat
type_synonym thread = nat
type_synonym cell_id = nat

record owner =
  ow_family :: family
  ow_thread :: thread

record permit =
  pr_brand :: brand
  pr_carrier :: carrier
  pr_thread :: thread

record view =
  vw_cells :: "cell_id list"
  vw_permit :: nat
  vw_mut :: bool

record world =
  w_brand :: brand
  w_owners :: "brand \<rightharpoonup> owner"
  w_cells :: "cell_id \<rightharpoonup> brand"
  w_fresh :: nat
  w_permits :: "nat \<rightharpoonup> permit"
  w_views :: "nat \<rightharpoonup> view"

definition empty_world :: world where
  "empty_world = \<lparr>w_brand = 0, w_owners = (\<lambda>_. None), w_cells = (\<lambda>_. None), w_fresh = 0,
     w_permits = (\<lambda>_. None), w_views = (\<lambda>_. None)\<rparr>"

datatype rejection =
    NoSuchToken | NoSuchPermit | NoSuchView
  | AlreadyMutablyBorrowed | AlreadyBorrowed | StillBorrowed
  | NoShareMethod | NotSend | WrongThread
  | BrandMismatch | NotAWritePermit | EscapesScope | ContractViolated

text \<open>\<open>FreshBrand::new\<close>: the higher-ranked \<open>for<'brand>\<close> makes the brand unlike every other.\<close>

definition with_fresh_brand :: "(brand \<Rightarrow> world \<Rightarrow> 'r) \<Rightarrow> world \<Rightarrow> 'r" where
  "with_fresh_brand f w = (let b = w_brand w in f b (w\<lparr>w_brand := Suc b\<rparr>))"

definition mint :: "family \<Rightarrow> thread \<Rightarrow> brand \<Rightarrow> world \<Rightarrow> brand \<times> world" where
  "mint fam t b w = (b, w\<lparr>w_owners := (w_owners w)(b \<mapsto> \<lparr>ow_family = fam, ow_thread = t\<rparr>)\<rparr>)"

definition with_fresh_token :: "family \<Rightarrow> thread \<Rightarrow> (brand \<Rightarrow> world \<Rightarrow> 'r) \<Rightarrow> world \<Rightarrow> 'r" where
  "with_fresh_token fam t f w =
     with_fresh_brand (\<lambda>b w. let (token, w) = mint fam t b w in f token w) w"

definition brand_scope :: "thread \<Rightarrow> (brand \<Rightarrow> world \<Rightarrow> 'r) \<Rightarrow> world \<Rightarrow> 'r" where
  "brand_scope t f w = with_fresh_token ExclusiveFamily t f w"

definition sync_region_scope :: "thread \<Rightarrow> (brand \<Rightarrow> world \<Rightarrow> 'r) \<Rightarrow> world \<Rightarrow> 'r" where
  "sync_region_scope t f w = with_fresh_token SyncRegionFamily t f w"

definition thread_local_scope :: "thread \<Rightarrow> (brand \<Rightarrow> world \<Rightarrow> 'r) \<Rightarrow> world \<Rightarrow> 'r" where
  "thread_local_scope t f w = with_fresh_token ThreadLocalFamily t f w"

text \<open>The unsafe constructor. Its contract, that no other token of the brand exists, is the caller's to keep:
  \<open>token_step\<close> takes it only for a brand nobody was given, and no scope is given that brand
  later.\<close>

definition new_unchecked :: "family \<Rightarrow> thread \<Rightarrow> brand \<Rightarrow> world \<Rightarrow> brand \<times> world" where
  "new_unchecked fam t b w =
     (b, w\<lparr>w_brand := Suc b, w_owners := (w_owners w)(b \<mapsto> \<lparr>ow_family = fam, ow_thread = t\<rparr>)\<rparr>)"

text \<open>The live permits of a brand and the live views through a permit, by their identities; an
  identity is a number below \<open>w_fresh\<close>.\<close>

definition permits_of :: "brand \<Rightarrow> world \<Rightarrow> nat list" where
  "permits_of b w =
     filter (\<lambda>k. case w_permits w k of Some p \<Rightarrow> pr_brand p = b | None \<Rightarrow> False) [0..<w_fresh w]"

definition views_of :: "nat \<Rightarrow> world \<Rightarrow> nat list" where
  "views_of p w =
     filter (\<lambda>k. case w_views w k of Some v \<Rightarrow> vw_permit v = p | None \<Rightarrow> False) [0..<w_fresh w]"

definition is_mut :: "world \<Rightarrow> nat \<Rightarrow> bool" where
  "is_mut w k \<longleftrightarrow> (case w_permits w k of Some p \<Rightarrow> pr_carrier p = OwnerMut | None \<Rightarrow> False)"

definition add_permit :: "permit \<Rightarrow> world \<Rightarrow> world" where
  "add_permit p w = w\<lparr>w_permits := (w_permits w)(w_fresh w \<mapsto> p), w_fresh := Suc (w_fresh w)\<rparr>"

definition add_view :: "view \<Rightarrow> world \<Rightarrow> world" where
  "add_view v w = w\<lparr>w_views := (w_views w)(w_fresh w \<mapsto> v), w_fresh := Suc (w_fresh w)\<rparr>"

text \<open>\<open>&token\<close>: no exclusive borrow may be live. \<open>&mut token\<close>: no borrow may be live.\<close>

definition borrow_token :: "carrier \<Rightarrow> brand \<Rightarrow> thread \<Rightarrow> world \<Rightarrow> rejection + world" where
  "borrow_token c b t w =
     (case w_owners w b of
        None \<Rightarrow> Inl NoSuchToken
      | Some ow \<Rightarrow>
          if ow_thread ow \<noteq> t then Inl WrongThread
          else if c = SharedRead \<and> \<not> family_share (ow_family ow) then Inl NoShareMethod
          else if list_ex (is_mut w) (permits_of b w) then Inl AlreadyMutablyBorrowed
          else if c = OwnerMut \<and> permits_of b w \<noteq> [] then Inl AlreadyBorrowed
          else Inr (add_permit \<lparr>pr_brand = b, pr_carrier = c, pr_thread = t\<rparr> w))"

text \<open>The \<open>share\<close> constructor borrows the token immutably for the window of the read token.\<close>

definition share_token :: "brand \<Rightarrow> thread \<Rightarrow> world \<Rightarrow> rejection + world" where
  "share_token b t w = borrow_token SharedRead b t w"

text \<open>\<open>MelinoeCell::borrow\<close> and \<open>borrow_mut\<close>, and their slice forms: the permit is passed by
  value, so an exclusive one can serve one live view at a time.\<close>

definition borrow_cells :: "bool \<Rightarrow> cell_id list \<Rightarrow> nat \<Rightarrow> world \<Rightarrow> rejection + world" where
  "borrow_cells mut cs p w =
     (case w_permits w p of
        None \<Rightarrow> Inl NoSuchPermit
      | Some pm \<Rightarrow>
          if \<not> list_all (\<lambda>c. w_cells w c = Some (pr_brand pm)) cs then Inl BrandMismatch
          else if mut \<and> \<not> WritePermit (pr_carrier pm) then Inl NotAWritePermit
          else if pr_carrier pm = OwnerMut \<and> views_of p w \<noteq> [] then Inl AlreadyMutablyBorrowed
          else Inr (add_view \<lparr>vw_cells = cs, vw_permit = p, vw_mut = mut\<rparr> w))"

datatype op =
    OpenScope family thread
  | NewUnchecked family thread brand
  | NewCell cell_id brand
  | BorrowRef brand thread
  | BorrowMut brand thread
  | Share brand thread
  | CopyPermit nat
  | SendToken brand thread
  | SendPermit nat thread
  | Borrow "cell_id list" nat
  | BorrowMutCells "cell_id list" nat
  | DropView nat
  | DropPermit nat
  | CloseScope brand

fun token_step :: "op \<Rightarrow> world \<Rightarrow> rejection + world" where
  "token_step (OpenScope fam t) w = Inr (with_fresh_token fam t (\<lambda>b w. w) w)"
| "token_step (NewUnchecked fam t b) w =
     (if b < w_brand w then Inl ContractViolated else Inr (snd (new_unchecked fam t b w)))"
| "token_step (NewCell c b) w =
     (if w_owners w b = None then Inl NoSuchToken
      else if w_cells w c \<noteq> None then Inl BrandMismatch
      else Inr (w\<lparr>w_cells := (w_cells w)(c \<mapsto> b)\<rparr>))"
| "token_step (BorrowRef b t) w = borrow_token OwnerRef b t w"
| "token_step (BorrowMut b t) w = borrow_token OwnerMut b t w"
| "token_step (Share b t) w = share_token b t w"
| "token_step (CopyPermit p) w =
     (case w_permits w p of
        None \<Rightarrow> Inl NoSuchPermit
      | Some pm \<Rightarrow> if pr_carrier pm = OwnerMut then Inl AlreadyMutablyBorrowed else Inr (add_permit pm w))"
| "token_step (SendToken b t) w =
     (case w_owners w b of
        None \<Rightarrow> Inl NoSuchToken
      | Some ow \<Rightarrow>
          if \<not> family_send (ow_family ow) then Inl NotSend
          else if permits_of b w \<noteq> [] then Inl StillBorrowed
          else Inr (w\<lparr>w_owners := (w_owners w)(b \<mapsto> ow\<lparr>ow_thread := t\<rparr>)\<rparr>))"
| "token_step (SendPermit p t) w =
     (case w_permits w p of
        None \<Rightarrow> Inl NoSuchPermit
      | Some pm \<Rightarrow>
          (case w_owners w (pr_brand pm) of
             None \<Rightarrow> Inl NoSuchToken
           | Some ow \<Rightarrow>
               if \<not> carrier_send (ow_family ow) (pr_carrier pm) then Inl NotSend
               else if views_of p w \<noteq> [] then Inl StillBorrowed
               else Inr (w\<lparr>w_permits := (w_permits w)(p \<mapsto> pm\<lparr>pr_thread := t\<rparr>)\<rparr>)))"
| "token_step (Borrow cs p) w = borrow_cells False cs p w"
| "token_step (BorrowMutCells cs p) w = borrow_cells True cs p w"
| "token_step (DropView v) w =
     (if w_views w v = None then Inl NoSuchView
      else Inr (w\<lparr>w_views := (w_views w)(v := None)\<rparr>))"
| "token_step (DropPermit p) w =
     (if w_permits w p = None then Inl NoSuchPermit
      else if views_of p w \<noteq> [] then Inl StillBorrowed
      else Inr (w\<lparr>w_permits := (w_permits w)(p := None)\<rparr>))"
| "token_step (CloseScope b) w =
     (if w_owners w b = None then Inl NoSuchToken
      else if permits_of b w \<noteq> [] then Inl EscapesScope
      else Inr (w\<lparr>w_owners := (w_owners w)(b := None),
                  w_cells := (\<lambda>c. if w_cells w c = Some b then None else w_cells w c)\<rparr>))"

fun run_ops :: "op list \<Rightarrow> world \<Rightarrow> rejection + world" where
  "run_ops [] w = Inr w"
| "run_ops (op # ops) w = (case token_step op w of Inl e \<Rightarrow> Inl e | Inr w' \<Rightarrow> run_ops ops w')"

inductive reachable :: "world \<Rightarrow> bool" where
  start: "reachable empty_world"
| more: "reachable w \<Longrightarrow> token_step op w = Inr w' \<Longrightarrow> reachable w'"

lemma run_ops_reachable: "reachable w \<Longrightarrow> run_ops ops w = Inr w' \<Longrightarrow> reachable w'"
proof (induction ops arbitrary: w)
  case (Cons op ops)
  then show ?case by (auto split: sum.splits intro: more)
qed simp

section \<open>The invariant\<close>

definition permit_inv :: "world \<Rightarrow> bool" where
  "permit_inv w \<longleftrightarrow>
     (\<forall>k p. w_permits w k = Some p \<longrightarrow> k < w_fresh w \<and> w_owners w (pr_brand p) \<noteq> None)
     \<and> (\<forall>k k' p p'. w_permits w k = Some p \<longrightarrow> w_permits w k' = Some p' \<longrightarrow> k \<noteq> k' \<longrightarrow>
          pr_brand p = pr_brand p' \<longrightarrow> pr_carrier p \<noteq> OwnerMut)"

definition view_inv :: "world \<Rightarrow> bool" where
  "view_inv w \<longleftrightarrow>
     (\<forall>k v. w_views w k = Some v \<longrightarrow> k < w_fresh w
        \<and> (\<exists>p. w_permits w (vw_permit v) = Some p
             \<and> list_all (\<lambda>c. w_cells w c = Some (pr_brand p)) (vw_cells v)
             \<and> (vw_mut v \<longrightarrow> pr_carrier p = OwnerMut)))
     \<and> (\<forall>k k' v v'. w_views w k = Some v \<longrightarrow> w_views w k' = Some v' \<longrightarrow> k \<noteq> k' \<longrightarrow>
          vw_permit v = vw_permit v' \<longrightarrow> \<not> is_mut w (vw_permit v))"

definition brand_inv :: "world \<Rightarrow> bool" where
  "brand_inv w \<longleftrightarrow>
     (\<forall>b. w_owners w b \<noteq> None \<longrightarrow> b < w_brand w)
     \<and> (\<forall>c b. w_cells w c = Some b \<longrightarrow> w_owners w b \<noteq> None)"

definition thread_inv :: "world \<Rightarrow> bool" where
  "thread_inv w \<longleftrightarrow>
     (\<forall>k p ow. w_permits w k = Some p \<longrightarrow> w_owners w (pr_brand p) = Some ow \<longrightarrow>
        \<not> family_send (ow_family ow) \<longrightarrow> pr_carrier p \<noteq> SharedRead \<and> pr_thread p = ow_thread ow)"

definition token_inv :: "world \<Rightarrow> bool" where
  "token_inv w \<longleftrightarrow> permit_inv w \<and> view_inv w \<and> brand_inv w \<and> thread_inv w"

lemmas inv_defs = permit_inv_def view_inv_def brand_inv_def thread_inv_def is_mut_def

lemma WritePermit_iff [simp]: "WritePermit c \<longleftrightarrow> c = OwnerMut"
  by (cases c) (auto simp: WritePermit_def)

lemma ReadPermit_all [simp]: "ReadPermit c"
  by (cases c) (auto simp: ReadPermit_def)

lemma permits_of_mem:
  "permit_inv w \<Longrightarrow> k \<in> set (permits_of b w) \<longleftrightarrow> (\<exists>p. w_permits w k = Some p \<and> pr_brand p = b)"
  by (auto simp: permits_of_def permit_inv_def split: option.splits)

lemma permits_of_Nil:
  "permit_inv w \<Longrightarrow> permits_of b w = [] \<longleftrightarrow> (\<forall>k p. w_permits w k = Some p \<longrightarrow> pr_brand p \<noteq> b)"
  using permits_of_mem [of w _ b] by (metis (no_types, lifting) ex_in_conv set_empty)

lemma views_of_Nil:
  "view_inv w \<Longrightarrow> views_of p w = [] \<longleftrightarrow> (\<forall>k v. w_views w k = Some v \<longrightarrow> vw_permit v \<noteq> p)"
  by (auto simp: views_of_def view_inv_def filter_empty_conv split: option.splits)

lemma empty_world_inv: "token_inv empty_world"
  by (simp add: token_inv_def inv_defs empty_world_def)

lemma permitD:
  assumes "permit_inv w" "w_permits w k = Some p"
  shows "k < w_fresh w" "w_owners w (pr_brand p) \<noteq> None"
  using assms by (auto simp: permit_inv_def)

lemma permit_alone:
  assumes "permit_inv w" "w_permits w k = Some p" "w_permits w k' = Some p'" "pr_brand p = pr_brand p'"
    "pr_carrier p = OwnerMut"
  shows "k = k'"
  using assms unfolding permit_inv_def by metis

lemma viewD:
  assumes "view_inv w" "w_views w k = Some v"
  obtains p where "k < w_fresh w" "w_permits w (vw_permit v) = Some p"
    "list_all (\<lambda>c. w_cells w c = Some (pr_brand p)) (vw_cells v)" "vw_mut v \<longrightarrow> pr_carrier p = OwnerMut"
  using assms unfolding view_inv_def by metis

lemma view_alone:
  assumes "view_inv w" "w_views w k = Some v" "w_views w k' = Some v'" "vw_permit v = vw_permit v'"
    "is_mut w (vw_permit v)"
  shows "k = k'"
  using assms unfolding view_inv_def by metis

lemma fresh_unused:
  "permit_inv w \<Longrightarrow> w_permits w (w_fresh w) = None" "view_inv w \<Longrightarrow> w_views w (w_fresh w) = None"
  by (metis less_irrefl not_None_eq permitD(1), metis less_irrefl not_None_eq viewD)

lemma token_invD:
  "token_inv w \<Longrightarrow> permit_inv w" "token_inv w \<Longrightarrow> view_inv w" "token_inv w \<Longrightarrow> brand_inv w"
  "token_inv w \<Longrightarrow> thread_inv w"
  by (simp_all add: token_inv_def)

lemma token_invI: "permit_inv w \<Longrightarrow> view_inv w \<Longrightarrow> brand_inv w \<Longrightarrow> thread_inv w \<Longrightarrow> token_inv w"
  by (simp add: token_inv_def)

lemma brand_unused:
  assumes "token_inv w" "w_brand w \<le> b"
  shows "w_owners w b = None" "w_permits w k = Some p \<Longrightarrow> pr_brand p \<noteq> b"
proof -
  show n: "w_owners w b = None"
    using token_invD(3) [OF assms(1)] assms(2) unfolding brand_inv_def by (metis not_less)
  show "w_permits w k = Some p \<Longrightarrow> pr_brand p \<noteq> b"
    using permitD(2) [OF token_invD(1) [OF assms(1)]] n by metis
qed

section \<open>Every operation keeps it\<close>

lemma add_owner_inv:
  assumes "token_inv w" "w_brand w \<le> b"
  shows "token_inv (w\<lparr>w_brand := Suc b, w_owners := (w_owners w)(b \<mapsto> \<lparr>ow_family = fam, ow_thread = t\<rparr>)\<rparr>)"
    (is "token_inv ?w")
proof -
  note inv = token_invD [OF assms(1)] and new = brand_unused [OF assms]
  show ?thesis
  proof (rule token_invI)
    show "permit_inv ?w" using inv(1) by (simp add: permit_inv_def)
    show "view_inv ?w" using inv(2) by (simp add: view_inv_def is_mut_def)
    show "brand_inv ?w" using inv(3) assms(2) by (auto simp: brand_inv_def less_Suc_eq)
    show "thread_inv ?w" using inv(4) new(2) by (auto simp: thread_inv_def)
  qed
qed

lemma open_scope_inv:
  assumes "token_inv w"
  shows "token_inv (with_fresh_token fam t (\<lambda>b w. w) w)"
  using add_owner_inv [OF assms order_refl]
  by (simp add: with_fresh_token_def with_fresh_brand_def mint_def Let_def)

lemma add_permit_inv:
  assumes "token_inv w" "w_owners w (pr_brand p) = Some ow"
    and alone: "\<And>k q. w_permits w k = Some q \<Longrightarrow> pr_brand q = pr_brand p \<Longrightarrow>
        pr_carrier p \<noteq> OwnerMut \<and> pr_carrier q \<noteq> OwnerMut"
    and conf: "\<not> family_send (ow_family ow) \<Longrightarrow> pr_carrier p \<noteq> SharedRead \<and> pr_thread p = ow_thread ow"
  shows "token_inv (add_permit p w)"
proof -
  note inv = token_invD [OF assms(1)]
  have f: "w_permits w (w_fresh w) = None" by (rule fresh_unused(1) [OF inv(1)])
  have live: "vw_permit v \<noteq> w_fresh w" if "w_views w k = Some v" for k v
    using that f by (metis inv(2) option.distinct(1) viewD)
  show ?thesis
  proof (rule token_invI)
    show "permit_inv (add_permit p w)"
      unfolding permit_inv_def
    proof (intro conjI allI impI)
      fix k q assume "w_permits (add_permit p w) k = Some q"
      then show "k < w_fresh (add_permit p w)" "w_owners (add_permit p w) (pr_brand q) \<noteq> None"
        using permitD [OF inv(1)] assms(2) by (auto simp: add_permit_def less_SucI split: if_splits)
    next
      fix k k' q q'
      assume "w_permits (add_permit p w) k = Some q" "w_permits (add_permit p w) k' = Some q'" "k \<noteq> k'"
        "pr_brand q = pr_brand q'"
      then show "pr_carrier q \<noteq> OwnerMut"
        using alone permit_alone [OF inv(1)]
        by (auto simp: add_permit_def split: if_splits)
    qed
    show "view_inv (add_permit p w)"
      using inv(2) live f unfolding view_inv_def add_permit_def is_mut_def
      by (simp add: less_SucI)
    show "brand_inv (add_permit p w)" using inv(3) by (simp add: brand_inv_def add_permit_def)
    show "thread_inv (add_permit p w)" using inv(4) assms(2) conf
      by (auto simp: thread_inv_def add_permit_def)
  qed
qed

lemma borrow_token_inv:
  assumes "token_inv w" "borrow_token c b t w = Inr w'"
  shows "token_inv w'"
proof -
  obtain ow where ow: "w_owners w b = Some ow" "ow_thread ow = t"
    "c = SharedRead \<longrightarrow> family_share (ow_family ow)"
    "\<not> list_ex (is_mut w) (permits_of b w)" "c = OwnerMut \<longrightarrow> permits_of b w = []"
    "w' = add_permit \<lparr>pr_brand = b, pr_carrier = c, pr_thread = t\<rparr> w"
    using assms(2) by (auto simp: borrow_token_def split: option.splits if_splits)
  note pi = token_invD(1) [OF assms(1)]
  have nomut: "pr_carrier p \<noteq> OwnerMut" if "w_permits w k = Some p" "pr_brand p = b" for k p
    using ow(4) that permits_of_mem [OF pi, of k b] by (auto simp: list_ex_iff is_mut_def)
  have none: "c = OwnerMut \<Longrightarrow> w_permits w k = Some p \<Longrightarrow> pr_brand p \<noteq> b" for k p
    using ow(5) permits_of_Nil [OF pi, of b] by auto
  have "\<not> family_send (ow_family ow) \<Longrightarrow> c \<noteq> SharedRead"
    using ow(3) by (cases "ow_family ow") (auto simp: family_send_def)
  then show ?thesis unfolding ow(6) using ow(1,2) nomut none
    by (intro add_permit_inv [OF assms(1), where ow = ow]) auto
qed

lemma borrow_cells_inv:
  assumes "token_inv w" "borrow_cells m cs p w = Inr w'"
  shows "token_inv w'"
proof -
  note inv = token_invD [OF assms(1)]
  obtain pm where pm: "w_permits w p = Some pm" "list_all (\<lambda>c. w_cells w c = Some (pr_brand pm)) cs"
    "m \<longrightarrow> pr_carrier pm = OwnerMut" "pr_carrier pm = OwnerMut \<longrightarrow> views_of p w = []"
    "w' = add_view \<lparr>vw_cells = cs, vw_permit = p, vw_mut = m\<rparr> w"
    using assms(2) by (auto simp: borrow_cells_def split: option.splits if_splits)
  have none: "pr_carrier pm = OwnerMut \<Longrightarrow> w_views w k = Some v \<Longrightarrow> vw_permit v \<noteq> p" for k v
    using pm(4) views_of_Nil [OF inv(2), of p] by auto
  show ?thesis
  proof (rule token_invI)
    show "permit_inv w'" using inv(1) by (simp add: pm(5) permit_inv_def add_view_def less_SucI)
    show "view_inv w'"
      unfolding view_inv_def
    proof (intro conjI allI impI)
      fix k v assume "w_views w' k = Some v"
      then show "k < w_fresh w'" "\<exists>q. w_permits w' (vw_permit v) = Some q
          \<and> list_all (\<lambda>c. w_cells w' c = Some (pr_brand q)) (vw_cells v)
          \<and> (vw_mut v \<longrightarrow> pr_carrier q = OwnerMut)"
        using pm(1-3) by (auto simp: pm(5) add_view_def less_SucI split: if_splits elim: viewD [OF inv(2)])
    next
      fix k k' v v'
      assume "w_views w' k = Some v" "w_views w' k' = Some v'" "k \<noteq> k'" "vw_permit v = vw_permit v'"
      then show "\<not> is_mut w' (vw_permit v)"
        using view_alone [OF inv(2)] none pm(1)
        by (auto simp: pm(5) add_view_def is_mut_def split: if_splits) blast+
    qed
    show "brand_inv w'" using inv(3) by (simp add: pm(5) brand_inv_def add_view_def)
    show "thread_inv w'" using inv(4) by (simp add: pm(5) thread_inv_def add_view_def)
  qed
qed

lemma drop_permit_inv:
  assumes "token_inv w" "views_of p w = []"
  shows "token_inv (w\<lparr>w_permits := (w_permits w)(p := None)\<rparr>)"
proof (rule token_invI)
  note inv = token_invD [OF assms(1)]
  have "vw_permit v \<noteq> p" if "w_views w k = Some v" for k v
    using that assms(2) views_of_Nil [OF inv(2), of p] by auto
  then show "view_inv (w\<lparr>w_permits := (w_permits w)(p := None)\<rparr>)"
    using inv(2) by (simp add: view_inv_def is_mut_def)
qed (use token_invD [OF assms(1)] in \<open>auto simp: permit_inv_def brand_inv_def thread_inv_def\<close>)

lemma drop_view_inv: "token_inv w \<Longrightarrow> token_inv (w\<lparr>w_views := (w_views w)(v := None)\<rparr>)"
  by (auto simp: token_inv_def permit_inv_def brand_inv_def thread_inv_def view_inv_def is_mut_def)

lemma send_token_inv:
  assumes "token_inv w" "w_owners w b = Some ow" "family_send (ow_family ow)"
  shows "token_inv (w\<lparr>w_owners := (w_owners w)(b \<mapsto> ow\<lparr>ow_thread := t\<rparr>)\<rparr>)"
  using assms by (auto simp: token_inv_def permit_inv_def brand_inv_def thread_inv_def view_inv_def is_mut_def)

lemma send_permit_inv:
  assumes "token_inv w" "w_permits w p = Some pm" "w_owners w (pr_brand pm) = Some ow"
    "carrier_send (ow_family ow) (pr_carrier pm)"
  shows "token_inv (w\<lparr>w_permits := (w_permits w)(p \<mapsto> pm\<lparr>pr_thread := t\<rparr>)\<rparr>)"
proof (rule token_invI)
  note inv = token_invD [OF assms(1)]
  let ?w = "w\<lparr>w_permits := (w_permits w)(p \<mapsto> pm\<lparr>pr_thread := t\<rparr>)\<rparr>"
  have send: "family_send (ow_family ow)"
  proof (rule ccontr)
    assume n: "\<not> family_send (ow_family ow)"
    then have "pr_carrier pm \<noteq> SharedRead" using inv(4) assms(2,3) by (auto simp: thread_inv_def)
    then show False using n assms(4) by (cases "pr_carrier pm") (auto simp: family_send_def family_sync_def)
  qed
  show "permit_inv ?w"
    using permitD [OF inv(1)] permit_alone [OF inv(1)] assms(2)
    unfolding permit_inv_def by (auto split: if_splits) blast+
  have im: "is_mut ?w k = is_mut w k" for k using assms(2) by (auto simp: is_mut_def)
  show "view_inv ?w"
    unfolding view_inv_def im
  proof (intro conjI allI impI)
    fix k v assume "w_views ?w k = Some v"
    then obtain q where q: "k < w_fresh w" "w_permits w (vw_permit v) = Some q"
      "list_all (\<lambda>c. w_cells w c = Some (pr_brand q)) (vw_cells v)" "vw_mut v \<longrightarrow> pr_carrier q = OwnerMut"
      using viewD [OF inv(2)] by auto
    then show "k < w_fresh ?w" "\<exists>q. w_permits ?w (vw_permit v) = Some q
        \<and> list_all (\<lambda>c. w_cells ?w c = Some (pr_brand q)) (vw_cells v)
        \<and> (vw_mut v \<longrightarrow> pr_carrier q = OwnerMut)"
      using assms(2) by auto
  next
    fix k k' v v'
    assume "w_views ?w k = Some v" "w_views ?w k' = Some v'" "k \<noteq> k'" "vw_permit v = vw_permit v'"
    then show "\<not> is_mut w (vw_permit v)" using view_alone [OF inv(2)] by auto
  qed
  show "brand_inv ?w" using inv(3) by (simp add: brand_inv_def)
  show "thread_inv ?w" using inv(4) send assms(3) by (auto simp: thread_inv_def)
qed

lemma close_scope_inv:
  assumes "token_inv w" "permits_of b w = []"
  shows "token_inv (w\<lparr>w_owners := (w_owners w)(b := None),
    w_cells := (\<lambda>c. if w_cells w c = Some b then None else w_cells w c)\<rparr>)"
proof (rule token_invI)
  note inv = token_invD [OF assms(1)]
  let ?w = "w\<lparr>w_owners := (w_owners w)(b := None),
    w_cells := (\<lambda>c. if w_cells w c = Some b then None else w_cells w c)\<rparr>"
  have none: "pr_brand p \<noteq> b" if "w_permits w k = Some p" for k p
    using assms(2) permits_of_Nil [OF inv(1), of b] that by auto
  show "permit_inv ?w" using inv(1) none by (auto simp: permit_inv_def)
  show "view_inv ?w"
    unfolding view_inv_def
  proof (intro conjI allI impI)
    fix k v assume v: "w_views ?w k = Some v"
    then obtain p where p: "k < w_fresh w" "w_permits w (vw_permit v) = Some p"
      "list_all (\<lambda>c. w_cells w c = Some (pr_brand p)) (vw_cells v)" "vw_mut v \<longrightarrow> pr_carrier p = OwnerMut"
      using viewD [OF inv(2)] by auto
    then show "k < w_fresh ?w" "\<exists>p. w_permits ?w (vw_permit v) = Some p
        \<and> list_all (\<lambda>c. w_cells ?w c = Some (pr_brand p)) (vw_cells v)
        \<and> (vw_mut v \<longrightarrow> pr_carrier p = OwnerMut)"
      using none [OF p(2)] by (auto simp: list_all_iff)
  next
    fix k k' v v'
    assume "w_views ?w k = Some v" "w_views ?w k' = Some v'" "k \<noteq> k'" "vw_permit v = vw_permit v'"
    then show "\<not> is_mut ?w (vw_permit v)" using view_alone [OF inv(2)] by (auto simp: is_mut_def)
  qed
  show "brand_inv ?w" using inv(3) by (auto simp: brand_inv_def)
  show "thread_inv ?w" using inv(4) by (auto simp: thread_inv_def)
qed

lemma new_cell_inv:
  assumes "token_inv w" "w_owners w b \<noteq> None" "w_cells w c = None"
  shows "token_inv (w\<lparr>w_cells := (w_cells w)(c \<mapsto> b)\<rparr>)"
proof (rule token_invI)
  note inv = token_invD [OF assms(1)]
  let ?w = "w\<lparr>w_cells := (w_cells w)(c \<mapsto> b)\<rparr>"
  show "permit_inv ?w" using inv(1) by (simp add: permit_inv_def)
  show "brand_inv ?w" using inv(3) assms(2) by (auto simp: brand_inv_def)
  show "thread_inv ?w" using inv(4) by (simp add: thread_inv_def)
  have "list_all (\<lambda>d. w_cells ?w d = Some a) cs" if "list_all (\<lambda>d. w_cells w d = Some a) cs" for a cs
    using that assms(3) by (auto simp: list_all_iff)
  then show "view_inv ?w" using inv(2) unfolding view_inv_def is_mut_def by (simp del: fun_upd_apply) metis
qed

lemma step_inv:
  assumes "token_inv w" "token_step op w = Inr w'"
  shows "token_inv w'"
proof (cases op)
  case (CopyPermit p)
  then obtain pm where pm: "w_permits w p = Some pm" "pr_carrier pm \<noteq> OwnerMut" "w' = add_permit pm w"
    using assms(2) by (auto split: option.splits if_splits)
  note inv = token_invD [OF assms(1)]
  obtain ow where ow: "w_owners w (pr_brand pm) = Some ow" using permitD(2) [OF inv(1) pm(1)] by auto
  have "pr_carrier q \<noteq> OwnerMut" if "w_permits w k = Some q" "pr_brand q = pr_brand pm" for k q
    using permit_alone [OF inv(1) that(1) pm(1) that(2)] pm(1,2) that(1) by auto
  then show ?thesis unfolding pm(3)
    using ow pm(1,2) inv(4) by (intro add_permit_inv [OF assms(1) ow]) (auto simp: thread_inv_def)
next
  case (OpenScope fam t)
  then show ?thesis using assms open_scope_inv by auto
next
  case (NewUnchecked fam t b)
  then show ?thesis using assms add_owner_inv by (auto simp: new_unchecked_def split: if_splits)
next
  case (NewCell c b)
  then show ?thesis using assms new_cell_inv by (auto split: if_splits)
next
  case (SendToken b t)
  then show ?thesis using assms send_token_inv by (auto split: option.splits if_splits)
next
  case (SendPermit p t)
  then show ?thesis using assms send_permit_inv by (auto split: option.splits if_splits)
next
  case (DropView v)
  then show ?thesis using assms drop_view_inv by (auto split: if_splits)
next
  case (DropPermit p)
  then show ?thesis using assms drop_permit_inv by (auto split: if_splits)
next
  case (CloseScope b)
  then show ?thesis using assms close_scope_inv by (auto split: if_splits)
next
  case (Borrow cs p)
  then show ?thesis using assms borrow_cells_inv by simp
next
  case (BorrowMutCells cs p)
  then show ?thesis using assms borrow_cells_inv by simp
next
  case (BorrowRef b t)
  then show ?thesis using assms borrow_token_inv by simp
next
  case (BorrowMut b t)
  then show ?thesis using assms borrow_token_inv by simp
next
  case (Share b t)
  then show ?thesis using assms borrow_token_inv by (simp add: share_token_def)
qed

lemma reachable_inv: "reachable w \<Longrightarrow> token_inv w"
  by (induction rule: reachable.induct) (auto intro: empty_world_inv step_inv)

text \<open>Two live views of one brand, one of them exclusive, are the same view.\<close>

lemma live_views_xor:
  assumes "reachable w"
    and "w_views w k = Some v" "vw_mut v" "c \<in> set (vw_cells v)" "w_cells w c = Some b"
    and "w_views w k' = Some v'" "c' \<in> set (vw_cells v')" "w_cells w c' = Some b"
  shows "k = k'"
proof -
  note inv = token_invD [OF reachable_inv [OF assms(1)]]
  obtain p where p: "w_permits w (vw_permit v) = Some p" "pr_brand p = b" "pr_carrier p = OwnerMut"
    by (rule viewD [OF inv(2) assms(2)]) (use assms(3-5) in \<open>auto simp: list_all_iff\<close>)
  obtain p' where p': "w_permits w (vw_permit v') = Some p'" "pr_brand p' = b"
    by (rule viewD [OF inv(2) assms(6)]) (use assms(7,8) in \<open>auto simp: list_all_iff\<close>)
  have "vw_permit v = vw_permit v'"
    using permit_alone [OF inv(1) p(1) p'(1)] p(2,3) p'(2) by simp
  then show ?thesis using view_alone [OF inv(2) assms(2,6)] p by (simp add: is_mut_def)
qed

section \<open>Properties\<close>


lemmas token_eval = share_token_def with_fresh_token_def with_fresh_brand_def mint_def borrow_token_def borrow_cells_def
  new_unchecked_def permits_of_def views_of_def is_mut_def add_permit_def add_view_def family_send_def family_sync_def empty_world_def

definition one_writer :: world where
  "one_writer = \<lparr>w_brand = 1, w_owners = [0 \<mapsto> \<lparr>ow_family = ExclusiveFamily, ow_thread = 0\<rparr>],
     w_cells = [7 \<mapsto> 0], w_fresh = 2,
     w_permits = [0 \<mapsto> \<lparr>pr_brand = 0, pr_carrier = OwnerMut, pr_thread = 0\<rparr>],
     w_views = [1 \<mapsto> \<lparr>vw_cells = [7], vw_permit = 0, vw_mut = True\<rparr>]\<rparr>"

lemma one_writer_run:
  "run_ops [OpenScope ExclusiveFamily 0, NewCell 7 0, BorrowMut 0 0, BorrowMutCells [7] 0] empty_world
    = Inr one_writer"
  by (simp add: one_writer_def token_eval Let_def)


text \<open>The discipline refuses nothing more than it must: \<open>&mut token\<close> is accepted exactly when
  the thread holds the token and no permit of the brand is live, and \<open>&token\<close> exactly when no
  exclusive permit is.\<close>

theorem borrow_accepted_iff:
  assumes "reachable w"
  shows "((\<exists>w'. token_step (BorrowMut b t) w = Inr w') \<longleftrightarrow>
      (\<exists>ow. w_owners w b = Some ow \<and> ow_thread ow = t)
      \<and> \<not> (\<exists>k p. w_permits w k = Some p \<and> pr_brand p = b))
    \<and> ((\<exists>w'. token_step (BorrowRef b t) w = Inr w') \<longleftrightarrow>
      (\<exists>ow. w_owners w b = Some ow \<and> ow_thread ow = t)
      \<and> \<not> (\<exists>k p. w_permits w k = Some p \<and> pr_brand p = b \<and> pr_carrier p = OwnerMut))"
proof -
  note pi = token_invD(1) [OF reachable_inv [OF assms]]
  have nil: "permits_of b w = [] \<longleftrightarrow> \<not> (\<exists>k p. w_permits w k = Some p \<and> pr_brand p = b)"
    using permits_of_Nil [OF pi, of b] by blast
  have "list_ex (is_mut w) (permits_of b w) \<longleftrightarrow> (\<exists>k. k \<in> set (permits_of b w) \<and> is_mut w k)"
    by (auto simp: list_ex_iff)
  also have "\<dots> \<longleftrightarrow> (\<exists>k p. w_permits w k = Some p \<and> pr_brand p = b \<and> pr_carrier p = OwnerMut)"
    unfolding permits_of_mem [OF pi] is_mut_def by fastforce
  finally have mut: "list_ex (is_mut w) (permits_of b w) \<longleftrightarrow>
      (\<exists>k p. w_permits w k = Some p \<and> pr_brand p = b \<and> pr_carrier p = OwnerMut)" .
  show ?thesis
  proof (cases "w_owners w b")
    case None
    then show ?thesis by (simp add: borrow_token_def)
  next
    case (Some ow)
    have "list_ex (is_mut w) (permits_of b w) \<Longrightarrow> permits_of b w \<noteq> []" by auto
    moreover have "(\<exists>w'. token_step (BorrowMut b t) w = Inr w') \<longleftrightarrow>
        ow_thread ow = t \<and> \<not> list_ex (is_mut w) (permits_of b w) \<and> permits_of b w = []"
      "(\<exists>w'. token_step (BorrowRef b t) w = Inr w') \<longleftrightarrow>
        ow_thread ow = t \<and> \<not> list_ex (is_mut w) (permits_of b w)"
      using Some by (auto simp: borrow_token_def)
    ultimately show ?thesis using Some unfolding nil mut by auto
  qed
qed

theorem borrow_accepted_iff_witness:
  "reachable one_writer \<and> \<not> (\<exists>w'. token_step (BorrowMut 0 0) one_writer = Inr w')
   \<and> \<not> (\<exists>w'. token_step (BorrowRef 0 0) one_writer = Inr w')"
proof -
  have r: "reachable one_writer" by (rule run_ops_reachable [OF start one_writer_run])
  have p: "w_permits one_writer 0 = Some \<lparr>pr_brand = 0, pr_carrier = OwnerMut, pr_thread = 0\<rparr>"
    by (simp add: one_writer_def)
  have "\<exists>k p. w_permits one_writer k = Some p \<and> pr_brand p = 0 \<and> pr_carrier p = OwnerMut"
    by (rule exI, rule exI, rule conjI [OF p]) simp
  then show ?thesis using borrow_accepted_iff [OF r, of 0 0] r by blast
qed

text \<open>C23. Confinement: while a \<open>ThreadLocalToken\<close> lives, every permit of its brand is on its
  thread, and neither the token nor a permit can be sent, nor a read token shared out.\<close>

theorem thread_local_confined:
  assumes "reachable w" "w_owners w b = Some ow" "ow_family ow = ThreadLocalFamily"
  shows "(\<forall>k p. w_permits w k = Some p \<and> pr_brand p = b \<longrightarrow>
        pr_thread p = ow_thread ow \<and> (\<forall>t. token_step (SendPermit k t) w = Inl NotSend))
    \<and> (\<forall>t. token_step (SendToken b t) w = Inl NotSend)
    \<and> token_step (Share b (ow_thread ow)) w = Inl NoShareMethod"
proof -
  note inv = token_invD [OF reachable_inv [OF assms(1)]]
  have "pr_thread p = ow_thread ow \<and> (\<forall>t. token_step (SendPermit k t) w = Inl NotSend)"
    if p: "w_permits w k = Some p" "pr_brand p = b" for k p
  proof -
    have "pr_carrier p \<noteq> SharedRead" "pr_thread p = ow_thread ow"
      using inv(4) p assms(2,3) by (auto simp: thread_inv_def family_send_def)
    then show ?thesis using p assms(2,3)
      by (cases "pr_carrier p") (auto simp: family_send_def family_sync_def)
  qed
  then show ?thesis using assms(2,3) by (auto simp: borrow_token_def share_token_def family_send_def)
qed

definition local_scope :: world where
  "local_scope = \<lparr>w_brand = 1, w_owners = [0 \<mapsto> \<lparr>ow_family = ThreadLocalFamily, ow_thread = 4\<rparr>],
     w_cells = (\<lambda>_. None), w_fresh = 0, w_permits = (\<lambda>_. None), w_views = (\<lambda>_. None)\<rparr>"

lemma local_scope_run: "run_ops [OpenScope ThreadLocalFamily 4] empty_world = Inr local_scope"
  by (simp add: local_scope_def token_eval Let_def)

theorem thread_local_confined_witness:
  "reachable local_scope \<and> token_step (SendToken 0 9) local_scope = Inl NotSend
   \<and> token_step (Share 0 4) local_scope = Inl NoShareMethod"
proof -
  have r: "reachable local_scope" by (rule run_ops_reachable [OF start local_scope_run])
  have o: "w_owners local_scope 0 = Some \<lparr>ow_family = ThreadLocalFamily, ow_thread = 4\<rparr>"
    by (simp add: local_scope_def)
  show ?thesis using thread_local_confined [OF r o] r by simp
qed

lemma step_brand_mono: "token_step op w = Inr w' \<Longrightarrow> w_brand w \<le> w_brand w'"
  by (cases op) (auto simp: with_fresh_token_def with_fresh_brand_def mint_def new_unchecked_def Let_def borrow_token_def share_token_def
      borrow_cells_def add_permit_def add_view_def split: option.splits if_splits)

lemma run_brand_mono: "run_ops ops w = Inr w' \<Longrightarrow> w_brand w \<le> w_brand w'"
proof (induction ops arbitrary: w)
  case (Cons op ops)
  then show ?case using step_brand_mono [of op w] by (fastforce split: sum.splits)
qed simp

text \<open>C13. Generativity: \<open>with_fresh_token\<close> hands its callback the unique owner of a brand that no
  owner, permit or cell has, and that no later scope gets, however the program goes on.\<close>

theorem scope_is_generative:
  assumes "reachable w"
  shows "\<exists>b w1. (\<forall>f :: brand \<Rightarrow> world \<Rightarrow> 'r. with_fresh_token fam t f w = f b w1)
    \<and> w_owners w b = None \<and> w_owners w1 = (w_owners w)(b \<mapsto> \<lparr>ow_family = fam, ow_thread = t\<rparr>)
    \<and> \<not> (\<exists>k p. w_permits w k = Some p \<and> pr_brand p = b) \<and> \<not> (\<exists>c. w_cells w c = Some b)
    \<and> (\<forall>ops w2. run_ops ops w1 = Inr w2 \<longrightarrow> with_fresh_token fam t (\<lambda>b' w. b') w2 \<noteq> b)"
proof -
  note inv = token_invD [OF reachable_inv [OF assms]] and new = brand_unused [OF reachable_inv [OF assms] order_refl]
  let ?w1 = "w\<lparr>w_brand := Suc (w_brand w),
      w_owners := (w_owners w)(w_brand w \<mapsto> \<lparr>ow_family = fam, ow_thread = t\<rparr>)\<rparr>"
  have "\<not> (\<exists>c. w_cells w c = Some (w_brand w))" using inv(3) new(1) unfolding brand_inv_def by blast
  moreover have "with_fresh_token fam t f w = f (w_brand w) ?w1" for f :: "brand \<Rightarrow> world \<Rightarrow> 'r"
    by (simp add: with_fresh_token_def with_fresh_brand_def mint_def Let_def)
  moreover have "with_fresh_token fam t (\<lambda>b' w. b') w2 \<noteq> w_brand w" if "run_ops ops ?w1 = Inr w2" for ops w2
    using run_brand_mono [OF that] by (simp add: with_fresh_token_def with_fresh_brand_def mint_def Let_def)
  ultimately show ?thesis using new by (intro exI [of _ "w_brand w"] exI [of _ ?w1]) auto
qed

theorem scope_is_generative_witness:
  "reachable one_writer \<and> (\<exists>b. with_fresh_token ExclusiveFamily 0 (\<lambda>b w. b) one_writer = b
     \<and> w_owners one_writer b = None)"
proof -
  have r: "reachable one_writer" by (rule run_ops_reachable [OF start one_writer_run])
  show ?thesis using scope_is_generative [OF r, of ExclusiveFamily 0] r by metis
qed

text \<open>The documented examples: the interleavings the crate's documentation marks
  \<open>compile_fail\<close> are rejected, each for its documented reason, and the documented programs
  with nested brands and shared read tokens are accepted.\<close>

theorem documented_examples:
  "run_ops [OpenScope ExclusiveFamily 0, NewCell 7 0, BorrowMut 0 0, BorrowMutCells [7] 0, BorrowRef 0 0]
      empty_world = Inl AlreadyMutablyBorrowed
   \<and> run_ops [OpenScope ExclusiveFamily 0, NewCell 7 0, BorrowRef 0 0, Borrow [7] 0,
        OpenScope ExclusiveFamily 0, BorrowRef 1 0, Borrow [7] 2] empty_world = Inl BrandMismatch
   \<and> run_ops [OpenScope ThreadLocalFamily 0, SendToken 0 1] empty_world = Inl NotSend
   \<and> run_ops [OpenScope ExclusiveFamily 0, BorrowRef 0 0, CloseScope 0] empty_world = Inl EscapesScope
   \<and> (\<exists>w. run_ops [OpenScope ExclusiveFamily 0, OpenScope ExclusiveFamily 0, NewCell 7 0, NewCell 8 1,
        BorrowMut 0 0, BorrowMutCells [7] 0, BorrowMut 1 0, BorrowMutCells [8] 2] empty_world = Inr w)
   \<and> (\<exists>w. run_ops [OpenScope SyncRegionFamily 0, NewCell 7 0, NewCell 8 0, Share 0 0, CopyPermit 0,
        SendPermit 1 5, Borrow [7] 0, Borrow [7, 8] 1] empty_world = Inr w)"
  by (intro conjI) (simp_all add: token_eval Let_def)

end
