(* ===== verification/Cells.thy ===== *)
theory Cells
  imports Region Tokens
begin

text \<open>
  \<open>MelinoeCell\<close>, its guards, slice views and \<open>Cow\<close> boundary: \<^verbatim>\<open>src/cell/\<close>.

  Memory is the list of the cells' values; a cell is the address of its \<open>UnsafeCell\<close>, so a
  cell, the value in it and a slice of cells have the same address, as
  \<open>#[repr(transparent)]\<close> makes it in Rust. A Rust reference is what one can do with it,
  read and assign its target: a \<open>place\<close>. Whether a reference may be formed is the token
  machine's decision; \<open>cell_step\<close> runs a program of borrows, reads and assignments against
  both.
\<close>

section \<open>References\<close>

record ('m, 'a) place =
  pl_get :: "'m \<Rightarrow> 'a"
  pl_put :: "'a \<Rightarrow> 'm \<Rightarrow> 'm"

text \<open>A reference to a part of what another reference points at.\<close>

definition place_comp :: "('a, 'b) place \<Rightarrow> ('m, 'a) place \<Rightarrow> ('m, 'b) place" where
  "place_comp field p = \<lparr>pl_get = (\<lambda>m. pl_get field (pl_get p m)),
     pl_put = (\<lambda>v m. pl_put p (pl_put field v (pl_get p m)) m)\<rparr>"

definition lawful :: "('m, 'a) place \<Rightarrow> bool" where
  "lawful p \<longleftrightarrow> (\<forall>m v. pl_get p (pl_put p v m) = v)
     \<and> (\<forall>m. pl_put p (pl_get p m) m = m)
     \<and> (\<forall>m u v. pl_put p v (pl_put p u m) = pl_put p v m)"

text \<open>Two references into distinct parts.\<close>

definition independent :: "('m, 'a) place \<Rightarrow> ('m, 'b) place \<Rightarrow> bool" where
  "independent p q \<longleftrightarrow> (\<forall>m u v. pl_put p u (pl_put q v m) = pl_put q v (pl_put p u m))
     \<and> (\<forall>m v. pl_get p (pl_put q v m) = pl_get p m) \<and> (\<forall>m u. pl_get q (pl_put p u m) = pl_get q m)"

section \<open>Guards: \<^verbatim>\<open>cell/reference.rs\<close>\<close>

record ('m, 'a) melinoe_ref =
  mr_value :: "('m, 'a) place"

record ('m, 'a) melinoe_mut =
  mm_value :: "('m, 'a) place"

definition ref_new :: "('m, 'a) place \<Rightarrow> ('m, 'a) melinoe_ref" where
  "ref_new value = \<lparr>mr_value = value\<rparr>"

definition into_ref :: "('m, 'a) melinoe_ref \<Rightarrow> ('m, 'a) place" where
  "into_ref g = mr_value g"

definition ref_map :: "('m, 'a) melinoe_ref \<Rightarrow> (('m, 'a) place \<Rightarrow> ('m, 'b) place) \<Rightarrow> ('m, 'b) melinoe_ref" where
  "ref_map orig f = ref_new (f (mr_value orig))"

definition ref_map_split ::
    "('m, 'a) melinoe_ref \<Rightarrow> (('m, 'a) place \<Rightarrow> ('m, 'b) place \<times> ('m, 'c) place)
       \<Rightarrow> ('m, 'b) melinoe_ref \<times> ('m, 'c) melinoe_ref" where
  "ref_map_split orig f = (let (a, b) = f (mr_value orig) in (ref_new a, ref_new b))"

definition ref_deref :: "('m, 'a) melinoe_ref \<Rightarrow> 'm \<Rightarrow> 'a" where
  "ref_deref g m = pl_get (mr_value g) m"

definition mut_new :: "('m, 'a) place \<Rightarrow> ('m, 'a) melinoe_mut" where
  "mut_new value = \<lparr>mm_value = value\<rparr>"

definition into_mut :: "('m, 'a) melinoe_mut \<Rightarrow> ('m, 'a) place" where
  "into_mut g = mm_value g"

definition mut_map :: "('m, 'a) melinoe_mut \<Rightarrow> (('m, 'a) place \<Rightarrow> ('m, 'b) place) \<Rightarrow> ('m, 'b) melinoe_mut" where
  "mut_map orig f = mut_new (f (mm_value orig))"

definition mut_map_split ::
    "('m, 'a) melinoe_mut \<Rightarrow> (('m, 'a) place \<Rightarrow> ('m, 'b) place \<times> ('m, 'c) place)
       \<Rightarrow> ('m, 'b) melinoe_mut \<times> ('m, 'c) melinoe_mut" where
  "mut_map_split orig f = (let (a, b) = f (mm_value orig) in (mut_new a, mut_new b))"

definition mut_deref :: "('m, 'a) melinoe_mut \<Rightarrow> 'm \<Rightarrow> 'a" where
  "mut_deref g m = pl_get (mm_value g) m"

text \<open>Assigning through \<open>DerefMut\<close>.\<close>

definition mut_assign :: "('m, 'a) melinoe_mut \<Rightarrow> 'a \<Rightarrow> 'm \<Rightarrow> 'm" where
  "mut_assign g v m = pl_put (mm_value g) v m"

lemmas guard_defs = ref_new_def into_ref_def ref_map_def ref_map_split_def ref_deref_def mut_new_def
  into_mut_def mut_map_def mut_map_split_def mut_deref_def mut_assign_def

section \<open>Cells: \<^verbatim>\<open>cell/melinoe_cell.rs\<close>\<close>

record melinoe_cell =
  mc_value :: nat

definition unsafe_cell_get :: "nat \<Rightarrow> ('a list, 'a) place" where
  "unsafe_cell_get addr = \<lparr>pl_get = (\<lambda>mem. mem ! addr), pl_put = (\<lambda>v mem. mem[addr := v])\<rparr>"

definition cell_new :: "'a \<Rightarrow> 'a list \<Rightarrow> melinoe_cell \<times> 'a list" where
  "cell_new value mem = (\<lparr>mc_value = length mem\<rparr>, mem @ [value])"

definition cell_into_inner :: "melinoe_cell \<Rightarrow> 'a list \<Rightarrow> 'a" where
  "cell_into_inner c mem = mem ! mc_value c"

definition cell_borrow :: "melinoe_cell \<Rightarrow> ('a list, 'a) melinoe_ref" where
  "cell_borrow c = ref_new (unsafe_cell_get (mc_value c))"

definition cell_borrow_mut :: "melinoe_cell \<Rightarrow> ('a list, 'a) melinoe_mut" where
  "cell_borrow_mut c = mut_new (unsafe_cell_get (mc_value c))"

definition cell_get_mut :: "melinoe_cell \<Rightarrow> ('a list, 'a) place" where
  "cell_get_mut c = unsafe_cell_get (mc_value c)"

text \<open>\<open>core::mem::replace\<close> through the guard.\<close>

definition cell_replace :: "melinoe_cell \<Rightarrow> 'a \<Rightarrow> 'a list \<Rightarrow> 'a \<times> 'a list" where
  "cell_replace c value mem =
     (let g = cell_borrow_mut c in (mut_deref g mem, mut_assign g value mem))"

text \<open>The pointer casts keep the address, and the length of a fat pointer.\<close>

definition cell_from_mut :: "nat \<Rightarrow> melinoe_cell" where
  "cell_from_mut addr = \<lparr>mc_value = addr\<rparr>"

definition cell_from_mut_slice :: "slice_ref \<Rightarrow> slice_ref" where
  "cell_from_mut_slice s = \<lparr>ptr = ptr s, meta = meta s\<rparr>"

definition slice_as_unsafe_cell :: "slice_ref \<Rightarrow> slice_ref" where
  "slice_as_unsafe_cell s = \<lparr>ptr = ptr s, meta = meta s\<rparr>"

definition cell_default :: "'a \<Rightarrow> 'a list \<Rightarrow> melinoe_cell \<times> 'a list" where
  "cell_default d mem = cell_new d mem"

definition cell_from :: "'a \<Rightarrow> 'a list \<Rightarrow> melinoe_cell \<times> 'a list" where
  "cell_from value mem = cell_new value mem"

text \<open>The cell at an index of a slice of cells.\<close>

definition slice_cell :: "slice_ref \<Rightarrow> usize \<Rightarrow> melinoe_cell" where
  "slice_cell s i = \<lparr>mc_value = ptr s + unat i\<rparr>"

section \<open>Slice views: \<^verbatim>\<open>cell/slice.rs\<close>\<close>

definition borrow_slice :: "slice_ref \<Rightarrow> 'a list \<Rightarrow> 'a list" where
  "borrow_slice s mem = slice_read (slice_as_unsafe_cell s) mem"

definition borrow_slice_mut :: "slice_ref \<Rightarrow> slice_ref" where
  "borrow_slice_mut s = slice_as_unsafe_cell s"

section \<open>The \<open>Cow\<close> boundary: \<^verbatim>\<open>cell/cow.rs\<close>\<close>

text \<open>\<open>clone\<close> of an element is a parameter; a \<open>Cow\<close> remembers whether it owns its elements.\<close>

datatype 'a cow = CowBorrowed "'a list" | CowOwned "'a list"

datatype cow_policy = Borrowed | Retained

fun policy_cow :: "('a \<Rightarrow> 'a) \<Rightarrow> cow_policy \<Rightarrow> 'a list \<Rightarrow> 'a cow" where
  "policy_cow clone Borrowed sl = CowBorrowed sl"
| "policy_cow clone Retained sl = CowOwned (map clone sl)"

datatype retain_decision = DecideBorrow | DecideRetain

fun decision_cow :: "('a \<Rightarrow> 'a) \<Rightarrow> retain_decision \<Rightarrow> 'a list \<Rightarrow> 'a cow" where
  "decision_cow clone DecideBorrow sl = policy_cow clone Borrowed sl"
| "decision_cow clone DecideRetain sl = policy_cow clone Retained sl"

definition cow_from_segments :: "('a \<Rightarrow> 'a) \<Rightarrow> 'a list \<Rightarrow> 'a list \<Rightarrow> cow_policy \<Rightarrow> 'a cow" where
  "cow_from_segments clone first second policy =
     (if second = [] then policy_cow clone policy first
      else CowOwned (map clone first @ map clone second))"

definition borrow_cow :: "('a \<Rightarrow> 'a) \<Rightarrow> slice_ref \<Rightarrow> 'a list \<Rightarrow> 'a cow" where
  "borrow_cow clone s mem = policy_cow clone Borrowed (borrow_slice s mem)"

definition retain_cow :: "('a \<Rightarrow> 'a) \<Rightarrow> slice_ref \<Rightarrow> 'a list \<Rightarrow> 'a cow" where
  "retain_cow clone s mem = policy_cow clone Retained (borrow_slice s mem)"

definition borrow_cow_with :: "('a \<Rightarrow> 'a) \<Rightarrow> slice_ref \<Rightarrow> cow_policy \<Rightarrow> 'a list \<Rightarrow> 'a cow" where
  "borrow_cow_with clone s policy mem = (let sl = borrow_slice s mem in policy_cow clone policy sl)"

definition borrow_cow_if :: "('a \<Rightarrow> 'a) \<Rightarrow> slice_ref \<Rightarrow> retain_decision \<Rightarrow> 'a list \<Rightarrow> 'a cow" where
  "borrow_cow_if clone s decision mem = (let sl = borrow_slice s mem in decision_cow clone decision sl)"

fun cow_elements :: "'a cow \<Rightarrow> 'a list" where
  "cow_elements (CowBorrowed xs) = xs"
| "cow_elements (CowOwned xs) = xs"

fun cow_is_owned :: "'a cow \<Rightarrow> bool" where
  "cow_is_owned (CowBorrowed xs) \<longleftrightarrow> False"
| "cow_is_owned (CowOwned xs) \<longleftrightarrow> True"

lemmas cow_defs = borrow_cow_def retain_cow_def borrow_cow_with_def borrow_cow_if_def borrow_slice_def
  slice_as_unsafe_cell_def cow_from_segments_def

lemma slice_as_unsafe_cell_id [simp]: "slice_as_unsafe_cell s = s"
  by (simp add: slice_as_unsafe_cell_def)

section \<open>What a reference promises\<close>

text \<open>
  The laws of an exclusive reference: what was assigned is read back, assigning what was read
  changes nothing, the last assignment wins, and the reference stays valid. A client
  that reads and assigns through one (\<open>mem::replace\<close> twice, a modification) rests on these.
\<close>

locale exclusive_reference =
  fixes valid :: "'p \<Rightarrow> 'm \<Rightarrow> bool"
    and deref :: "'p \<Rightarrow> 'm \<Rightarrow> 'a"
    and assign :: "'p \<Rightarrow> 'a \<Rightarrow> 'm \<Rightarrow> 'm"
  assumes deref_assign: "valid p m \<Longrightarrow> deref p (assign p v m) = v"
    and assign_deref: "valid p m \<Longrightarrow> assign p (deref p m) m = m"
    and assign_assign: "valid p m \<Longrightarrow> assign p v (assign p u m) = assign p v m"
    and valid_assign: "valid p m \<Longrightarrow> valid p (assign p v m)"
begin

lemma replace_back:
  assumes "valid p m"
  shows "assign p (deref p m) (assign p v m) = m"
  using assms by (simp add: assign_assign assign_deref)

lemma modify_twice:
  assumes "valid p m"
  shows "(let m1 = assign p (f (deref p m)) m in assign p (g (deref p m1)) m1) = assign p (g (f (deref p m))) m"
  using assms by (simp add: assign_assign deref_assign Let_def)

end

interpretation cell: exclusive_reference "\<lambda>c mem. mc_value c < length mem"
  "\<lambda>c. mut_deref (cell_borrow_mut c)" "\<lambda>c. mut_assign (cell_borrow_mut c)"
  by unfold_locales (simp_all add: cell_borrow_mut_def guard_defs unsafe_cell_get_def)

interpretation projected: exclusive_reference
  "\<lambda>(c, field) mem. mc_value c < length mem \<and> lawful field"
  "\<lambda>(c, field). mut_deref (mut_map (cell_borrow_mut c) (place_comp field))"
  "\<lambda>(c, field). mut_assign (mut_map (cell_borrow_mut c) (place_comp field))"
  by unfold_locales
    (auto simp: cell_borrow_mut_def guard_defs unsafe_cell_get_def place_comp_def lawful_def)

section \<open>Programs of borrows and assignments\<close>

datatype 'a cell_op =
    NewValue 'a brand
  | Tok op
  | Assign nat cell_id 'a

text \<open>\<open>Assign k c v\<close> assigns \<open>v\<close> to cell \<open>c\<close> through the live view \<open>k\<close>; a shared view has no
  \<open>DerefMut\<close>. \<open>Tok (NewCell c b)\<close> brands existing storage in place (\<open>from_mut\<close>).\<close>

fun cell_step :: "'a cell_op \<Rightarrow> world \<times> 'a list \<Rightarrow> rejection + world \<times> 'a list" where
  "cell_step (NewValue v b) (w, mem) =
     (let (c, mem') = cell_new v mem in
      case token_step (NewCell (mc_value c) b) w of Inl e \<Rightarrow> Inl e | Inr w' \<Rightarrow> Inr (w', mem'))"
| "cell_step (Tok op) (w, mem) =
     (case token_step op w of Inl e \<Rightarrow> Inl e | Inr w' \<Rightarrow> Inr (w', mem))"
| "cell_step (Assign k c v) (w, mem) =
     (case w_views w k of
        None \<Rightarrow> Inl NoSuchView
      | Some vw \<Rightarrow>
          if \<not> vw_mut vw then Inl NotAWritePermit
          else if c \<notin> set (vw_cells vw) then Inl NoSuchView
          else Inr (w, mut_assign (cell_borrow_mut \<lparr>mc_value = c\<rparr>) v mem))"

text \<open>A run during which view \<open>k\<close> is never dropped.\<close>

inductive run_holding :: "nat \<Rightarrow> world \<times> 'a list \<Rightarrow> 'a cell_op list \<Rightarrow> world \<times> 'a list \<Rightarrow> bool" where
  stop: "run_holding k s [] s"
| go: "cell_step op s = Inr s1 \<Longrightarrow> op \<noteq> Tok (DropView k) \<Longrightarrow> run_holding k s1 ops s2 \<Longrightarrow>
     run_holding k s (op # ops) s2"

inductive_cases run_holding_NilE: "run_holding k s [] s'"
inductive_cases run_holding_ConsE: "run_holding k s (op # ops) s'"

lemma cell_step_token:
  assumes "cell_step op (w, mem) = Inr (w', mem')"
  obtains (same) "w' = w" | (tok) top where "token_step top w = Inr w'" "op = Tok top \<or> (\<exists>c b. top = NewCell c b)"
proof (cases op)
  case (NewValue v b)
  then have "token_step (NewCell (mc_value (fst (cell_new v mem))) b) w = Inr w'"
    using assms by (auto simp: Let_def simp del: token_step.simps split: sum.splits prod.splits)
  then show thesis using tok by blast
next
  case (Tok top)
  then have "token_step top w = Inr w'" using assms by (auto split: sum.splits)
  then show thesis using tok Tok by blast
next
  case (Assign k c v)
  then show thesis using assms same by (auto split: option.splits if_splits)
qed

lemma cell_step_reachable: "reachable w \<Longrightarrow> cell_step op (w, mem) = Inr (w', mem') \<Longrightarrow> reachable w'"
  by (erule cell_step_token) (auto intro: more)

text \<open>A view that is not dropped stays, and the cells it covers keep their brand.\<close>

lemma token_step_view:
  assumes "token_inv w" "token_step op w = Inr w'" "w_views w k = Some v" "op \<noteq> DropView k"
  shows "w_views w' k = Some v"
proof -
  have "k < w_fresh w" by (rule viewD [OF token_invD(2) [OF assms(1)] assms(3)])
  then show ?thesis using assms(2-4)
    by (cases op) (auto simp: with_fresh_token_def with_fresh_brand_def mint_def new_unchecked_def Let_def borrow_token_def
        share_token_def borrow_cells_def add_permit_def add_view_def split: option.splits if_splits)
qed

text \<open>Nothing but an assignment through the one live exclusive view of a brand changes a cell of
  the brand.\<close>

lemma assign_other_cell:
  assumes "reachable w" "w_views w k = Some v" "\<not> vw_mut v" "c \<in> set (vw_cells v)"
    and "cell_step (Assign j d x) (w, mem) = Inr (w', mem')"
  shows "mem' ! c = mem ! c"
proof -
  obtain u where u: "w_views w j = Some u" "vw_mut u" "d \<in> set (vw_cells u)"
    and mem': "mem' = mem[d := x]"
    using assms(5) by (auto simp: cell_borrow_mut_def guard_defs unsafe_cell_get_def
        split: option.splits if_splits)
  note inv = token_invD [OF reachable_inv [OF assms(1)]]
  have "c \<noteq> d"
  proof
    assume "c = d"
    obtain b where b: "w_cells w c = Some b"
      by (rule viewD [OF inv(2) assms(2)]) (use assms(4) in \<open>auto simp: list_all_iff\<close>)
    have "j = k"
      using live_views_xor [OF assms(1) u(1,2) u(3) _ assms(2,4) b] b \<open>c = d\<close> by simp
    then show False using u assms(2,3) by simp
  qed
  then show ?thesis by (simp add: mem')
qed

lemma cell_step_stable:
  assumes "reachable w" "w_views w k = Some v" "\<not> vw_mut v" "c \<in> set (vw_cells v)" "c < length mem"
    and "cell_step op (w, mem) = Inr (w', mem')"
  shows "mem' ! c = mem ! c" "length mem \<le> length mem'"
proof -
  show "length mem \<le> length mem'"
    using assms(6) by (cases op) (auto simp: Let_def cell_new_def cell_borrow_mut_def guard_defs
        unsafe_cell_get_def split: sum.splits option.splits if_splits)
  show "mem' ! c = mem ! c"
  proof (cases op)
    case (Assign j d x)
    show ?thesis by (rule assign_other_cell [OF assms(1-4) assms(6) [unfolded Assign]])
  qed (use assms(5,6) in \<open>auto simp: Let_def cell_new_def nth_append split: sum.splits\<close>)
qed

lemma cell_step_view:
  assumes "reachable w" "cell_step op (w, mem) = Inr (w', mem')" "w_views w k = Some v" "op \<noteq> Tok (DropView k)"
  shows "w_views w' k = Some v"
  using assms(2)
proof (cases rule: cell_step_token)
  case same
  then show ?thesis using assms(3) by simp
next
  case (tok top)
  then have "top \<noteq> DropView k" using assms(4) by auto
  then show ?thesis by (rule token_step_view [OF reachable_inv [OF assms(1)] tok(1) assms(3)])
qed

lemma run_holding_stable:
  assumes "run_holding k s ops s'" "reachable (fst s)" "w_views (fst s) k = Some v" "\<not> vw_mut v"
    "c \<in> set (vw_cells v)" "c < length (snd s)"
  shows "snd s' ! c = snd s ! c"
  using assms
proof (induction rule: run_holding.induct)
  case (go op s s1 k ops s2)
  obtain w mem where s: "s = (w, mem)" by fastforce
  obtain w1 mem1 where s1: "s1 = (w1, mem1)" by fastforce
  have st: "cell_step op (w, mem) = Inr (w1, mem1)" using go.hyps(1) s s1 by simp
  have r: "reachable w" using go.prems(1) s by simp
  have "mem1 ! c = mem ! c" "length mem \<le> length mem1"
    using cell_step_stable [OF r _ _ _ _ st] go.prems s by auto
  moreover have "reachable w1" by (rule cell_step_reachable [OF r st])
  moreover have "w_views w1 k = Some v" using cell_step_view [OF r st] go.prems(2) go.hyps(2) s by simp
  ultimately show ?case using go.IH go.prems s s1 by simp
qed simp

section \<open>Properties\<close>

text \<open>C14. A live shared view is a snapshot: however the program goes on (other threads borrow,
  share, send tokens, assign through their own views), the cells it covers keep their values
  until it is dropped. No read through a guard races with a write.\<close>

theorem shared_view_is_stable:
  assumes "reachable w" "run_holding k (w, mem) ops (w', mem')"
    and "w_views w k = Some v" "\<not> vw_mut v" "c \<in> set (vw_cells v)" "c < length mem"
  shows "ref_deref (cell_borrow \<lparr>mc_value = c\<rparr>) mem' = ref_deref (cell_borrow \<lparr>mc_value = c\<rparr>) mem"
  using run_holding_stable [OF assms(2)] assms
  by (simp add: cell_borrow_def guard_defs unsafe_cell_get_def)

definition one_reader :: world where
  "one_reader = \<lparr>w_brand = 1, w_owners = [0 \<mapsto> \<lparr>ow_family = ExclusiveFamily, ow_thread = 0\<rparr>],
     w_cells = [0 \<mapsto> 0], w_fresh = 2,
     w_permits = [0 \<mapsto> \<lparr>pr_brand = 0, pr_carrier = SharedRead, pr_thread = 0\<rparr>],
     w_views = [1 \<mapsto> \<lparr>vw_cells = [0], vw_permit = 0, vw_mut = False\<rparr>]\<rparr>"

lemma one_reader_run:
  "run_ops [OpenScope ExclusiveFamily 0, NewCell 0 0, Share 0 0, Borrow [0] 0] empty_world = Inr one_reader"
  by (simp add: one_reader_def token_eval Let_def)

theorem shared_view_is_stable_witness:
  "\<exists>w' mem'. run_holding 1 (one_reader, [5 :: nat]) [Tok (OpenScope ExclusiveFamily 3), NewValue 9 1] (w', mem')
     \<and> ref_deref (cell_borrow \<lparr>mc_value = 0\<rparr>) mem' = 5"
proof -
  have r: "reachable one_reader" by (rule run_ops_reachable [OF start one_reader_run])
  obtain w1 where w1: "cell_step (Tok (OpenScope ExclusiveFamily 3)) (one_reader, [5 :: nat]) = Inr (w1, [5])"
    "w_owners w1 1 = Some \<lparr>ow_family = ExclusiveFamily, ow_thread = 3\<rparr>" "w_cells w1 1 = None"
    by (simp add: one_reader_def token_eval Let_def)
  obtain w2 where w2: "cell_step (NewValue 9 1) (w1, [5 :: nat]) = Inr (w2, [5, 9])"
    using w1(2,3) by (simp add: cell_new_def)
  have h: "run_holding 1 (one_reader, [5 :: nat]) [Tok (OpenScope ExclusiveFamily 3), NewValue 9 1] (w2, [5, 9])"
    by (rule go [OF w1(1) _ go [OF w2 _ stop]]) simp_all
  have v: "w_views one_reader 1 = Some \<lparr>vw_cells = [0], vw_permit = 0, vw_mut = False\<rparr>"
    by (simp add: one_reader_def)
  have "ref_deref (cell_borrow \<lparr>mc_value = 0\<rparr>) [5, 9 :: nat] = ref_deref (cell_borrow \<lparr>mc_value = 0\<rparr>) [5]"
    by (rule shared_view_is_stable [OF r h v]) simp_all
  then have "ref_deref (cell_borrow \<lparr>mc_value = 0\<rparr>) [5, 9 :: nat] = 5"
    by (simp add: cell_borrow_def guard_defs unsafe_cell_get_def)
  then show ?thesis using h by blast
qed

text \<open>Projected guards: assigning through \<open>MelinoeMut::map\<close> sets the field and nothing else of
  the cell's value or of any other cell; the two guards of \<open>map_split\<close>, on independent
  fields, may be assigned in either order, and each then reads what it was assigned.\<close>

theorem split_guards_are_independent:
  assumes "mc_value c < length mem" "lawful f" "lawful g" "independent f g"
    and "mut_map_split (cell_borrow_mut c) (\<lambda>p. (place_comp f p, place_comp g p)) = (a, b)"
  shows "mut_assign a u (mut_assign b v mem) = mut_assign b v (mut_assign a u mem)
    \<and> mut_deref a (mut_assign b v (mut_assign a u mem)) = u
    \<and> mut_deref b (mut_assign b v (mut_assign a u mem)) = v
    \<and> mut_assign a u mem = mem[mc_value c := pl_put f u (mem ! mc_value c)]
    \<and> a = mut_map (cell_borrow_mut c) (place_comp f)"
  using assms by (auto simp: guard_defs cell_borrow_mut_def unsafe_cell_get_def place_comp_def lawful_def
      independent_def)

definition fst_place :: "('a \<times> 'b, 'a) place" where
  "fst_place = \<lparr>pl_get = fst, pl_put = (\<lambda>v p. (v, snd p))\<rparr>"

definition snd_place :: "('a \<times> 'b, 'b) place" where
  "snd_place = \<lparr>pl_get = snd, pl_put = (\<lambda>v p. (fst p, v))\<rparr>"

theorem split_guards_are_independent_witness:
  "\<exists>a b. mut_map_split (cell_borrow_mut \<lparr>mc_value = 0\<rparr>)
        (\<lambda>p. (place_comp fst_place p, place_comp snd_place p)) = (a, b)
     \<and> mut_deref a (mut_assign b 2 (mut_assign a 1 [(0 :: nat, 0 :: nat)])) = 1
     \<and> mut_deref b (mut_assign b 2 (mut_assign a 1 [(0 :: nat, 0 :: nat)])) = 2"
proof -
  have l: "lawful (fst_place :: (nat \<times> nat, nat) place)" "lawful (snd_place :: (nat \<times> nat, nat) place)"
    "independent (fst_place :: (nat \<times> nat, nat) place) snd_place"
    by (simp_all add: lawful_def independent_def fst_place_def snd_place_def)
  obtain a b where ab: "mut_map_split (cell_borrow_mut \<lparr>mc_value = 0\<rparr>)
      (\<lambda>p. (place_comp (fst_place :: (nat \<times> nat, nat) place) p, place_comp snd_place p)) = (a, b)" by fastforce
  then show ?thesis
    using split_guards_are_independent [of "\<lparr>mc_value = 0\<rparr>" "[(0, 0)]", OF _ l ab] by auto
qed

text \<open>A slice view is the cells' values: element \<open>i\<close> of \<open>borrow_slice\<close> is what borrowing the
  \<open>i\<close>-th cell reads, and assigning through that cell's exclusive guard is assigning element
  \<open>i\<close> of the exclusive slice; \<open>replace\<close> returns the old value and stores the new one there only.\<close>

theorem slice_view_is_cellwise:
  assumes "slice_in s mem" "i < meta s"
  shows "borrow_slice s mem ! unat i = ref_deref (cell_borrow (slice_cell s i)) mem
    \<and> mut_assign (cell_borrow_mut (slice_cell s i)) v mem =
        slice_write (borrow_slice_mut s) ((borrow_slice s mem)[unat i := v]) mem
    \<and> cell_replace (slice_cell s i) v mem = (borrow_slice s mem ! unat i, mem[ptr s + unat i := v])"
proof -
  have i: "unat i < unat (meta s)" using assms(2) by (simp add: word_less_nat_alt)
  then have r: "borrow_slice s mem ! unat i = mem ! (ptr s + unat i)"
    using assms(1) by (simp add: borrow_slice_def slice_as_unsafe_cell_def slice_read_def slice_in_def nth_window)
  have "mem[ptr s + unat i := v] = slice_write s ((slice_read s mem)[unat i := v]) mem"
  proof (rule nth_equalityI)
    fix k assume "k < length (mem[ptr s + unat i := v])"
    then show "mem[ptr s + unat i := v] ! k = slice_write s ((slice_read s mem)[unat i := v]) mem ! k"
      using assms(1) i
      by (auto simp: slice_write_def slice_read_def slice_in_def nth_overwrite length_window nth_list_update nth_window)
  qed (use assms(1) in simp)
  then show ?thesis using r
    by (simp add: borrow_slice_def borrow_slice_mut_def cell_replace_def cell_borrow_def
        cell_borrow_mut_def guard_defs unsafe_cell_get_def slice_cell_def Let_def)
qed

theorem slice_view_is_cellwise_witness:
  "slice_in \<lparr>ptr = 1, meta = 2\<rparr> [7, 8, 9 :: nat] \<and> (1 :: usize) < 2
   \<and> cell_replace (slice_cell \<lparr>ptr = 1, meta = 2\<rparr> 1) 0 [7, 8, 9 :: nat] = (9, [7, 8, 0])"
proof -
  have a: "slice_in \<lparr>ptr = 1, meta = 2\<rparr> [7, 8, 9 :: nat]" by (simp add: slice_in_def)
  have b: "(1 :: usize) < meta \<lparr>ptr = 1, meta = 2\<rparr>" by simp
  show ?thesis using a slice_view_is_cellwise [OF a b, of 0]
    by (simp add: borrow_slice_def slice_as_unsafe_cell_def slice_read_def window_def)
qed

text \<open>The \<open>Cow\<close> boundary: whatever the policy, the decision or the segmentation, the elements
  are those of the view (cloned where owned), the result owns them exactly when the policy
  retains or there are two segments, and the static and the runtime decision agree.\<close>

theorem cow_boundary:
  assumes "\<And>x. clone x = x"
  shows "cow_elements (cow_from_segments clone first second policy) = first @ second
    \<and> (cow_is_owned (cow_from_segments clone first second policy) \<longleftrightarrow> policy = Retained \<or> second \<noteq> [])
    \<and> cow_elements (borrow_cow_with clone s policy mem) = borrow_slice s mem
    \<and> (cow_is_owned (borrow_cow_with clone s policy mem) \<longleftrightarrow> policy = Retained)
    \<and> borrow_cow clone s mem = borrow_cow_with clone s Borrowed mem
    \<and> retain_cow clone s mem = borrow_cow_with clone s Retained mem
    \<and> borrow_cow_if clone s DecideBorrow mem = borrow_cow clone s mem
    \<and> borrow_cow_if clone s DecideRetain mem = retain_cow clone s mem"
proof -
  have "map clone xs = xs" for xs using assms by (simp add: map_idI)
  then show ?thesis by (cases policy) (simp_all add: cow_defs)
qed

theorem cow_boundary_witness:
  "cow_elements (cow_from_segments (\<lambda>x. x) [1] [2 :: nat] Borrowed) = [1, 2]
   \<and> cow_is_owned (cow_from_segments (\<lambda>x. x) [1] [2 :: nat] Borrowed)"
  using cow_boundary [of "\<lambda>x. x" "[1 :: nat]" "[2]" Borrowed] by simp

end
