(* ===== verification/Collections.thy ===== *)
theory Collections
  imports Cells
begin

text \<open>
  What the two branded collections share: capacity growth, index ranges, draining iterators, closures
  that run over elements, and the contract of a growable sequence, stated once as a locale.

  The storage itself is the standard library's \<open>Vec\<close> and \<open>VecDeque\<close>; the values of the cells are
  lists and capacities are natural numbers. How far an allocation grows is a parameter; running
  out of memory is not modelled.
\<close>

section \<open>Growth, ranges\<close>

text \<open>The new capacity for a current capacity and a needed length: documented only to suffice.\<close>

type_synonym grow_policy = "nat \<Rightarrow> nat \<Rightarrow> nat"

definition grows_enough :: "grow_policy \<Rightarrow> bool" where
  "grows_enough grow \<longleftrightarrow> (\<forall>cap need. need \<le> grow cap need)"

lemma grows_enoughD [simp]: "grows_enough grow \<Longrightarrow> need \<le> grow cap need"
  by (simp add: grows_enough_def)

definition reserve_cap :: "grow_policy \<Rightarrow> nat \<Rightarrow> nat \<Rightarrow> nat" where
  "reserve_cap grow cap need = (if need \<le> cap then cap else grow cap need)"

lemma reserve_cap_enough [simp]: "grows_enough grow \<Longrightarrow> need \<le> reserve_cap grow cap need"
  by (simp add: reserve_cap_def)

datatype bound = Included usize | Excluded usize | Unbounded

text \<open>\<open>RangeBounds<usize>\<close> resolved against a length; a reversed or overlong range panics.\<close>

definition range_resolve :: "bound \<Rightarrow> bound \<Rightarrow> nat \<Rightarrow> (nat \<times> nat) outcome" where
  "range_resolve lo hi n =
     (let a = (case lo of Included i \<Rightarrow> unat i | Excluded i \<Rightarrow> Suc (unat i) | Unbounded \<Rightarrow> 0);
          b = (case hi of Included i \<Rightarrow> Suc (unat i) | Excluded i \<Rightarrow> unat i | Unbounded \<Rightarrow> n)
      in if a \<le> b \<and> b \<le> n then Done (a, b) else Panicked IndexOutOfBounds)"

lemma range_resolve_Done: "range_resolve lo hi n = Done (a, b) \<Longrightarrow> a \<le> b \<and> b \<le> n"
  by (auto simp: range_resolve_def Let_def split: if_splits)

section \<open>Draining iterators: \<open>BrandedDrain\<close> and \<open>BrandedVecDequeDrain\<close>\<close>

text \<open>The cells still to be yielded; the collection is given back without the whole range.\<close>

record 'a branded_drain =
  dr_inner :: "'a list"

definition drain_next :: "'a branded_drain \<Rightarrow> 'a option \<times> 'a branded_drain" where
  "drain_next d =
     (case dr_inner d of [] \<Rightarrow> (None, d) | x # xs \<Rightarrow> (Some x, d\<lparr>dr_inner := xs\<rparr>))"

definition drain_next_back :: "'a branded_drain \<Rightarrow> 'a option \<times> 'a branded_drain" where
  "drain_next_back d =
     (if dr_inner d = [] then (None, d)
      else (Some (last (dr_inner d)), d\<lparr>dr_inner := butlast (dr_inner d)\<rparr>))"

definition drain_size_hint :: "'a branded_drain \<Rightarrow> nat \<times> nat option" where
  "drain_size_hint d = (length (dr_inner d), Some (length (dr_inner d)))"

text \<open>Draining from both ends: \<open>True\<close> asks the front, \<open>False\<close> the back.\<close>

fun drain_ends :: "bool list \<Rightarrow> 'a branded_drain \<Rightarrow> 'a option list \<times> 'a branded_drain" where
  "drain_ends [] d = ([], d)"
| "drain_ends (front # asks) d =
     (let (x, d) = (if front then drain_next d else drain_next_back d);
          (xs, d) = drain_ends asks d
      in (x # xs, d))"

text \<open>What the front asks and the back asks got, in order, and the rest, make up the range.\<close>

fun got :: "bool \<Rightarrow> bool list \<Rightarrow> 'a option list \<Rightarrow> 'a list" where
  "got side (a # asks) (Some x # xs) = (if a = side then x # got side asks xs else got side asks xs)"
| "got side (a # asks) (None # xs) = got side asks xs"
| "got side _ _ = []"

lemma drain_ends_got:
  "drain_ends asks d = (xs, d') \<Longrightarrow>
     got True asks xs @ dr_inner d' @ rev (got False asks xs) = dr_inner d"
proof (induction asks arbitrary: d xs d')
  case (Cons front asks)
  define step where "step = (if front then drain_next d else drain_next_back d)"
  obtain x d1 where s: "step = (x, d1)" by (cases step)
  obtain ys d2 where e: "drain_ends asks d1 = (ys, d2)" by (cases "drain_ends asks d1")
  from Cons.prems s e have xs: "xs = x # ys" "d' = d2" by (auto simp: step_def split: if_splits)
  note IH = Cons.IH [OF e]
  show ?case
  proof (cases "dr_inner d = []")
    case True
    with s have "x = None" "d1 = d" by (auto simp: step_def drain_next_def drain_next_back_def split: if_splits)
    with IH xs show ?thesis by simp
  next
    case False
    show ?thesis
    proof (cases front)
      case True
      with s False have "x = Some (hd (dr_inner d))" "dr_inner d1 = tl (dr_inner d)"
        by (auto simp: step_def drain_next_def split: list.splits)
      with IH xs True False show ?thesis by simp
    next
      case rear: False
      with s False have "x = Some (last (dr_inner d))" "dr_inner d1 = butlast (dr_inner d)"
        by (auto simp: step_def drain_next_back_def)
      with IH xs rear False show ?thesis by (simp flip: append_assoc)
    qed
  qed
qed simp

section \<open>Closures over elements\<close>

text \<open>Values produced in order, up to the first panic.\<close>

type_synonym ('a, 's) producer = "'s \<Rightarrow> 'a outcome \<times> 's"

fun produce :: "('a, 's) producer list \<Rightarrow> 's \<Rightarrow> unit outcome \<times> 'a list \<times> 's" where
  "produce [] s = (Done (), [], s)"
| "produce (g # gs) s =
     (case g s of
        (Panicked p, s) \<Rightarrow> (Panicked p, [], s)
      | (Done x, s) \<Rightarrow> (let (r, xs, s) = produce gs s in (r, x # xs, s)))"

text \<open>A predicate of \<open>retain_mut\<close>: it may change the element, keep state of its own, or panic.\<close>

type_synonym ('a, 's) keep = "'a \<Rightarrow> 's \<Rightarrow> (bool outcome \<times> 'a) \<times> 's"

fun retained :: "('a, 's) keep \<Rightarrow> 'a list \<Rightarrow> 's \<Rightarrow> unit outcome \<times> 'a list \<times> 's" where
  "retained f [] s = (Done (), [], s)"
| "retained f (x # xs) s =
     (case f x s of
        ((Panicked p, x'), s) \<Rightarrow> (Panicked p, x' # xs, s)
      | ((Done keep, x'), s) \<Rightarrow>
          (let (r, ys, s) = retained f xs s in (r, if keep then x' # ys else ys, s)))"

definition list_swap :: "nat \<Rightarrow> nat \<Rightarrow> 'a list \<Rightarrow> 'a list" where
  "list_swap a b xs = xs[a := xs ! b, b := xs ! a]"

section \<open>The contract of a growable sequence\<close>

text \<open>
  Operations on a collection, what it holds, and what they do to that. The laws are those the
  collections' clients use; \<open>ok\<close> is the storage invariant.
\<close>

locale growable =
  fixes ok :: "'c \<Rightarrow> bool"
    and contents :: "'c \<Rightarrow> 'a list"
    and push :: "'a \<Rightarrow> 'c \<Rightarrow> 'c"
    and pop :: "'c \<Rightarrow> 'a option \<times> 'c"
    and split :: "usize \<Rightarrow> 'c \<Rightarrow> 'c outcome \<times> 'c"
    and append :: "'c \<Rightarrow> 'c \<Rightarrow> 'c \<times> 'c"
    and draining :: "bound \<Rightarrow> bound \<Rightarrow> 'c \<Rightarrow> 'a branded_drain outcome \<times> 'c"
  assumes push_ok: "ok c \<Longrightarrow> ok (push x c)"
    and push_contents: "ok c \<Longrightarrow> contents (push x c) = contents c @ [x]"
    and pop_ok: "ok c \<Longrightarrow> ok (snd (pop c))"
    and pop_contents: "ok c \<Longrightarrow> contents (snd (pop c)) = butlast (contents c)"
    and pop_value: "ok c \<Longrightarrow> fst (pop c) = (if contents c = [] then None else Some (last (contents c)))"
    and split_bounds: "ok c \<Longrightarrow> length (contents c) < unat at \<Longrightarrow> split at c = (Panicked IndexOutOfBounds, c)"
    and split_contents: "ok c \<Longrightarrow> unat at \<le> length (contents c) \<Longrightarrow>
      \<exists>r c'. split at c = (Done r, c') \<and> ok r \<and> ok c'
        \<and> contents r = drop (unat at) (contents c) \<and> contents c' = take (unat at) (contents c)"
    and append_contents: "ok c \<Longrightarrow> ok d \<Longrightarrow>
      \<exists>c' d'. append c d = (c', d') \<and> ok c' \<and> ok d' \<and> contents c' = contents c @ contents d \<and> contents d' = []"
    and drain_bounds: "ok c \<Longrightarrow> range_resolve lo hi (length (contents c)) = Panicked p \<Longrightarrow>
      draining lo hi c = (Panicked p, c)"
    and drain_contents: "ok c \<Longrightarrow> range_resolve lo hi (length (contents c)) = Done (a, b) \<Longrightarrow>
      \<exists>d c'. draining lo hi c = (Done d, c') \<and> ok c' \<and> dr_inner d = take (b - a) (drop a (contents c))
        \<and> contents c' = take a (contents c) @ drop b (contents c)"
begin

lemma push_pop: "ok c \<Longrightarrow> fst (pop (push x c)) = Some x \<and> contents (snd (pop (push x c))) = contents c"
  by (simp add: pop_value pop_contents push_contents push_ok)

text \<open>Splitting and appending the halves again gives the sequence back.\<close>

lemma split_append:
  assumes "ok c" "unat at \<le> length (contents c)"
  shows "\<exists>r c'. split at c = (Done r, c') \<and> contents (fst (append c' r)) = contents c
    \<and> contents (snd (append c' r)) = []"
proof -
  obtain r c' where s: "split at c = (Done r, c')" "ok r" "ok c'"
    "contents r = drop (unat at) (contents c)" "contents c' = take (unat at) (contents c)"
    using split_contents [OF assms] by blast
  moreover obtain e f where "append c' r = (e, f)" "contents e = contents c' @ contents r" "contents f = []"
    using append_contents [OF s(3,2)] by blast
  ultimately show ?thesis by simp
qed

text \<open>Extending by pushing what an iterator yields, until it ends or panics.\<close>

lemma extend_produces:
  assumes "\<And>s c. ext [] s c = (Done (), s, c)"
    and "\<And>g gs s c. ext (g # gs) s c =
      (case g s of (Panicked p, s) \<Rightarrow> (Panicked p, s, c) | (Done x, s) \<Rightarrow> ext gs s (push x c))"
  shows "ext gs s c = (r, s', c') \<Longrightarrow> ok c \<Longrightarrow>
     \<exists>xs. produce gs s = (r, xs, s') \<and> contents c' = contents c @ xs \<and> ok c'"
proof (induction gs arbitrary: s c)
  case Nil
  then show ?case by (simp add: assms(1))
next
  case (Cons g gs)
  obtain q s1 where g: "g s = (q, s1)" by (cases "g s")
  show ?case
  proof (cases q)
    case (Panicked p)
    with Cons.prems g show ?thesis by (simp add: assms(2))
  next
    case (Done x)
    with Cons.prems g have "ext gs s1 (push x c) = (r, s', c')" by (simp add: assms(2))
    from Cons.IH [OF this push_ok] Cons.prems(2) obtain xs where
      "produce gs s1 = (r, xs, s')" "contents c' = contents (push x c) @ xs" "ok c'" by blast
    with Done g Cons.prems(2) show ?thesis by (simp add: push_contents)
  qed
qed

text \<open>However its two ends are asked, a drain yields its range, and the rest stays.\<close>

lemma drain_partitions:
  assumes "ok c" "draining lo hi c = (Done d, c')" "drain_ends asks d = (xs, d')"
  shows "\<exists>a b. range_resolve lo hi (length (contents c)) = Done (a, b)
    \<and> contents c = take a (contents c') @ (got True asks xs @ dr_inner d' @ rev (got False asks xs)) @ drop a (contents c')"
proof (cases "range_resolve lo hi (length (contents c))")
  case (Panicked p)
  with assms(1,2) drain_bounds show ?thesis by force
next
  case (Done ab)
  then obtain a b where ab: "range_resolve lo hi (length (contents c)) = Done (a, b)" by (cases ab) simp
  note le = range_resolve_Done [OF ab]
  obtain d1 c1 where "draining lo hi c = (Done d1, c1)" "dr_inner d1 = take (b - a) (drop a (contents c))"
    "contents c1 = take a (contents c) @ drop b (contents c)"
    using drain_contents [OF assms(1) ab] by blast
  with assms(2) have d: "dr_inner d = take (b - a) (drop a (contents c))"
    "contents c' = take a (contents c) @ drop b (contents c)" by simp_all
  have "contents c = take a (contents c) @ take (b - a) (drop a (contents c)) @ drop b (contents c)"
    using le by (metis append_take_drop_id drop_drop le_add_diff_inverse2)
  with d le have "contents c = take a (contents c') @ dr_inner d @ drop a (contents c')" by simp
  with ab drain_ends_got [OF assms(3)] show ?thesis by simp
qed

end

end
