(* ===== verification/Executor.thy ===== *)
theory Executor
  imports Prelude
begin

text \<open>
  The parallel-executor seam, \<^verbatim>\<open>src/sync/scoped/partition/executor.rs\<close>. A scheduler is code
  outside the crate: it is a function \<open>run_indexed\<close> that is handed a number of tasks, the
  task function and the type-erased context the tasks work on. The context is passed
  through as a value; the first component of the result is the payload with which the
  scheduler itself unwinds, if it does. What the crate relies on is the documented
  contract of \<open>ParallelExecutor\<close>, the locale below.

  The process-global slot \<open>PARALLEL_EXECUTOR\<close> holds a raw pointer, null or the address of a
  monomorphized shim.
\<close>

type_synonym 'c task_fn = "usize \<Rightarrow> 'c \<Rightarrow> 'c"
type_synonym 'c executor_fn = "usize \<Rightarrow> 'c task_fn \<Rightarrow> 'c \<Rightarrow> payload option \<times> 'c"

section \<open>The contract\<close>

text \<open>
  (1) every index in \<open>0..num_tasks\<close> is invoked exactly once, (2) on return no invocation is
  still running, so the context is the result of the invocations in some order, (3) on
  unwind some indices may not have run, but none ran twice.
\<close>

definition honours_contract :: "'c executor_fn \<Rightarrow> bool" where
  "honours_contract run_indexed \<longleftrightarrow>
     (\<forall>num_tasks task context. \<exists>order.
        distinct order \<and> set order \<subseteq> {i. i < num_tasks}
        \<and> snd (run_indexed num_tasks task context) = fold task order context
        \<and> (fst (run_indexed num_tasks task context) = None \<longrightarrow> set order = {i. i < num_tasks}))"

locale parallel_executor =
  fixes run_indexed :: "'c executor_fn"
  assumes honours: "honours_contract run_indexed"
begin

lemma runs_in_some_order:
  obtains order where "distinct order" "set order \<subseteq> {i. i < n}"
    "snd (run_indexed n task c) = fold task order c"
    "fst (run_indexed n task c) = None \<Longrightarrow> schedule_of n order"
  using honours unfolding honours_contract_def by (metis schedule_ofI)

text \<open>An invariant every task keeps holds of the context the scheduler leaves behind.\<close>

lemma keeps_invariant:
  assumes "I c" and "\<And>i c. i < n \<Longrightarrow> I c \<Longrightarrow> I (task i c)"
  shows "I (snd (run_indexed n task c))"
proof -
  obtain order where order: "set order \<subseteq> {i. i < n}" "snd (run_indexed n task c) = fold task order c"
    by (rule runs_in_some_order [of n task c])
  have "I c \<Longrightarrow> I (fold task order c)" using order(1)
    by (induction order arbitrary: c) (auto intro: assms(2))
  then show ?thesis using assms(1) order(2) by simp
qed

end

section \<open>\<open>Executor\<close>, the slot and its operations\<close>

datatype 'c executor = Executor "'c executor_fn"

text \<open>A function pointer cast to \<open>*mut ()\<close>, or null.\<close>

datatype 'c raw_ptr = Null | FnPtr "'c executor_fn"

definition shim :: "'c executor_fn \<Rightarrow> 'c executor_fn" where
  "shim run_indexed = (\<lambda>num_tasks task context. run_indexed num_tasks task context)"

definition executor_new :: "'c executor_fn \<Rightarrow> 'c executor" where
  "executor_new run_indexed = Executor (shim run_indexed)"

fun executor_as_ptr :: "'c executor \<Rightarrow> 'c raw_ptr" where
  "executor_as_ptr (Executor f) = FnPtr f"

text \<open>\<open>from_ptr\<close> transmutes the bits back; on null there is no function to call.\<close>

fun executor_from_ptr :: "'c raw_ptr \<Rightarrow> 'c executor option" where
  "executor_from_ptr (FnPtr f) = Some (Executor f)"
| "executor_from_ptr Null = None"

fun execute :: "'c executor \<Rightarrow> 'c executor_fn" where
  "execute (Executor f) num_tasks task_fn data = f num_tasks task_fn data"

text \<open>The slot starts null; the two writers store to it, each driver call loads it once.\<close>

definition PARALLEL_EXECUTOR :: "'c raw_ptr" where
  "PARALLEL_EXECUTOR = Null"

definition register_parallel_executor :: "'c executor_fn \<Rightarrow> 'c raw_ptr \<Rightarrow> 'c raw_ptr" where
  "register_parallel_executor run_indexed slot = executor_as_ptr (executor_new run_indexed)"

definition clear_parallel_executor :: "'c raw_ptr \<Rightarrow> 'c raw_ptr" where
  "clear_parallel_executor slot = Null"

definition registered_parallel_executor :: "'c raw_ptr \<Rightarrow> 'c executor option" where
  "registered_parallel_executor slot =
     (let executor_ptr = slot in
      case executor_ptr of Null \<Rightarrow> None | _ \<Rightarrow> executor_from_ptr executor_ptr)"

lemmas slot_defs = register_parallel_executor_def clear_parallel_executor_def
  registered_parallel_executor_def executor_new_def shim_def PARALLEL_EXECUTOR_def

text \<open>The sequential scheduler of the trait's documentation.\<close>

definition sequentially :: "'c executor_fn" where
  "sequentially num_tasks task context = (None, fold task (usize_range num_tasks) context)"

text \<open>What a program may store in the slot: nothing, or a scheduler that honours the
  contract (implementing \<open>ParallelExecutor\<close> is \<open>unsafe\<close> for exactly this reason).\<close>

definition slot_sound :: "'c raw_ptr \<Rightarrow> bool" where
  "slot_sound slot \<longleftrightarrow>
     (case registered_parallel_executor slot of
        None \<Rightarrow> True
      | Some ex \<Rightarrow> honours_contract (execute ex))"

text \<open>The registered scheduler, if any, does not itself unwind.\<close>

definition scheduler_returns :: "'c raw_ptr \<Rightarrow> bool" where
  "scheduler_returns slot \<longleftrightarrow>
     (case registered_parallel_executor slot of None \<Rightarrow> True
      | Some ex \<Rightarrow> (\<forall>n task c. fst (execute ex n task c) = None))"

section \<open>Lemmas\<close>

lemma sequentially_honours: "honours_contract sequentially"
  unfolding honours_contract_def sequentially_def
  by (metis distinct_usize_range fst_conv order_refl set_usize_range snd_conv)

interpretation seq: parallel_executor sequentially
  by unfold_locales (rule sequentially_honours)

lemma execute_eta: "execute (Executor f) = f"
  by (intro ext) simp

text \<open>A registered shim is the scheduler itself, so it honours the contract when that does.\<close>

lemma register_sound:
  "honours_contract run \<Longrightarrow> slot_sound (register_parallel_executor run slot)"
  by (simp add: slot_sound_def slot_defs execute_eta)

lemma clear_sound: "slot_sound (clear_parallel_executor slot)"
  by (simp add: slot_sound_def slot_defs)

section \<open>Properties\<close>

text \<open>The history of a process as far as the slot is concerned.\<close>

datatype 'c slot_op = Register "'c executor_fn" | Clear

fun slot_step :: "'c slot_op \<Rightarrow> 'c raw_ptr \<Rightarrow> 'c raw_ptr" where
  "slot_step (Register run) slot = register_parallel_executor run slot"
| "slot_step Clear slot = clear_parallel_executor slot"

definition slot_after :: "'c slot_op list \<Rightarrow> 'c raw_ptr" where
  "slot_after ops = fold slot_step ops PARALLEL_EXECUTOR"

lemma slot_after_snoc: "slot_after (ops @ [op]) = slot_step op (slot_after ops)"
  by (simp add: slot_after_def)

text \<open>After any history of registrations and clears, a driver call finds exactly the
  scheduler of the last registration, and none when nothing was registered since the last
  clear; if every registered scheduler honours the contract, so does the one a call
  finds.\<close>

theorem slot_history:
  assumes "\<And>run. Register run \<in> set ops \<Longrightarrow> honours_contract run"
  shows "slot_sound (slot_after ops)
    \<and> (case registered_parallel_executor (slot_after ops) of
         None \<Rightarrow> ops = [] \<or> last ops = Clear
       | Some ex \<Rightarrow> ops \<noteq> [] \<and> last ops = Register (execute ex))"
proof (cases ops rule: rev_cases)
  case Nil
  then show ?thesis by (simp add: slot_after_def slot_sound_def slot_defs)
next
  case (snoc ops' op)
  show ?thesis
  proof (cases op)
    case (Register run)
    then have "honours_contract run" using assms snoc by simp
    then show ?thesis using snoc Register register_sound [of run]
      by (simp add: slot_after_snoc) (simp add: slot_defs execute_eta)
  next
    case Clear
    then show ?thesis using snoc clear_sound by (simp add: slot_after_snoc) (simp add: slot_defs)
  qed
qed

theorem slot_history_witness:
  "honours_contract sequentially
   \<and> slot_sound (slot_after [Clear, Register (sequentially :: nat executor_fn)])
   \<and> (case registered_parallel_executor (slot_after [Clear, Register (sequentially :: nat executor_fn)]) of
        None \<Rightarrow> False
      | Some ex \<Rightarrow> execute ex = sequentially)"
proof -
  have h: "Register run \<in> set [Clear, Register (sequentially :: nat executor_fn)] \<Longrightarrow> honours_contract run"
    for run using sequentially_honours by auto
  show ?thesis using slot_history [of "[Clear, Register (sequentially :: nat executor_fn)]", OF h]
    sequentially_honours by (auto split: option.splits)
qed

end
