(* ===== verification/Driver.thy ===== *)
theory Driver
  imports Executor
begin

text \<open>
  The engine behind every partition driver, \<^verbatim>\<open>src/sync/scoped/partition/driver_core.rs\<close>:
  run \<open>num_chunks\<close> tasks, collect their results in index order, re-raise a panic.

  A task is a function of its index and of the memory the tasks share; it returns a value
  or panics, and leaves a new memory. The out-buffer of \<open>MaybeUninit\<close> slots is a list of
  options, \<open>None\<close> while a slot is uninitialised. What Rust calls undefined behaviour (an
  out-of-range slot written, an uninitialised slot handed out as a value) is a result of
  its own, so that its absence is a theorem. Every value the driver drops is recorded, so
  that leaks and double drops are visible.
\<close>

section \<open>The panic mutex\<close>

record panic_mutex =
  pm_poisoned :: bool
  pm_data :: "payload option"

definition mutex_new :: panic_mutex where
  "mutex_new = \<lparr>pm_poisoned = False, pm_data = None\<rparr>"

text \<open>\<open>Mutex::lock\<close> and \<open>Mutex::into_inner\<close> return \<open>Err\<close> on a poisoned mutex, with the data
  inside the error (\<open>Inl\<close>); \<open>PoisonError::into_inner\<close> takes it out.\<close>

definition mutex_lock :: "panic_mutex \<Rightarrow> payload option + payload option" where
  "mutex_lock m = (if pm_poisoned m then Inl (pm_data m) else Inr (pm_data m))"

definition lock_panic_payload :: "panic_mutex \<Rightarrow> payload option" where
  "lock_panic_payload m = (case mutex_lock m of Inr g \<Rightarrow> g | Inl poisoned \<Rightarrow> poisoned)"

definition take_panic_payload :: "panic_mutex \<Rightarrow> payload option" where
  "take_panic_payload m = (case mutex_lock m of Inr d \<Rightarrow> d | Inl poisoned \<Rightarrow> poisoned)"

section \<open>The registered-executor path\<close>

type_synonym ('m, 'r) runner = "usize \<Rightarrow> 'm \<Rightarrow> 'r outcome \<times> 'm"

record ('m, 'r) task_context =
  tc_mem :: 'm
  tc_out :: "'r option list"
  tc_successful :: "bool list"
  tc_panic :: panic_mutex
  tc_ub :: bool

definition task_wrapper :: "('m, 'r) runner \<Rightarrow> usize \<Rightarrow> ('m, 'r) task_context \<Rightarrow> ('m, 'r) task_context" where
  "task_wrapper run index ctx =
     (let (result, mem') = run index (tc_mem ctx); ctx = ctx\<lparr>tc_mem := mem'\<rparr> in
      case result of
        Done val \<Rightarrow>
          if unat index < length (tc_out ctx)
          then ctx\<lparr>tc_out := (tc_out ctx)[unat index := Some val],
                   tc_successful := (tc_successful ctx)[unat index := True]\<rparr>
          else ctx\<lparr>tc_ub := True\<rparr>
      | Panicked payload \<Rightarrow>
          (case lock_panic_payload (tc_panic ctx) of
             None \<Rightarrow> ctx\<lparr>tc_panic := (tc_panic ctx)\<lparr>pm_data := Some payload\<rparr>\<rparr>
           | Some _ \<Rightarrow> ctx))"

text \<open>The values dropped in place when the slots flagged successful are dropped.\<close>

definition drop_successful :: "usize \<Rightarrow> bool list \<Rightarrow> 'r option list \<Rightarrow> 'r list" where
  "drop_successful num_chunks successful out =
     concat (map (\<lambda>i. if successful ! i
                      then (case out ! i of Some v \<Rightarrow> [v] | None \<Rightarrow> [])
                      else []) [0..<unat num_chunks])"

record executor_drop_guard =
  dg_num_chunks :: usize
  dg_active :: bool

definition drop_guard :: "executor_drop_guard \<Rightarrow> bool list \<Rightarrow> 'r option list \<Rightarrow> 'r list" where
  "drop_guard g successful out =
     (if dg_active g then drop_successful (dg_num_chunks g) successful out else [])"

text \<open>\<open>Vec::from_raw_parts\<close> over the out-buffer: \<open>None\<close> where a slot is uninitialised.\<close>

fun assume_init :: "'r option list \<Rightarrow> 'r list option" where
  "assume_init [] = Some []"
| "assume_init (None # out) = None"
| "assume_init (Some v # out) = map_option (\<lambda>vs. v # vs) (assume_init out)"

datatype 'r exit = Returned "'r list" | Unwound payload | UndefinedBehaviour

type_synonym ('m, 'r) driven = "'r exit \<times> 'm \<times> 'r list"

definition drive_executor ::
    "('m, 'r) task_context executor \<Rightarrow> usize \<Rightarrow> ('m, 'r) runner \<Rightarrow> 'm \<Rightarrow> ('m, 'r) driven" where
  "drive_executor executor num_chunks run mem =
     (let ctx = \<lparr>tc_mem = mem, tc_out = replicate (unat num_chunks) None,
                 tc_successful = replicate (unat num_chunks) False,
                 tc_panic = mutex_new, tc_ub = False\<rparr>;
          guard = \<lparr>dg_num_chunks = num_chunks, dg_active = True\<rparr>;
          (unwinding, ctx) = execute executor num_chunks (task_wrapper run) ctx;
          out = tc_out ctx; successful = tc_successful ctx
      in if tc_ub ctx then (UndefinedBehaviour, tc_mem ctx, [])
         else case unwinding of
           Some payload \<Rightarrow> (Unwound payload, tc_mem ctx, drop_guard guard successful out)
         | None \<Rightarrow>
             let guard = guard\<lparr>dg_active := False\<rparr> in
             (case take_panic_payload (tc_panic ctx) of
                Some payload \<Rightarrow>
                  (Unwound payload, tc_mem ctx,
                   drop_successful num_chunks successful out @ drop_guard guard successful out)
              | None \<Rightarrow>
                  (case assume_init out of
                     Some vs \<Rightarrow> (Returned vs, tc_mem ctx, drop_guard guard successful out)
                   | None \<Rightarrow> (UndefinedBehaviour, tc_mem ctx, []))))"

section \<open>The scoped-thread path\<close>

text \<open>
  \<open>sched\<close> is the order in which the tasks take effect: task \<open>num_chunks - 1\<close> runs inline, the
  others on scoped threads, and \<open>std::thread::scope\<close> returns only when all have finished.
\<close>

fun exec_order :: "('m, 'r) runner \<Rightarrow> usize list \<Rightarrow> 'm \<Rightarrow> (usize \<times> 'r outcome) list \<times> 'm" where
  "exec_order run [] mem = ([], mem)"
| "exec_order run (i # is) mem =
     (let (r, mem') = run i mem; (rs, mem'') = exec_order run is mem' in ((i, r) # rs, mem''))"

text \<open>The values held by thread results that are dropped unjoined.\<close>

fun drop_results :: "'r outcome list \<Rightarrow> 'r list" where
  "drop_results [] = []"
| "drop_results (Done v # hs) = v # drop_results hs"
| "drop_results (Panicked p # hs) = drop_results hs"

fun join_handles :: "'r outcome list \<Rightarrow> 'r list \<Rightarrow> 'r \<Rightarrow> 'r exit \<times> 'r list" where
  "join_handles [] results last_value = (Returned (results @ [last_value]), [])"
| "join_handles (Done value # hs) results last_value =
     join_handles hs (results @ [value]) last_value"
| "join_handles (Panicked payload # hs) results last_value =
     (Unwound payload, results @ [last_value] @ drop_results hs)"

definition drive_scoped ::
    "usize list \<Rightarrow> usize \<Rightarrow> ('m, 'r) runner \<Rightarrow> 'm \<Rightarrow> ('m, 'r) driven" where
  "drive_scoped sched num_chunks run mem =
     (let (rs, mem') = exec_order run sched mem;
          handles = map (\<lambda>i. the (map_of rs i)) (usize_range (num_chunks - 1))
      in case the (map_of rs (num_chunks - 1)) of
           Panicked payload \<Rightarrow> (Unwound payload, mem', drop_results handles)
         | Done last_value \<Rightarrow>
             (let (ex, dropped) = join_handles handles [] last_value in (ex, mem', dropped)))"

section \<open>\<open>drive\<close>\<close>

definition drive ::
    "('m, 'r) task_context raw_ptr \<Rightarrow> usize list \<Rightarrow> usize \<Rightarrow> ('m, 'r) runner \<Rightarrow> 'm \<Rightarrow> ('m, 'r) driven" where
  "drive slot sched num_chunks run mem =
     (case registered_parallel_executor slot of
        Some executor \<Rightarrow> drive_executor executor num_chunks run mem
      | None \<Rightarrow>
          if num_chunks = 1
          then (case run 0 mem of
                  (Done v, mem') \<Rightarrow> (Returned [v], mem', [])
                | (Panicked payload, mem') \<Rightarrow> (Unwound payload, mem', []))
          else drive_scoped sched num_chunks run mem)"


section \<open>What a run of the tasks in some order leaves behind\<close>

fun first_payload :: "'r outcome list \<Rightarrow> payload option" where
  "first_payload [] = None"
| "first_payload (Panicked p # rs) = Some p"
| "first_payload (Done v # rs) = first_payload rs"

fun store_result :: "usize \<times> 'r outcome \<Rightarrow> 'r option list \<Rightarrow> 'r option list" where
  "store_result (i, Done v) out = out[unat i := Some v]"
| "store_result (i, Panicked p) out = out"

fun mark_result :: "usize \<times> 'r outcome \<Rightarrow> bool list \<Rightarrow> bool list" where
  "mark_result (i, Done v) s = s[unat i := True]"
| "mark_result (i, Panicked p) s = s"

definition slot_value :: "(usize \<times> 'r outcome) list \<Rightarrow> usize \<Rightarrow> 'r option" where
  "slot_value rs i = Option.bind (map_of rs i) the_done"

lemma lock_panic_payload_data [simp]: "lock_panic_payload m = pm_data m"
  by (simp add: lock_panic_payload_def mutex_lock_def)

lemma take_panic_payload_data [simp]: "take_panic_payload m = pm_data m"
  by (simp add: take_panic_payload_def mutex_lock_def)

lemma exec_order_keys: "map fst (fst (exec_order run order mem)) = order"
  by (induction order arbitrary: mem) (simp_all add: Let_def case_prod_beta)

lemma length_store_result [simp]: "length (store_result ir out) = length out"
  by (cases "(ir, out)" rule: store_result.cases) auto

lemma length_mark_result [simp]: "length (mark_result ir s) = length s"
  by (cases "(ir, s)" rule: mark_result.cases) auto

lemma length_store [simp]: "length (fold store_result rs out) = length out"
  by (induction rs arbitrary: out) auto

lemma length_mark [simp]: "length (fold mark_result rs s) = length s"
  by (induction rs arbitrary: s) auto

lemma task_wrapper_eq:
  assumes "run i (tc_mem ctx) = (r, mem')" "unat i < length (tc_out ctx)"
  shows "task_wrapper run i ctx =
    ctx\<lparr>tc_mem := mem', tc_out := store_result (i, r) (tc_out ctx),
      tc_successful := mark_result (i, r) (tc_successful ctx),
      tc_panic := (tc_panic ctx)\<lparr>pm_data :=
        (case pm_data (tc_panic ctx) of Some p \<Rightarrow> Some p | None \<Rightarrow> the_payload r)\<rparr>\<rparr>"
  using assms by (cases r) (auto simp: task_wrapper_def Let_def split: option.splits)

lemma first_payload_Cons:
  "first_payload (r # rs) = (case the_payload r of Some p \<Rightarrow> Some p | None \<Rightarrow> first_payload rs)"
  by (cases r) auto

lemma fold_task_wrapper:
  assumes "exec_order run order (tc_mem ctx) = (rs, mem')"
    and "\<And>i. i \<in> set order \<Longrightarrow> unat i < length (tc_out ctx)"
  shows "fold (task_wrapper run) order ctx =
    ctx\<lparr>tc_mem := mem', tc_out := fold store_result rs (tc_out ctx),
      tc_successful := fold mark_result rs (tc_successful ctx),
      tc_panic := (tc_panic ctx)\<lparr>pm_data :=
        (case pm_data (tc_panic ctx) of Some p \<Rightarrow> Some p | None \<Rightarrow> first_payload (map snd rs))\<rparr>\<rparr>"
  using assms
proof (induction order arbitrary: ctx rs mem')
  case Nil
  then show ?case by (cases "pm_data (tc_panic ctx)") simp_all
next
  case (Cons i order)
  obtain r m1 where r: "run i (tc_mem ctx) = (r, m1)" by fastforce
  obtain rs1 where rs1: "exec_order run order m1 = (rs1, mem')" "rs = (i, r) # rs1"
    using Cons.prems(1) r by (auto simp: Let_def split: prod.splits)
  have i: "unat i < length (tc_out ctx)" using Cons.prems(2) by simp
  note step = task_wrapper_eq [of run, OF r i]
  show ?case
    using Cons.IH [of "task_wrapper run i ctx" rs1 mem'] rs1(1) Cons.prems(2)
    by (simp add: step rs1(2) first_payload_Cons split: option.split)
qed

lemma slot_value_Cons:
  "slot_value ((j, r) # rs) i = (if i = j then the_done r else slot_value rs i)"
  by (simp add: slot_value_def)

lemma slot_value_None: "i \<notin> fst ` set rs \<Longrightarrow> slot_value rs i = None"
  by (simp add: slot_value_def map_of_eq_None_iff [THEN iffD2])

lemma nth_store:
  assumes "distinct (map fst rs)" "unat i < length out"
  shows "fold store_result rs out ! unat i =
    (case slot_value rs i of Some v \<Rightarrow> Some v | None \<Rightarrow> out ! unat i)"
  using assms
proof (induction rs arbitrary: out)
  case (Cons ir rs)
  obtain j r where [simp]: "ir = (j, r)" by fastforce
  have "store_result (j, r) out ! unat i =
      (if i = j then case the_done r of Some v \<Rightarrow> Some v | None \<Rightarrow> out ! unat i else out ! unat i)"
    using Cons.prems(2) by (cases r; cases "i = j") (simp_all add: usize_eq_iff)
  then show ?case
    using Cons.IH [of "store_result (j, r) out"] Cons.prems slot_value_None [of j rs]
    by (cases "i = j") (simp_all add: slot_value_Cons split: option.split)
qed (simp add: slot_value_def)

lemma nth_mark:
  assumes "distinct (map fst rs)" "unat i < length s"
  shows "fold mark_result rs s ! unat i = (slot_value rs i \<noteq> None \<or> s ! unat i)"
  using assms
proof (induction rs arbitrary: s)
  case (Cons ir rs)
  obtain j r where [simp]: "ir = (j, r)" by fastforce
  have "mark_result (j, r) s ! unat i = ((i = j \<and> the_done r \<noteq> None) \<or> s ! unat i)"
    using Cons.prems(2) by (cases r; cases "i = j") (simp_all add: usize_eq_iff)
  then show ?case
    using Cons.IH [of "mark_result (j, r) s"] Cons.prems slot_value_None [of j rs]
    by (auto simp: slot_value_Cons)
qed (simp add: slot_value_def)

lemma assume_init_Some: "assume_init out = Some vs \<longleftrightarrow> out = map Some vs"
  by (induction out arbitrary: vs rule: assume_init.induct) auto

lemma store_replicate:
  assumes "distinct (map fst rs)"
  shows "fold store_result rs (replicate (unat n) None) = map (slot_value rs) (usize_range n)"
proof (rule nth_equalityI)
  fix k assume k: "k < length (fold store_result rs (replicate (unat n) None))"
  then have u: "unat (of_nat k :: usize) = k" by (auto intro: unat_of_nat_below [of _ n])
  show "fold store_result rs (replicate (unat n) None) ! k = map (slot_value rs) (usize_range n) ! k"
    using nth_store [OF assms, of "of_nat k" "replicate (unat n) None"] k u
    by (simp split: option.splits)
qed simp

lemma mark_replicate:
  assumes "distinct (map fst rs)"
  shows "fold mark_result rs (replicate (unat n) False) =
    map (\<lambda>i. slot_value rs i \<noteq> None) (usize_range n)"
proof (rule nth_equalityI)
  fix k assume k: "k < length (fold mark_result rs (replicate (unat n) False))"
  then have u: "unat (of_nat k :: usize) = k" by (auto intro: unat_of_nat_below [of _ n])
  show "fold mark_result rs (replicate (unat n) False) ! k =
      map (\<lambda>i. slot_value rs i \<noteq> None) (usize_range n) ! k"
    using nth_mark [OF assms, of "of_nat k" "replicate (unat n) False"] k u by simp
qed simp


text \<open>Dropping the flagged slots drops each produced value once.\<close>

lemma mset_concat_update:
  assumes "distinct xs" "i \<in> set xs" "f i = []"
  shows "mset (concat (map (f(i := v)) xs)) = mset v + mset (concat (map f xs))"
  using assms
proof (induction xs)
  case (Cons x xs)
  show ?case
  proof (cases "x = i")
    case True
    then have "map (f(i := v)) xs = map f xs" using Cons.prems(1) by (auto intro: map_cong)
    then have "concat (map (f(i := v)) (x # xs)) = v @ concat (map f xs)"
      using True by (simp only: list.map concat.simps fun_upd_same)
    then show ?thesis using True Cons.prems(3) by (simp del: fun_upd_apply)
  next
    case False
    then show ?thesis using Cons by (simp add: ac_simps)
  qed
qed simp

lemma drop_successful_eq:
  "drop_successful n (map (\<lambda>i. slot_value rs i \<noteq> None) (usize_range n)) (map (slot_value rs) (usize_range n))
    = concat (map (\<lambda>i. case slot_value rs i of Some v \<Rightarrow> [v] | None \<Rightarrow> []) (usize_range n))"
proof -
  have "map (\<lambda>k. if map (\<lambda>i. slot_value rs i \<noteq> None) (usize_range n) ! k
        then case map (slot_value rs) (usize_range n) ! k of Some v \<Rightarrow> [v] | None \<Rightarrow> [] else [])
      [0..<unat n] = map (\<lambda>i. case slot_value rs i of Some v \<Rightarrow> [v] | None \<Rightarrow> []) (usize_range n)"
    by (rule nth_equalityI) (auto split: option.splits)
  then show ?thesis by (simp only: drop_successful_def)
qed

lemma mset_slot_values:
  assumes "distinct (map fst rs)" "fst ` set rs \<subseteq> {i. i < n}"
  shows "mset (concat (map (\<lambda>i. case slot_value rs i of Some v \<Rightarrow> [v] | None \<Rightarrow> []) (usize_range n)))
    = mset (drop_results (map snd rs))"
  using assms
proof (induction rs)
  case Nil
  then show ?case by (simp add: slot_value_def)
next
  case (Cons ir rs)
  obtain j r where [simp]: "ir = (j, r)" by fastforce
  let ?f = "\<lambda>i. case slot_value rs i of Some v \<Rightarrow> [v] | None \<Rightarrow> []"
  let ?v = "case the_done r of Some v \<Rightarrow> [v] | None \<Rightarrow> []"
  have "(\<lambda>i. case slot_value (ir # rs) i of Some v \<Rightarrow> [v] | None \<Rightarrow> []) = ?f(j := ?v)"
    by (auto simp: slot_value_Cons)
  moreover have "?f j = []" using Cons.prems(1) slot_value_None [of j rs] by simp
  ultimately have "mset (concat (map (\<lambda>i. case slot_value (ir # rs) i of Some v \<Rightarrow> [v] | None \<Rightarrow> []) (usize_range n)))
      = mset ?v + mset (concat (map ?f (usize_range n)))"
    using mset_concat_update [of "usize_range n" j ?f ?v] Cons.prems(2) by simp
  then show ?case using Cons by (cases r) auto
qed

lemma first_payload_None: "first_payload rs = None \<longleftrightarrow> list_all is_done rs"
  by (induction rs rule: first_payload.induct) auto

lemma first_payload_Some: "first_payload rs = Some p \<Longrightarrow> Panicked p \<in> set rs"
  by (induction rs rule: first_payload.induct) auto

text \<open>The executor path, in terms of the order the scheduler chose.\<close>

lemma drive_executor_eq:
  assumes "honours_contract (execute ex)"
  obtains order rs mem' unw where "distinct order" "set order \<subseteq> {i. i < n}"
    "exec_order run order mem = (rs, mem')"
    "unw = None \<longrightarrow> set order = {i. i < n}"
    "drive_executor ex n run mem =
      (let dropped = concat (map (\<lambda>i. case slot_value rs i of Some v \<Rightarrow> [v] | None \<Rightarrow> []) (usize_range n))
       in case unw of Some p \<Rightarrow> (Unwound p, mem', dropped)
        | None \<Rightarrow> (case first_payload (map snd rs) of Some p \<Rightarrow> (Unwound p, mem', dropped)
           | None \<Rightarrow> (case assume_init (map (slot_value rs) (usize_range n)) of
               Some vs \<Rightarrow> (Returned vs, mem', []) | None \<Rightarrow> (UndefinedBehaviour, mem', []))))"
    "unw \<in> range (\<lambda>c. fst (execute ex n (task_wrapper run) c))"
proof -
  let ?c = "\<lparr>tc_mem = mem, tc_out = replicate (unat n) None,
    tc_successful = replicate (unat n) False, tc_panic = mutex_new, tc_ub = False\<rparr>"
  obtain order where order: "distinct order" "set order \<subseteq> {i. i < n}"
    "snd (execute ex n (task_wrapper run) ?c) = fold (task_wrapper run) order ?c"
    "fst (execute ex n (task_wrapper run) ?c) = None \<longrightarrow> set order = {i. i < n}"
    using assms unfolding honours_contract_def by blast
  obtain rs mem' where e: "exec_order run order mem = (rs, mem')" by fastforce
  have keys: "map fst rs = order" using exec_order_keys [of run order mem] e by simp
  obtain unw c' where u: "execute ex n (task_wrapper run) ?c = (unw, c')" by fastforce
  have c': "c' = \<lparr>tc_mem = mem', tc_out = map (slot_value rs) (usize_range n),
      tc_successful = map (\<lambda>i. slot_value rs i \<noteq> None) (usize_range n),
      tc_panic = \<lparr>pm_poisoned = False, pm_data = first_payload (map snd rs)\<rparr>, tc_ub = False\<rparr>"
    using order(2,3) u fold_task_wrapper [of run order ?c rs mem'] e
      store_replicate [of rs n] mark_replicate [of rs n] keys order(1)
    by (auto simp: mutex_new_def word_less_nat_alt)
  show thesis
  proof (rule that [of order rs mem' unw])
    show "unw \<in> range (\<lambda>c. fst (execute ex n (task_wrapper run) c))"
      using u by (metis fst_conv rangeI)
    show "drive_executor ex n run mem =
      (let dropped = concat (map (\<lambda>i. case slot_value rs i of Some v \<Rightarrow> [v] | None \<Rightarrow> []) (usize_range n))
       in case unw of Some p \<Rightarrow> (Unwound p, mem', dropped)
        | None \<Rightarrow> (case first_payload (map snd rs) of Some p \<Rightarrow> (Unwound p, mem', dropped)
           | None \<Rightarrow> (case assume_init (map (slot_value rs) (usize_range n)) of
               Some vs \<Rightarrow> (Returned vs, mem', []) | None \<Rightarrow> (UndefinedBehaviour, mem', []))))"
      using u by (simp add: drive_executor_def Let_def c' drop_guard_def drop_successful_eq
          split: option.split del: not_None_eq)
  qed (use order e u in auto)
qed


section \<open>The scoped-thread path\<close>

lemma join_handles_eq:
  "join_handles hs results v =
     (case first_payload hs of
        None \<Rightarrow> (Returned (results @ drop_results hs @ [v]), [])
      | Some p \<Rightarrow> (Unwound p, snd (join_handles hs results v)))"
  by (induction hs results v rule: join_handles.induct) (auto split: option.splits)

lemma join_handles_dropped:
  "first_payload hs \<noteq> None \<Longrightarrow>
     mset (snd (join_handles hs results v)) = mset results + mset (drop_results hs) + {#v#}"
  by (induction hs results v rule: join_handles.induct) auto

lemma usize_range_snoc:
  assumes "1 \<le> unat n"
  shows "usize_range n = usize_range (n - 1) @ [n - 1]"
proof -
  have u: "unat (n - 1) = unat n - 1" using assms by (simp add: unat_sub_usize)
  have "[0..<unat n] = [0..<unat n - 1] @ [unat n - 1]"
    using assms by (metis Suc_diff_1 Suc_le_eq upt_Suc_append One_nat_def le0)
  moreover have "(of_nat (unat n - 1) :: usize) = n - 1"
    using u by (metis word_of_nat_eq_iff unat_eq_nat_uint u unat_of_nat_below usize_eq_iff
        unat_usize_bound unat_of_nat_usize)
  ultimately show ?thesis by (simp add: usize_range_def u)
qed

lemma drop_results_done: "list_all is_done hs \<Longrightarrow> map Done (drop_results hs) = hs"
  by (induction hs rule: drop_results.induct) auto

lemma map_of_schedule:
  assumes "exec_order run sched mem = (rs, mem')" "schedule_of n sched" "i < n"
  obtains r where "map_of rs i = Some r" "(i, r) \<in> set rs"
proof -
  have "map fst rs = sched" using exec_order_keys [of run sched mem] assms(1) by simp
  then have "i \<in> fst ` set rs" using schedule_ofD(2) [OF assms(2)] assms(3)
    by (metis list.set_map mem_Collect_eq)
  then show thesis using that map_of_SomeD [of rs i]
    by (metis (no_types, opaque_lifting) domD dom_map_of_conv_image_fst)
qed

text \<open>In schedule order or in index order, the produced values are the same.\<close>

lemma drop_results_schedule:
  assumes "exec_order run sched mem = (rs, mem')" "schedule_of n sched"
  shows "mset (drop_results (map (\<lambda>i. the (map_of rs i)) (usize_range n))) = mset (drop_results (map snd rs))"
proof -
  have keys: "map fst rs = sched" using exec_order_keys [of run sched mem] assms(1) by simp
  have d: "distinct (map fst rs)" using keys schedule_ofD(1) [OF assms(2)] by simp
  have "drop_results (map (\<lambda>i. the (map_of rs i)) is) =
      concat (map (\<lambda>i. case slot_value rs i of Some v \<Rightarrow> [v] | None \<Rightarrow> []) is)"
    if "set is \<subseteq> {i. i < n}" for "is"
    using that
  proof (induction "is")
    case (Cons i "is")
    then have "i < n" by simp
    obtain r where "map_of rs i = Some r" by (rule map_of_schedule [OF assms \<open>i < n\<close>])
    then show ?case using Cons by (cases r) (auto simp: slot_value_def)
  qed simp
  then have "drop_results (map (\<lambda>i. the (map_of rs i)) (usize_range n)) =
      concat (map (\<lambda>i. case slot_value rs i of Some v \<Rightarrow> [v] | None \<Rightarrow> []) (usize_range n))" by simp
  moreover have "fst ` set rs \<subseteq> {i. i < n}"
    using keys schedule_ofD(2) [OF assms(2)] by (metis list.set_map order_refl)
  ultimately show ?thesis using mset_slot_values [OF d] by simp
qed


section \<open>The specification of \<open>drive\<close>\<close>

text \<open>
  \<open>drive_spec slot n run mem result\<close>: the tasks took effect one after another in some
  order, no index twice, and the memory is what they left. On a normal return every index
  ran, the results stand in index order and nothing was dropped. On unwinding every value
  a task produced was dropped exactly once, and the payload is that of a task that
  panicked (then every index ran) or the scheduler's own.
\<close>

definition drive_spec ::
    "('m, 'r) task_context raw_ptr \<Rightarrow> usize \<Rightarrow> ('m, 'r) runner \<Rightarrow> 'm \<Rightarrow> ('m, 'r) driven \<Rightarrow> bool" where
  "drive_spec slot n run mem result \<longleftrightarrow>
     (\<exists>order rs mem'. distinct order \<and> set order \<subseteq> {i. i < n}
        \<and> exec_order run order mem = (rs, mem')
        \<and> (case result of (ex, m, dropped) \<Rightarrow> m = mem' \<and>
             (case ex of
                Returned vs \<Rightarrow> set order = {i. i < n} \<and> dropped = []
                  \<and> map (map_of rs) (usize_range n) = map (Some \<circ> Done) vs
              | Unwound p \<Rightarrow> mset dropped = mset (drop_results (map snd rs))
                  \<and> (Panicked p \<in> snd ` set rs \<and> set order = {i. i < n}
                     \<or> (\<exists>executor c. registered_parallel_executor slot = Some executor
                          \<and> fst (execute executor n (task_wrapper run) c) = Some p))
              | UndefinedBehaviour \<Rightarrow> False)))"

lemma map_slot_value_done:
  assumes "map fst rs = order" "distinct order" "set order = {i. i < n}" "list_all is_done (map snd rs)"
  obtains vs where "map (slot_value rs) (usize_range n) = map Some vs"
    "map (map_of rs) (usize_range n) = map (Some \<circ> Done) vs"
proof -
  have v: "\<exists>v. map_of rs i = Some (Done v)" if "i < n" for i
  proof -
    have "i \<in> fst ` set rs" using assms(1,3) that by (metis list.set_map mem_Collect_eq)
    then obtain r where r: "map_of rs i = Some r"
      by (metis (no_types, opaque_lifting) domD dom_map_of_conv_image_fst)
    then have "is_done r" using assms(4) map_of_SomeD [OF r] by (force simp: list_all_iff)
    then show ?thesis using r by (auto simp: is_done_iff)
  qed
  let ?vs = "map (\<lambda>i. the (slot_value rs i)) (usize_range n)"
  show thesis
  proof (rule that [of ?vs])
    show "map (slot_value rs) (usize_range n) = map Some ?vs"
      using v by (fastforce simp: slot_value_def)
    show "map (map_of rs) (usize_range n) = map (Some \<circ> Done) ?vs"
      using v by (fastforce simp: slot_value_def)
  qed
qed

lemma drive_executor_spec:
  assumes "registered_parallel_executor slot = Some ex" "honours_contract (execute ex)"
  shows "drive_spec slot n run mem (drive_executor ex n run mem)"
proof -
  obtain order rs mem' unw where o: "distinct order" "set order \<subseteq> {i. i < n}"
    "exec_order run order mem = (rs, mem')" "unw = None \<longrightarrow> set order = {i. i < n}"
    and d: "drive_executor ex n run mem =
      (let dropped = concat (map (\<lambda>i. case slot_value rs i of Some v \<Rightarrow> [v] | None \<Rightarrow> []) (usize_range n))
       in case unw of Some p \<Rightarrow> (Unwound p, mem', dropped)
        | None \<Rightarrow> (case first_payload (map snd rs) of Some p \<Rightarrow> (Unwound p, mem', dropped)
           | None \<Rightarrow> (case assume_init (map (slot_value rs) (usize_range n)) of
               Some vs \<Rightarrow> (Returned vs, mem', []) | None \<Rightarrow> (UndefinedBehaviour, mem', []))))"
    and u: "unw \<in> range (\<lambda>c. fst (execute ex n (task_wrapper run) c))"
    by (rule drive_executor_eq [OF assms(2), where n = n and run = run and mem = mem])
  have keys: "map fst rs = order" using exec_order_keys [of run order mem] o(3) by simp
  have dropped: "mset (concat (map (\<lambda>i. case slot_value rs i of Some v \<Rightarrow> [v] | None \<Rightarrow> []) (usize_range n)))
      = mset (drop_results (map snd rs))"
    using keys o(1,2) by (intro mset_slot_values) (auto simp flip: set_map)
  show ?thesis
  proof (cases unw)
    case (Some p)
    then have "\<exists>c. fst (execute ex n (task_wrapper run) c) = Some p" using u by auto
    then show ?thesis using Some d dropped o(1-3) assms(1) unfolding drive_spec_def by auto
  next
    case None
    then have all: "set order = {i. i < n}" using o(4) by blast
    show ?thesis
    proof (cases "first_payload (map snd rs)")
      case (Some p)
      then have "Panicked p \<in> snd ` set rs" using first_payload_Some by fastforce
      then show ?thesis using Some None d dropped o(1-3) all unfolding drive_spec_def by auto
    next
      case none: None
      obtain vs where "map (slot_value rs) (usize_range n) = map Some vs"
        "map (map_of rs) (usize_range n) = map (Some \<circ> Done) vs"
        using map_slot_value_done [OF keys o(1) all] none by (auto simp: first_payload_None)
      then show ?thesis using none None d o(1-3) all assume_init_Some [of "map Some vs" vs]
        unfolding drive_spec_def by auto
    qed
  qed
qed


text \<open>The values of the joined handles and of the inline task, in index order.\<close>

lemma join_all:
  assumes "list_all is_done hs"
  shows "join_handles hs [] v = (Returned (drop_results hs @ [v]), [])"
  using assms join_handles_eq [of hs "[]" v] by (simp add: first_payload_None [THEN iffD2])

lemma list_all_is_doneD: "list_all is_done hs \<Longrightarrow> hs = map Done (drop_results hs)"
  by (simp add: drop_results_done)

lemma drop_results_append: "drop_results (xs @ ys) = drop_results xs @ drop_results ys"
  by (induction xs rule: drop_results.induct) auto

lemma drive_scoped_spec:
  assumes "1 \<le> unat n" "schedule_of n sched"
  shows "drive_spec slot n run mem (drive_scoped sched n run mem)"
proof -
  obtain rs mem' where e: "exec_order run sched mem = (rs, mem')" by fastforce
  define res where "res = (\<lambda>i. the (map_of rs i))"
  define hs where "hs = map res (usize_range (n - 1))"
  have res: "map_of rs i = Some (res i) \<and> (i, res i) \<in> set rs" if "i < n" for i
    using map_of_schedule [OF e assms(2) that] unfolding res_def by fastforce
  have all: "map res (usize_range n) = hs @ [res (n - 1)]"
    by (simp add: hs_def usize_range_snoc [OF assms(1)])
  have dropped: "mset (drop_results (map snd rs)) = mset (drop_results hs) + mset (drop_results [res (n - 1)])"
    using drop_results_schedule [OF e assms(2)] all
    by (simp add: res_def [symmetric] drop_results_append del: drop_results.simps)
  have mem: "r \<in> snd ` set rs" if "r \<in> set (hs @ [res (n - 1)])" for r
  proof -
    have "r \<in> set (map res (usize_range n))" using that by (simp only: all)
    then show ?thesis using res by force
  qed
  note order = schedule_ofD [OF assms(2)]
  have d: "drive_scoped sched n run mem = (case res (n - 1) of
       Panicked payload \<Rightarrow> (Unwound payload, mem', drop_results hs)
     | Done v \<Rightarrow> (fst (join_handles hs [] v), mem', snd (join_handles hs [] v)))"
    unfolding drive_scoped_def e by (simp add: hs_def res_def Let_def case_prod_beta split: outcome.split)
  have unwound: "drive_spec slot n run mem (Unwound p, mem', vs)"
    if "Panicked p \<in> set (hs @ [res (n - 1)])" "mset vs = mset (drop_results (map snd rs))" for p vs
    unfolding drive_spec_def using order e mem [OF that(1)] that(2) by auto
  show ?thesis
  proof (cases "res (n - 1)")
    case (Panicked p)
    then show ?thesis using d unwound [of p "drop_results hs"] dropped by simp
  next
    case (Done v)
    show ?thesis
    proof (cases "first_payload hs")
      case None
      then have hs: "hs = map Done (drop_results hs)"
        by (simp add: first_payload_None list_all_is_doneD)
      have "map (map_of rs) (usize_range n) = map Some (map res (usize_range n))" using res by simp
      also have "\<dots> = map (Some \<circ> Done) (drop_results hs @ [v])"
        unfolding all Done using hs by (metis (no_types, lifting) list.simps(8,9) map_append map_map)
      finally show ?thesis using d Done None order e unfolding drive_spec_def
        by (intro exI [of _ sched]) (simp add: join_all first_payload_None)
    next
      case (Some p)
      then have "Panicked p \<in> set (hs @ [res (n - 1)])" using first_payload_Some by fastforce
      moreover have "mset (snd (join_handles hs [] v)) = mset (drop_results (map snd rs))"
        using dropped Done join_handles_dropped [of hs "[]" v] Some by simp
      moreover have "fst (join_handles hs [] v) = Unwound p"
        using Some join_handles_eq [of hs "[]" v] by (metis fst_conv option.simps(5))
      ultimately show ?thesis using d Done unwound by simp
    qed
  qed
qed

lemma drive_inline_spec:
  "drive_spec slot 1 run mem
    (case run 0 mem of (Done v, m) \<Rightarrow> (Returned [v], m, []) | (Panicked p, m) \<Rightarrow> (Unwound p, m, []))"
proof -
  obtain r m where r: "run 0 mem = (r, m)" by fastforce
  have "{i. i < (1 :: usize)} = {0}" by (auto simp: word_less_nat_alt unat_eq_zero)
  then show ?thesis unfolding drive_spec_def using r
    by (intro exI [of _ "[0]"] exI [of _ "[(0, r)]"] exI [of _ m]) (cases r; simp add: usize_range_def)
qed


lemma drive_spec_of_drive:
  assumes "1 \<le> unat n" "slot_sound slot" "schedule_of n sched"
  shows "drive_spec slot n run mem (drive slot sched n run mem)"
proof (cases "registered_parallel_executor slot")
  case None
  then show ?thesis
    using drive_scoped_spec [OF assms(1,3), of slot run mem] drive_inline_spec [of slot run mem]
    by (simp add: drive_def)
next
  case (Some ex)
  then have "honours_contract (execute ex)" using assms(2) by (simp add: slot_sound_def)
  then show ?thesis using Some drive_executor_spec by (simp add: drive_def)
qed

text \<open>With a scheduler that does not itself unwind, every task ran when \<open>drive\<close> is over.\<close>

lemma drive_complete:
  assumes "1 \<le> unat n" "slot_sound slot" "schedule_of n sched" "scheduler_returns slot"
  obtains (returned) order rs mem' vs where "schedule_of n order" "exec_order run order mem = (rs, mem')"
      "drive slot sched n run mem = (Returned vs, mem', [])"
      "map (map_of rs) (usize_range n) = map (Some \<circ> Done) vs"
    | (unwound) order rs mem' q dropped where "schedule_of n order" "exec_order run order mem = (rs, mem')"
      "drive slot sched n run mem = (Unwound q, mem', dropped)"
      "Panicked q \<in> snd ` set rs" "mset dropped = mset (drop_results (map snd rs))"
proof -
  obtain ex m dropped where d: "drive slot sched n run mem = (ex, m, dropped)"
    by (cases "drive slot sched n run mem") auto
  note spec = drive_spec_of_drive [OF assms(1-3), of run mem, unfolded drive_spec_def d]
  have "\<not> (\<exists>executor c. registered_parallel_executor slot = Some executor
      \<and> fst (execute executor n (task_wrapper run) c) = Some p)" for p
    using assms(4) by (auto simp: scheduler_returns_def)
  then have spec': "\<exists>order rs. schedule_of n order \<and> exec_order run order mem = (rs, m)
      \<and> (case ex of
           Returned vs \<Rightarrow> dropped = [] \<and> map (map_of rs) (usize_range n) = map (Some \<circ> Done) vs
         | Unwound q \<Rightarrow> Panicked q \<in> snd ` set rs \<and> mset dropped = mset (drop_results (map snd rs))
         | UndefinedBehaviour \<Rightarrow> False)"
    using spec schedule_ofI by (cases ex) (simp_all, blast+)
  show thesis using spec' d unwound returned by (cases ex) (simp_all, blast+)
qed

section \<open>Properties\<close>

text \<open>C3. \<open>drive\<close> meets its specification on all three paths (registered scheduler, one task
  inline, scoped threads), for every scheduler that honours the contract and every order
  in which the threads happen to run: no uninitialised or out-of-range slot is ever
  exposed, on a normal return the results stand in index order and every task ran exactly
  once, and on a panic every value already produced is dropped exactly once and the
  payload that unwinds is one that was raised.\<close>

theorem drive_meets_spec:
  assumes "1 \<le> unat n" "slot_sound slot" "schedule_of n sched"
  shows "drive_spec slot n run mem (drive slot sched n run mem)"
  using assms by (rule drive_spec_of_drive)

definition sample_run :: "(nat, nat) runner" where
  "sample_run i m = (if i = 1 then Panicked (UserPanic 7) else Done (unat i + m), Suc m)"

theorem drive_meets_spec_witness:
  "1 \<le> unat (3 :: usize) \<and> slot_sound (register_parallel_executor sequentially Null)
   \<and> schedule_of 3 [2, 0, 1]
   \<and> drive_spec Null 3 sample_run 0 (drive Null [2, 0, 1] 3 sample_run 0)
   \<and> drive_spec (register_parallel_executor sequentially Null) 3 sample_run 0
        (drive (register_parallel_executor sequentially Null) [2, 0, 1] 3 sample_run 0)"
proof (intro conjI)
  show one: "1 \<le> unat (3 :: usize)" by simp
  show s: "slot_sound (register_parallel_executor sequentially Null)"
    by (rule register_sound [OF sequentially_honours])
  show sched: "schedule_of 3 [2, 0, 1]"
    by (simp add: schedule_of_def usize_range_def upt_rec)
  show "drive_spec Null 3 sample_run 0 (drive Null [2, 0, 1] 3 sample_run 0)"
    by (rule drive_meets_spec [OF one _ sched]) (simp add: slot_sound_def slot_defs)
  show "drive_spec (register_parallel_executor sequentially Null) 3 sample_run 0
        (drive (register_parallel_executor sequentially Null) [2, 0, 1] 3 sample_run 0)"
    by (rule drive_meets_spec [OF one s sched])
qed

end
