(* ===== verification/Sharding.thy ===== *)
theory Sharding
  imports Region Driver
begin

text \<open>
  What a driver needs of the shards it hands to its tasks: the locale \<open>sharding\<close>. A region,
  the list of positions of its cells in logical order, is cut into \<open>count\<close> sub-slices that are
  pairwise apart and whose positions, one after another, are the region's. A task that
  works on its own shard only can then be run in any order with the others: the results
  and the final memory are those of the shards' initial contents. \<open>ParChunks\<close> interprets
  it here (a contiguous region), the deque's shard plan in its own theory (the two
  segments of a ring buffer).
\<close>

section \<open>A task on a shard\<close>

text \<open>
  A safe closure receives the start index and the shard, and can only read and assign the
  shard's elements: it is a function \<open>body\<close> of the contents that yields a result (or a
  panic) and the new contents, of the same length.
\<close>

type_synonym ('a, 'r) shard_body = "'a list \<Rightarrow> 'r outcome \<times> 'a list"

definition on_shard :: "slice_ref \<Rightarrow> ('a, 'r) shard_body \<Rightarrow> 'a list \<Rightarrow> 'r outcome \<times> 'a list" where
  "on_shard s body mem =
     (let (r, ys) = body (slice_read s mem) in (r, slice_write s ys mem))"

definition keeps_length :: "('a, 'r) shard_body \<Rightarrow> bool" where
  "keeps_length body \<longleftrightarrow> (\<forall>xs. length (snd (body xs)) = length xs)"

lemma keeps_lengthD [simp]: "keeps_length body \<Longrightarrow> length (snd (body xs)) = length xs"
  by (simp add: keeps_length_def)

lemma nth_slice_write_outside:
  assumes "slice_in s mem" "length ys = unat (meta s)" "k \<notin> slice_cells s"
  shows "slice_write s ys mem ! k = mem ! k"
proof (cases "k < length mem")
  case True
  then show ?thesis using assms
    by (auto simp: slice_write_def slice_in_def slice_cells_def nth_overwrite)
next
  case False
  have "drop (ptr s + length ys) (slice_write s ys mem) = drop (ptr s + length ys) mem"
    using assms by (simp add: slice_write_def overwrite_def slice_in_def)
  moreover have "mem ! k = drop (ptr s + length ys) mem ! (k - (ptr s + length ys))"
    "slice_write s ys mem ! k = drop (ptr s + length ys) (slice_write s ys mem) ! (k - (ptr s + length ys))"
    using False assms by (simp_all add: slice_in_def)
  ultimately show ?thesis by simp
qed

text \<open>The positions of a slice, and reading and assigning a list of positions.\<close>

definition positions :: "slice_ref \<Rightarrow> nat list" where
  "positions s = [ptr s ..< ptr s + unat (meta s)]"

definition gather :: "nat list \<Rightarrow> 'a list \<Rightarrow> 'a list" where
  "gather ks mem = map ((!) mem) ks"

definition scatter :: "nat list \<Rightarrow> 'a list \<Rightarrow> 'a list \<Rightarrow> 'a list" where
  "scatter ks ys mem = fold (\<lambda>(k, y) m. m[k := y]) (zip ks ys) mem"

lemma set_positions [simp]: "set (positions s) = slice_cells s"
  by (simp add: positions_def slice_cells_def)

lemma length_positions [simp]: "length (positions s) = unat (meta s)"
  by (simp add: positions_def)

lemma distinct_positions [simp]: "distinct (positions s)"
  by (simp add: positions_def)

lemma slice_read_gather: "slice_in s mem \<Longrightarrow> slice_read s mem = gather (positions s) mem"
  unfolding gather_def positions_def
  by (rule nth_equalityI) (simp_all add: slice_read_def slice_in_def window_simps)

lemma gather_concat: "gather (concat kss) mem = concat (map (\<lambda>ks. gather ks mem) kss)"
  by (simp add: gather_def map_concat comp_def)

lemma scatter_Nil [simp]: "scatter [] ys mem = mem" "scatter ks [] mem = mem"
  by (simp_all add: scatter_def)

lemma scatter_Cons [simp]: "scatter (k # ks) (y # ys) mem = scatter ks ys (mem[k := y])"
  by (simp add: scatter_def)

lemma length_scatter [simp]: "length (scatter ks ys mem) = length mem"
proof (induction ks arbitrary: ys mem)
  case (Cons k ks)
  then show ?case by (cases ys) auto
qed simp

lemma nth_scatter_outside: "k \<notin> set ks \<Longrightarrow> scatter ks ys mem ! k = mem ! k"
proof (induction ks arbitrary: ys mem)
  case (Cons a ks)
  then show ?case by (cases ys) auto
qed simp

lemma gather_scatter:
  assumes "distinct ks" "set ks \<subseteq> {..<length mem}" "length ys = length ks"
  shows "gather ks (scatter ks ys mem) = ys"
  using assms
proof (induction ks arbitrary: ys mem)
  case (Cons k ks)
  obtain y ys' where ys: "ys = y # ys'" using Cons.prems(3) by (cases ys) auto
  have "scatter ks ys' (mem[k := y]) ! k = y"
    using Cons.prems nth_scatter_outside [of k ks ys' "mem[k := y]"] by simp
  then show ?case using Cons.IH [of "mem[k := y]" ys'] Cons.prems ys by (simp add: gather_def)
qed (simp add: gather_def)

lemma scatter_eqI:
  assumes "length mem' = length mem" "distinct ks" "set ks \<subseteq> {..<length mem}" "gather ks mem' = ys"
    and out: "\<And>k. k < length mem \<Longrightarrow> k \<notin> set ks \<Longrightarrow> mem' ! k = mem ! k"
  shows "mem' = scatter ks ys mem"
proof (rule nth_equalityI)
  fix k assume k: "k < length mem'"
  have "length ys = length ks" using assms(4) by (auto simp: gather_def)
  then have eq: "gather ks (scatter ks ys mem) = gather ks mem'"
    using gather_scatter [OF assms(2,3)] assms(4) by simp
  show "mem' ! k = scatter ks ys mem ! k"
  proof (cases "k \<in> set ks")
    case True
    then show ?thesis using eq by (simp add: gather_def)
  qed (use k assms(1) in \<open>simp add: out nth_scatter_outside\<close>)
qed (simp add: assms(1))

lemma scatter_positions:
  assumes "slice_in s mem" "length ys = unat (meta s)"
  shows "scatter (positions s) ys mem = slice_write s ys mem"
proof (rule scatter_eqI [symmetric])
  have "slice_in s (slice_write s ys mem)" using assms by (simp add: slice_in_def)
  then show "gather (positions s) (slice_write s ys mem) = ys"
    using slice_write_read [OF assms] by (simp add: slice_read_gather)
  show "set (positions s) \<subseteq> {..<length mem}"
    using assms(1) by (auto simp: slice_in_def slice_cells_def)
qed (use assms nth_slice_write_outside in auto)

lemma scatter_gather_same:
  assumes "distinct ks" "set ks \<subseteq> {..<length mem}"
  shows "scatter ks (gather ks mem) mem = mem"
  using scatter_eqI [OF refl assms refl] by simp

section \<open>What a driver call over shards amounts to\<close>

text \<open>
  \<open>collected rs ks mem result\<close>: the tasks yielded \<open>rs\<close>, in partition order, each a result and
  the new contents of its shard. The region \<open>ks\<close> holds the new contents; the call returned
  the results in partition order, or, when a task panicked, it unwound with the payload of
  one that did and dropped each result that was produced exactly once.
\<close>

definition collected ::
    "('r outcome \<times> 'a list) list \<Rightarrow> nat list \<Rightarrow> 'a list \<Rightarrow> ('a list, 'r) driven \<Rightarrow> bool" where
  "collected rs ks mem result \<longleftrightarrow>
     (case result of (ex, mem', dropped) \<Rightarrow>
        mem' = scatter ks (concat (map snd rs)) mem
        \<and> (if list_all (is_done \<circ> fst) rs
           then ex = Returned (drop_results (map fst rs)) \<and> dropped = []
           else (\<exists>p. ex = Unwound p \<and> Panicked p \<in> fst ` set rs)
                \<and> mset dropped = mset (drop_results (map fst rs))))"

lemma drop_results_mset:
  "mset rs = mset rs' \<Longrightarrow> mset (drop_results rs) = mset (drop_results rs')"
proof -
  have "mset (drop_results rs) = image_mset (the \<circ> the_done) (filter_mset is_done (mset rs))" for rs :: "'a outcome list"
    by (induction rs rule: drop_results.induct) auto
  then show "mset rs = mset rs' \<Longrightarrow> mset (drop_results rs) = mset (drop_results rs')" by simp
qed

lemma drop_results_map_Done [simp]: "drop_results (map Done vs) = vs"
  by (induction vs) auto

text \<open>When no closure call panics, what was collected is determined.\<close>

lemma collected_done:
  assumes "collected rs ks mem result" "map fst rs = map Done vs"
  shows "result = (Returned vs, scatter ks (concat (map snd rs)) mem, [])"
proof -
  have "list_all (is_done \<circ> fst) rs \<longleftrightarrow> list_all is_done (map fst rs)" by (simp add: list.pred_map)
  also have "\<dots>" unfolding assms(2) by (simp add: list.pred_map list_all_iff)
  finally have "list_all (is_done \<circ> fst) rs" by simp
  with assms show ?thesis by (auto simp: collected_def split: prod.splits)
qed

lemma list_all_fst_done: "map fst rs = map Done vs \<Longrightarrow> list_all (is_done \<circ> fst) rs"
  by (metis (no_types, lifting) is_done.simps(1) length_map list_all_length list_all_length nth_map o_apply)

lemma drive_collected:
  assumes "1 \<le> unat n" "slot_sound slot" "schedule_of n sched" "scheduler_returns slot"
    and res: "\<And>order rs m. schedule_of n order \<Longrightarrow> exec_order run order mem = (rs, m) \<Longrightarrow>
        rs = map (\<lambda>i. (i, fst (g i))) order"
    and mem: "\<And>order rs m. schedule_of n order \<Longrightarrow> exec_order run order mem = (rs, m) \<Longrightarrow>
        m = scatter ks (concat (map (\<lambda>i. snd (g i)) (usize_range n))) mem"
  shows "collected (map g (usize_range n)) ks mem (drive slot sched n run mem)"
  using assms(1-4)
proof (cases rule: drive_complete [of n slot sched run mem])
  case (returned order rs mem' vs)
  note rs = res [OF returned(1,2)]
  have "map_of rs i = Some (fst (g i))" if "i < n" for i
    using that schedule_ofD(2) [OF returned(1)] by (simp add: rs map_of_map_restrict)
  then have "map (map_of rs) (usize_range n) = map Some (map (\<lambda>i. fst (g i)) (usize_range n))" by simp
  then have "map Some (map (\<lambda>i. fst (g i)) (usize_range n)) = map Some (map Done vs)"
    using returned(4) by simp
  then have "map (\<lambda>i. fst (g i)) (usize_range n) = map Done vs"
    by (rule map_injective) simp
  then have vs: "map fst (map g (usize_range n)) = map Done vs" by (simp only: map_map comp_def)
  show ?thesis using list_all_fst_done [OF vs] returned(3) mem [OF returned(1,2)]
    unfolding collected_def vs by (simp add: comp_def)
next
  case (unwound order rs mem' q dropped)
  have "mset (map snd rs) = image_mset (\<lambda>i. fst (g i)) (mset order)"
    by (simp add: res [OF unwound(1,2)] comp_def)
  also have "\<dots> = mset (map (\<lambda>i. fst (g i)) (usize_range n))"
    using unwound(1) by (simp add: schedule_of_def)
  finally have ms: "mset (map snd rs) = mset (map (\<lambda>i. fst (g i)) (usize_range n))" .
  have q: "Panicked q \<in> (\<lambda>i. fst (g i)) ` {i. i < n}" using unwound(4) mset_eq_setD [OF ms] by simp
  then have "\<not> list_all (is_done \<circ> fst) (map g (usize_range n))"
    by (auto simp: list_all_iff) (metis is_done.simps(2))
  then show ?thesis using unwound(3,5) mem [OF unwound(1,2)] drop_results_mset [OF ms] q
    by (simp only: collected_def map_map comp_def prod.case if_False image_image set_map set_usize_range)
      blast
qed

section \<open>Independent tasks\<close>

locale sharding =
  fixes invar :: "'p \<Rightarrow> bool"
    and count :: "'p \<Rightarrow> usize"
    and region :: "'p \<Rightarrow> nat list"
    and shard :: "'p \<Rightarrow> usize \<Rightarrow> slice_ref"
  assumes separate: "invar p \<Longrightarrow> i < count p \<Longrightarrow> j < count p \<Longrightarrow> i \<noteq> j \<Longrightarrow>
      apart (ptr (shard p i)) (unat (meta (shard p i))) (ptr (shard p j)) (unat (meta (shard p j)))"
    and distinct_region: "invar p \<Longrightarrow> distinct (region p)"
    and pieces: "invar p \<Longrightarrow> concat (map (\<lambda>i. positions (shard p i)) (usize_range (count p))) = region p"
begin

lemma set_region: "invar p \<Longrightarrow> set (region p) = (\<Union>i \<in> {i. i < count p}. slice_cells (shard p i))"
  using pieces [of p] by (simp flip: pieces)

lemma region_in:
  assumes "invar p" "\<And>i. i < count p \<Longrightarrow> slice_in (shard p i) mem"
  shows "set (region p) \<subseteq> {..<length mem}"
  using assms(2) by (fastforce simp: set_region [OF assms(1)] slice_in_def slice_cells_def)

lemma read_pieces:
  assumes "invar p" "\<And>i. i < count p \<Longrightarrow> slice_in (shard p i) mem"
  shows "concat (map (\<lambda>i. slice_read (shard p i) mem) (usize_range (count p))) = gather (region p) mem"
proof -
  have "map (\<lambda>i. slice_read (shard p i) mem) (usize_range (count p)) =
      map (\<lambda>i. gather (positions (shard p i)) mem) (usize_range (count p))"
    using assms(2) by (simp add: slice_read_gather)
  then show ?thesis by (simp only: gather_concat map_map comp_def flip: pieces [OF assms(1)])
qed

text \<open>Tasks run in any order, each on its own shard: every task sees the initial contents.\<close>

lemma any_order:
  fixes body :: "usize \<Rightarrow> ('a, 'r) shard_body"
  assumes "invar p" "\<And>i. i < count p \<Longrightarrow> slice_in (shard p i) mem" "\<And>i. keeps_length (body i)"
    and "distinct order" "set order \<subseteq> {i. i < count p}"
    and "exec_order (\<lambda>i. on_shard (shard p i) (body i)) order mem = (rs, mem')"
  shows "length mem' = length mem
    \<and> rs = map (\<lambda>i. (i, fst (body i (slice_read (shard p i) mem)))) order
    \<and> (\<forall>i < count p. slice_read (shard p i) mem' =
         (if i \<in> set order then snd (body i (slice_read (shard p i) mem)) else slice_read (shard p i) mem))
    \<and> (\<forall>k. k \<notin> set (region p) \<longrightarrow> mem' ! k = mem ! k)"
  using assms(2,4-6)
proof (induction order arbitrary: mem rs)
  case (Cons i order)
  let ?s = "shard p i"
  let ?m1 = "slice_write ?s (snd (body i (slice_read ?s mem))) mem"
  have i: "i < count p" "i \<notin> set order" using Cons.prems by auto
  note inm = Cons.prems(1)
  have len: "length (snd (body i (slice_read ?s mem))) = unat (meta ?s)"
    using assms(3) inm [OF i(1)] by simp
  have l1: "length ?m1 = length mem" using inm [OF i(1)] len by simp
  have in1: "slice_in (shard p j) ?m1" if "j < count p" for j
    using inm [OF that] l1 by (simp add: slice_in_def)
  obtain rs1 where rs1: "exec_order (\<lambda>i. on_shard (shard p i) (body i)) order ?m1 = (rs1, mem')"
    "rs = (i, fst (body i (slice_read ?s mem))) # rs1"
  proof (rule that)
    have "on_shard ?s (body i) mem = (fst (body i (slice_read ?s mem)), ?m1)"
      by (simp add: on_shard_def Let_def case_prod_beta)
    then show "rs = (i, fst (body i (slice_read ?s mem))) #
        fst (exec_order (\<lambda>i. on_shard (shard p i) (body i)) order ?m1)"
      "exec_order (\<lambda>i. on_shard (shard p i) (body i)) order ?m1 =
        (fst (exec_order (\<lambda>i. on_shard (shard p i) (body i)) order ?m1), mem')"
      using Cons.prems(4) by (auto simp: Let_def case_prod_beta)
  qed
  have other: "slice_read (shard p j) ?m1 = slice_read (shard p j) mem" if "j < count p" "j \<noteq> i" for j
    using separate [OF assms(1) that(1) i(1) that(2)] inm [OF that(1)] inm [OF i(1)] len
    by (intro slice_read_write_apart) auto
  have same: "slice_read ?s ?m1 = snd (body i (slice_read ?s mem))"
    using inm [OF i(1)] len by (rule slice_write_read)
  have out: "?m1 ! k = mem ! k" if "k \<notin> set (region p)" for k
    using that i(1) inm [OF i(1)] len
    by (intro nth_slice_write_outside) (auto simp: set_region [OF assms(1)])
  have IH: "length mem' = length mem"
    "rs1 = map (\<lambda>i. (i, fst (body i (slice_read (shard p i) ?m1)))) order"
    "\<forall>j < count p. slice_read (shard p j) mem' =
         (if j \<in> set order then snd (body j (slice_read (shard p j) ?m1)) else slice_read (shard p j) ?m1)"
    "\<forall>k. k \<notin> set (region p) \<longrightarrow> mem' ! k = mem ! k"
    using Cons.IH [of ?m1 rs1] rs1(1) in1 Cons.prems(2,3) l1 out by auto
  have "rs1 = map (\<lambda>i. (i, fst (body i (slice_read (shard p i) mem)))) order"
    unfolding IH(2)
  proof (intro map_cong refl)
    fix j assume "j \<in> set order"
    then have "j < count p" "j \<noteq> i" using i(2) Cons.prems(3) by auto
    then show "(j, fst (body j (slice_read (shard p j) ?m1))) = (j, fst (body j (slice_read (shard p j) mem)))"
      by (simp add: other)
  qed
  moreover have "slice_read (shard p j) mem' =
      (if j \<in> set (i # order) then snd (body j (slice_read (shard p j) mem)) else slice_read (shard p j) mem)"
    if "j < count p" for j
    using IH(3) that other [OF that] same i(2) by (cases "j = i") auto
  ultimately show ?case using IH(1,4) rs1(2) by simp
qed auto

text \<open>Memory is determined by what the shards hold and by what lies outside the region.\<close>

lemma region_contents:
  assumes "invar p" "\<And>i. i < count p \<Longrightarrow> slice_in (shard p i) mem" "length mem' = length mem"
    and "\<And>i. i < count p \<Longrightarrow> slice_read (shard p i) mem' = g i"
    and "\<And>k. k \<notin> set (region p) \<Longrightarrow> mem' ! k = mem ! k"
  shows "mem' = scatter (region p) (concat (map g (usize_range (count p)))) mem"
proof -
  have "slice_in (shard p i) mem'" if "i < count p" for i
    using assms(2) [OF that] assms(3) by (simp add: slice_in_def)
  moreover have "map g (usize_range (count p)) = map (\<lambda>i. slice_read (shard p i) mem') (usize_range (count p))"
    using assms(4) by simp
  ultimately have "gather (region p) mem' = concat (map g (usize_range (count p)))"
    using read_pieces [OF assms(1), of mem'] by (simp only:)
  then show ?thesis using assms(3,5) region_in [OF assms(1,2)] distinct_region [OF assms(1)]
    by (intro scatter_eqI) auto
qed

text \<open>All tasks run: the region holds the new contents of the shards, one after another.\<close>

lemma all_tasks:
  fixes body :: "usize \<Rightarrow> ('a, 'r) shard_body"
  assumes "invar p" "\<And>i. i < count p \<Longrightarrow> slice_in (shard p i) mem" "\<And>i. keeps_length (body i)"
    and "schedule_of (count p) order"
    and "exec_order (\<lambda>i. on_shard (shard p i) (body i)) order mem = (rs, mem')"
  shows "mem' = scatter (region p)
      (concat (map (\<lambda>i. snd (body i (slice_read (shard p i) mem))) (usize_range (count p)))) mem"
proof -
  note o = schedule_ofD [OF assms(4)]
  have "length mem' = length mem"
    "\<forall>i < count p. slice_read (shard p i) mem' = snd (body i (slice_read (shard p i) mem))"
    "\<forall>k. k \<notin> set (region p) \<longrightarrow> mem' ! k = mem ! k"
    using any_order [OF assms(1-3) o(1) _ assms(5)] o(2) by simp_all
  then show ?thesis by (intro region_contents [OF assms(1,2)]) auto
qed

text \<open>A driver call over the shards, whatever the scheduler and the order of the threads.\<close>

lemma drive_shards:
  fixes body :: "usize \<Rightarrow> ('a, 'r) shard_body"
  assumes "invar p" "\<And>i. i < count p \<Longrightarrow> slice_in (shard p i) mem" "\<And>i. keeps_length (body i)"
    and "1 \<le> unat (count p)" "slot_sound slot" "schedule_of (count p) sched" "scheduler_returns slot"
  shows "collected (map (\<lambda>i. body i (slice_read (shard p i) mem)) (usize_range (count p))) (region p) mem
    (drive slot sched (count p) (\<lambda>i. on_shard (shard p i) (body i)) mem)"
proof (rule drive_collected [OF assms(4-7)])
  fix order rs m
  assume o: "schedule_of (count p) order" "exec_order (\<lambda>i. on_shard (shard p i) (body i)) order mem = (rs, m)"
  show "rs = map (\<lambda>i. (i, fst (body i (slice_read (shard p i) mem)))) order"
    using any_order [OF assms(1-3) _ _ o(2)] schedule_ofD [OF o(1)] by simp
  show "m = scatter (region p)
      (concat (map (\<lambda>i. snd (body i (slice_read (shard p i) mem))) (usize_range (count p)))) mem"
    by (rule all_tasks [OF assms(1-3) o])
qed

end

section \<open>\<open>ParChunks\<close> is a sharding\<close>

lemma unat_par_count: "par_invar p \<Longrightarrow> unat (of_nat (par_count p) :: usize) = par_count p"
  using par_len_count(3) [of p] by (simp add: par_invar_def)

lemma chunk_slice:
  assumes "par_invar p" "unat i < par_count p"
  shows "ptr (sh_cells (get_unchecked_chunk p i)) = pc_base p + unat (fst (par_range p i))"
    and "unat (meta (sh_cells (get_unchecked_chunk p i)))
      = unat (snd (par_range p i)) - unat (fst (par_range p i))"
proof -
  have "unat (fst (par_range p i)) < unat (snd (par_range p i))"
    using par.lo_less_hi [OF assms] by simp
  then show "ptr (sh_cells (get_unchecked_chunk p i)) = pc_base p + unat (fst (par_range p i))"
    "unat (meta (sh_cells (get_unchecked_chunk p i)))
      = unat (snd (par_range p i)) - unat (fst (par_range p i))"
    by (simp_all add: get_unchecked_chunk_def shard_new_def case_prod_beta Let_def unat_sub_usize)
qed

lemma chunk_positions:
  assumes "par_invar p"
  shows "concat (map (\<lambda>i. positions (sh_cells (get_unchecked_chunk p i))) (usize_range (of_nat (par_count p))))
    = [pc_base p ..< pc_base p + unat (pc_len p)]"
proof -
  let ?lo = "\<lambda>i. unat (fst (par_range p (of_nat i)))" and ?hi = "\<lambda>i. unat (snd (par_range p (of_nat i)))"
  let ?xs = "[pc_base p ..< pc_base p + unat (pc_len p)]"
  have n: "unat (of_nat (par_count p) :: usize) = par_count p" by (rule unat_par_count [OF assms])
  have "map (\<lambda>i. positions (sh_cells (get_unchecked_chunk p i))) (usize_range (of_nat (par_count p)))
    = map (\<lambda>i. window (?lo i) (?hi i - ?lo i) ?xs) [0..<par_count p]"
  proof (rule nth_equalityI)
    fix i assume "i < length (map (\<lambda>i. positions (sh_cells (get_unchecked_chunk p i))) (usize_range (of_nat (par_count p))))"
    then have i: "i < par_count p" by (simp add: n)
    then have "unat (of_nat i :: usize) = i" using n by (metis unat_of_nat_below)
    moreover have "?hi i \<le> unat (pc_len p)" "?lo i < ?hi i"
      using par.hi_le_total [OF assms i] par.lo_less_hi [OF assms i] by auto
    ultimately show "map (\<lambda>i. positions (sh_cells (get_unchecked_chunk p i))) (usize_range (of_nat (par_count p))) ! i
      = map (\<lambda>i. window (?lo i) (?hi i - ?lo i) ?xs) [0..<par_count p] ! i"
      using i chunk_slice [OF assms, of "of_nat i"]
      by (simp add: n positions_def window_def drop_upt take_upt)
  qed (simp add: n)
  then show ?thesis using par.concat_windows [OF assms, of ?xs] by simp
qed

lemma chunk_in:
  assumes "par_invar p" "pc_base p + unat (pc_len p) \<le> length mem" "i < of_nat (par_count p)"
  shows "slice_in (sh_cells (get_unchecked_chunk p i)) mem"
proof -
  have i: "unat i < par_count p" using assms(1,3) by (simp add: word_less_nat_alt unat_par_count)
  show ?thesis using chunk_slice [OF assms(1) i] par.hi_le_total [OF assms(1) i] assms(2)
      par.lo_less_hi [OF assms(1) i] by (simp add: slice_in_def)
qed

interpretation pc: sharding par_invar "\<lambda>p. of_nat (par_count p)"
  "\<lambda>p. [pc_base p ..< pc_base p + unat (pc_len p)]" "\<lambda>p i. sh_cells (get_unchecked_chunk p i)"
proof (unfold_locales, goal_cases)
  case (1 p i j)
  then have i: "unat i < par_count p" "unat j < par_count p" "unat i \<noteq> unat j"
    by (simp_all add: word_less_nat_alt unat_par_count usize_eq_iff)
  then show ?case using par.ranges_apart [OF 1(1) i]
    by (simp add: chunk_slice [OF 1(1)] apart_def)
next
  case (2 p)
  then show ?case by simp
next
  case (3 p)
  then show ?case by (rule chunk_positions)
qed

end
