(* ===== verification/Plan.thy ===== *)
theory Plan
  imports Region
begin

text \<open>
  Shard sizing, \<^verbatim>\<open>src/sync/scoped/partition/plan.rs\<close>: a \<open>PartitionPlan\<close> is resolved to a
  chunk size for a region of a given length. \<open>NonZeroUsize\<close> is the type of non-zero words.
  \<open>std::thread::available_parallelism()\<close> is the parameter \<open>avail\<close>: \<open>None\<close> where the platform
  cannot report it.
\<close>

section \<open>\<open>NonZeroUsize\<close>\<close>

typedef nonzero_usize = "{w :: usize. w \<noteq> 0}"
  morphisms nz_get nz_abs
proof
  show "1 \<in> {w :: usize. w \<noteq> 0}" by simp
qed

definition nz_new :: "usize \<Rightarrow> nonzero_usize option" where
  "nz_new w = (if w = 0 then None else Some (nz_abs w))"

lemma nz_get_nonzero [simp]: "nz_get n \<noteq> 0"
  using nz_get [of n] by simp

lemma nz_get_pos [simp]: "0 < unat (nz_get n)"
  by (simp add: unat_gt_0)

lemma nz_get_abs [simp]: "w \<noteq> 0 \<Longrightarrow> nz_get (nz_abs w) = w"
  by (simp add: nz_abs_inverse)

section \<open>Plans\<close>

datatype partition_plan =
    Parts nonzero_usize
  | AvailableParallelism
  | ChunkSize nonzero_usize

definition nonzero_or_one :: "usize \<Rightarrow> nonzero_usize" where
  "nonzero_or_one value = (case nz_new value of Some nz \<Rightarrow> nz | None \<Rightarrow> nz_abs 1)"

definition plan_parts :: "usize \<Rightarrow> partition_plan" where
  "plan_parts parts = Parts (nonzero_or_one parts)"

definition plan_available_parallelism :: partition_plan where
  "plan_available_parallelism = AvailableParallelism"

definition plan_chunk_size :: "usize \<Rightarrow> partition_plan" where
  "plan_chunk_size chunk_size = ChunkSize (nonzero_or_one chunk_size)"

definition chunk_for_parts :: "usize \<Rightarrow> usize \<Rightarrow> usize outcome" where
  "chunk_for_parts len parts = map_done (\<lambda>n. max n 1) (partition_count len parts)"

fun chunk_len_for :: "nonzero_usize option \<Rightarrow> partition_plan \<Rightarrow> usize \<Rightarrow> usize outcome" where
  "chunk_len_for avail (Parts parts) len = chunk_for_parts len (nz_get parts)"
| "chunk_len_for avail AvailableParallelism len =
     (let parts = (case avail of None \<Rightarrow> 1 | Some n \<Rightarrow> nz_get n) in chunk_for_parts len parts)"
| "chunk_len_for avail (ChunkSize chunk_size) len = Done (nz_get chunk_size)"

definition plan_resolve :: "nonzero_usize option \<Rightarrow> partition_plan \<Rightarrow> usize \<Rightarrow> usize outcome" where
  "plan_resolve avail plan len = chunk_len_for avail plan len"

section \<open>Lemmas\<close>

lemma nz_get_nonzero_or_one: "nz_get (nonzero_or_one w) = (if w = 0 then 1 else w)"
  by (simp add: nonzero_or_one_def nz_new_def)

text \<open>The number of parts a plan asks for, where it asks for parts.\<close>

fun plan_max_parts :: "nonzero_usize option \<Rightarrow> partition_plan \<Rightarrow> nat option" where
  "plan_max_parts avail (Parts n) = Some (unat (nz_get n))"
| "plan_max_parts avail AvailableParallelism =
     Some (case avail of None \<Rightarrow> 1 | Some n \<Rightarrow> unat (nz_get n))"
| "plan_max_parts avail (ChunkSize c) = None"

lemma chunk_for_parts_eq:
  assumes "parts \<noteq> 0"
  shows "\<exists>c. chunk_for_parts len parts = Done c \<and> unat c = max (ceil_div (unat len) (unat parts)) 1"
proof -
  obtain n where n: "partition_count len parts = Done n"
    using partition_count_eq [OF assms] by blast
  then show ?thesis using unat_partition_count [OF assms n]
    by (auto simp: chunk_for_parts_def unat_max_usize)
qed

lemma chunk_for_parts_Done:
  assumes "parts \<noteq> 0"
  obtains c where "chunk_for_parts len parts = Done c" "c \<noteq> 0"
    "unat c = max (ceil_div (unat len) (unat parts)) 1"
  using chunk_for_parts_eq [OF assms, of len]
  by (metis max.cobounded2 not_one_le_zero unat_0)

lemma chunk_len_for_parts:
  assumes "plan_max_parts avail plan = Some k"
  shows "\<exists>c. chunk_len_for avail plan len = Done c \<and> c \<noteq> 0
    \<and> unat c = max (ceil_div (unat len) k) 1 \<and> 0 < k"
proof -
  obtain p where p: "p \<noteq> 0" "chunk_len_for avail plan len = chunk_for_parts len p" "k = unat p"
  proof (cases plan)
    case (Parts n)
    then show thesis using assms by (intro that [of "nz_get n"]) auto
  next
    case AvailableParallelism
    then show thesis using assms
      by (intro that [of "case avail of None \<Rightarrow> 1 | Some n \<Rightarrow> nz_get n"]) (auto split: option.splits)
  qed (use assms in simp)
  obtain c where "chunk_for_parts len p = Done c" "c \<noteq> 0"
    "unat c = max (ceil_div (unat len) (unat p)) 1"
    by (rule chunk_for_parts_Done [OF p(1)])
  then show ?thesis using p by (auto simp: unat_gt_0)
qed

lemma chunk_len_for_Done: "\<exists>c. chunk_len_for avail plan len = Done c \<and> c \<noteq> 0"
proof (cases "plan_max_parts avail plan")
  case None
  then show ?thesis by (cases plan) auto
next
  case (Some k)
  then show ?thesis using chunk_len_for_parts by blast
qed

section \<open>Properties\<close>

text \<open>C35. Every plan resolves, without a panic, to a chunk size of at least one, whatever the
  length and whatever the platform reports; a plan that asks for \<open>k\<close> parts cuts a region
  into at most \<open>min k len\<close> shards, none of them empty, and a chunk-size plan is taken
  literally.\<close>

theorem plan_resolves:
  "\<exists>c n. plan_resolve avail plan len = Done c \<and> 1 \<le> unat c
     \<and> partition_count len c = Done n
     \<and> n \<le> len
     \<and> (case plan_max_parts avail plan of Some k \<Rightarrow> unat n \<le> k | None \<Rightarrow> True)
     \<and> (case plan of ChunkSize w \<Rightarrow> c = nz_get w | _ \<Rightarrow> True)"
proof -
  obtain c where c: "chunk_len_for avail plan len = Done c" "c \<noteq> 0"
    using chunk_len_for_Done by blast
  obtain n where n: "partition_count len c = Done n" using partition_count_eq [OF c(2)] by blast
  have c1: "0 < unat c" using c(2) by (simp add: unat_gt_0)
  note un = unat_partition_count [OF c(2) n]
  have "unat n \<le> unat len" using un c1 by (simp add: ceil_div_le_self)
  moreover have "unat n \<le> k" if k: "plan_max_parts avail plan = Some k" for k
  proof -
    have ck: "unat c = max (ceil_div (unat len) k) 1" "0 < k"
      using chunk_len_for_parts [OF k, of len] c by auto
    have "unat len \<le> ceil_div (unat len) k * k"
      using ceil_div_le_iff [OF ck(2), of "unat len" "ceil_div (unat len) k"] by simp
    also have "\<dots> \<le> k * unat c" using ck(1) by (simp add: mult.commute)
    finally show ?thesis using un ceil_div_le_iff [OF c1, of "unat len" k] by simp
  qed
  moreover have "case plan of ChunkSize w \<Rightarrow> c = nz_get w | _ \<Rightarrow> True"
    using c(1) by (cases plan) auto
  ultimately show ?thesis using c n c1
    by (auto simp: plan_resolve_def word_le_nat_alt split: option.split)
qed

text \<open>The number of shards for \<open>parts\<close> parts is \<open>ceil (len / ceil (len / parts))\<close>, which
  is not always \<open>min parts len\<close>: five cells in four parts make three shards.\<close>

theorem parts_plan_shard_count:
  "(\<exists>c n. plan_resolve avail (plan_parts parts) len = Done c
       \<and> partition_count len c = Done n
       \<and> unat n = (let k = max (unat parts) 1 in ceil_div (unat len) (max (ceil_div (unat len) k) 1)))
   \<and> plan_resolve avail (plan_parts 4) 5 = Done 2 \<and> partition_count 5 2 = Done 3"
proof
  let ?k = "max (unat parts) 1"
  have k: "plan_max_parts avail (plan_parts parts) = Some ?k"
    using unat_gt_0 [of parts]
    by (cases "parts = 0") (auto simp: plan_parts_def nz_get_nonzero_or_one max_def)
  obtain c where c: "chunk_len_for avail (plan_parts parts) len = Done c" "c \<noteq> 0"
    "unat c = max (ceil_div (unat len) ?k) 1"
    using chunk_len_for_parts [OF k, of len] by blast
  obtain n where n: "partition_count len c = Done n" using partition_count_eq [OF c(2)] by blast
  show "\<exists>c n. plan_resolve avail (plan_parts parts) len = Done c
       \<and> partition_count len c = Done n
       \<and> unat n = (let k = max (unat parts) 1 in ceil_div (unat len) (max (ceil_div (unat len) k) 1))"
    using c n unat_partition_count [OF c(2) n] by (auto simp: plan_resolve_def Let_def)
  show "plan_resolve avail (plan_parts 4) 5 = Done 2 \<and> partition_count 5 2 = Done 3"
    by (simp add: plan_resolve_def plan_parts_def nz_get_nonzero_or_one chunk_for_parts_def
        partition_count_def usize_div_def max_def word_le_nat_alt)
qed

end
