(* ===== verification/PartitionMap.thy ===== *)
theory PartitionMap
  imports Sharding Plan
begin

text \<open>
  The public partition drivers: \<^verbatim>\<open>src/sync/scoped/partition/map.rs\<close> (disjoint \<open>&mut\<close> shards)
  and \<^verbatim>\<open>src/sync/scoped/partition/read_map.rs\<close> (shared sub-slices). Each resolves the plan,
  counts the shards and hands one task per shard to \<open>drive\<close>.

  \<open>slot\<close> is the process-global executor slot, \<open>sched n\<close> the order in which \<open>n\<close> scoped threads
  happen to take effect, \<open>avail\<close> what the platform reports as available parallelism. The
  region is the sub-slice \<open>cells\<close> of the memory \<open>mem\<close>.
\<close>

type_synonym ('a, 'r) shard_fn = "usize \<Rightarrow> ('a, 'r) shard_body"
type_synonym ('a, 'r) slot_ptr = "('a list, 'r) task_context raw_ptr"
type_synonym scheduling = "usize \<Rightarrow> usize list"

section \<open>Mutable shards: \<^verbatim>\<open>map.rs\<close>\<close>

definition partition_map_with ::
    "('a, 'r) slot_ptr \<Rightarrow> scheduling \<Rightarrow> nonzero_usize option \<Rightarrow> slice_ref \<Rightarrow> partition_plan
       \<Rightarrow> ('a, 'r) shard_fn \<Rightarrow> 'a list \<Rightarrow> ('a list, 'r) driven" where
  "partition_map_with slot sched avail cells plan f mem =
     (case plan_resolve avail plan (meta cells) of
        Panicked p \<Rightarrow> (Unwound p, mem, [])
      | Done chunk \<Rightarrow>
          let chunk_size = max chunk 1;
              par = shard_par_chunks (shard_new cells) chunk_size
          in case par_len par of
               Panicked p \<Rightarrow> (Unwound p, mem, [])
             | Done num_chunks \<Rightarrow>
                 if num_chunks = 0 then (Returned [], mem, [])
                 else drive slot (sched num_chunks) num_chunks
                   (\<lambda>index.
                      let start = index * chunk_size;
                          shard = get_unchecked_chunk par index
                      in on_shard (shard_into_mut_slice shard) (f start))
                   mem)"

definition partition_map ::
    "('a, 'r) slot_ptr \<Rightarrow> scheduling \<Rightarrow> nonzero_usize option \<Rightarrow> slice_ref \<Rightarrow> usize
       \<Rightarrow> ('a, 'r) shard_fn \<Rightarrow> 'a list \<Rightarrow> ('a list, 'r) driven" where
  "partition_map slot sched avail cells parts f mem =
     partition_map_with slot sched avail cells (plan_parts parts) f mem"

definition partition_map_available ::
    "('a, 'r) slot_ptr \<Rightarrow> scheduling \<Rightarrow> nonzero_usize option \<Rightarrow> slice_ref
       \<Rightarrow> ('a, 'r) shard_fn \<Rightarrow> 'a list \<Rightarrow> ('a list, 'r) driven" where
  "partition_map_available slot sched avail cells f mem =
     partition_map_with slot sched avail cells plan_available_parallelism f mem"

text \<open>The \<open>for_each\<close> forms drop the returned vector.\<close>

fun discard :: "('m, unit) driven \<Rightarrow> ('m, unit) driven" where
  "discard (Returned vs, mem, dropped) = (Returned [], mem, dropped @ vs)"
| "discard (ex, mem, dropped) = (ex, mem, dropped)"

definition partition_for_each ::
    "('a, unit) slot_ptr \<Rightarrow> scheduling \<Rightarrow> nonzero_usize option \<Rightarrow> slice_ref \<Rightarrow> usize
       \<Rightarrow> ('a, unit) shard_fn \<Rightarrow> 'a list \<Rightarrow> ('a list, unit) driven" where
  "partition_for_each slot sched avail cells parts f mem =
     discard (partition_map slot sched avail cells parts f mem)"

definition partition_for_each_with ::
    "('a, unit) slot_ptr \<Rightarrow> scheduling \<Rightarrow> nonzero_usize option \<Rightarrow> slice_ref \<Rightarrow> partition_plan
       \<Rightarrow> ('a, unit) shard_fn \<Rightarrow> 'a list \<Rightarrow> ('a list, unit) driven" where
  "partition_for_each_with slot sched avail cells plan f mem =
     discard (partition_map_with slot sched avail cells plan f mem)"

definition partition_for_each_available ::
    "('a, unit) slot_ptr \<Rightarrow> scheduling \<Rightarrow> nonzero_usize option \<Rightarrow> slice_ref
       \<Rightarrow> ('a, unit) shard_fn \<Rightarrow> 'a list \<Rightarrow> ('a list, unit) driven" where
  "partition_for_each_available slot sched avail cells f mem =
     discard (partition_map_available slot sched avail cells f mem)"

section \<open>Shared sub-slices: \<^verbatim>\<open>read_map.rs\<close>\<close>

text \<open>
  The shared slice cannot change while it is borrowed: it is a value \<open>sl\<close>, and its length is
  the \<open>usize\<close> that \<open>len()\<close> returns. What else the closure reaches (the deque's cells, through
  raw pointers) is the state \<open>st\<close>.
\<close>

definition slice_len :: "'a list \<Rightarrow> usize" where
  "slice_len sl = of_nat (length sl)"

text \<open>\<open>&slice[start..end]\<close>, with its bounds checks.\<close>

definition slice_index :: "'a list \<Rightarrow> usize \<Rightarrow> usize \<Rightarrow> 'a list outcome" where
  "slice_index sl start stop =
     (if start \<le> stop \<and> stop \<le> slice_len sl
      then Done (window (unat start) (unat stop - unat start) sl)
      else Panicked IndexOutOfBounds)"

type_synonym ('a, 'm, 'r) read_fn = "usize \<Rightarrow> 'a list \<Rightarrow> 'm \<Rightarrow> 'r outcome \<times> 'm"

definition read_task :: "'a list \<Rightarrow> usize \<Rightarrow> ('a, 'm, 'r) read_fn \<Rightarrow> ('m, 'r) runner" where
  "read_task sl chunk_size f index st =
     (let start = index * chunk_size;
          stop = min (start + chunk_size) (slice_len sl)
      in case slice_index sl start stop of
           Panicked p \<Rightarrow> (Panicked p, st)
         | Done xs \<Rightarrow> f start xs st)"

definition partition_read_map_with ::
    "('m, 'r) task_context raw_ptr \<Rightarrow> scheduling \<Rightarrow> nonzero_usize option \<Rightarrow> 'a list \<Rightarrow> partition_plan
       \<Rightarrow> ('a, 'm, 'r) read_fn \<Rightarrow> 'm \<Rightarrow> ('m, 'r) driven" where
  "partition_read_map_with slot sched avail sl plan f st =
     (case plan_resolve avail plan (slice_len sl) of
        Panicked p \<Rightarrow> (Unwound p, st, [])
      | Done chunk \<Rightarrow>
          let chunk_size = max chunk 1 in
          case partition_count (slice_len sl) chunk_size of
            Panicked p \<Rightarrow> (Unwound p, st, [])
          | Done num_chunks \<Rightarrow>
              if num_chunks = 0 then (Returned [], st, [])
              else drive slot (sched num_chunks) num_chunks (read_task sl chunk_size f) st)"

definition partition_read_map ::
    "('m, 'r) task_context raw_ptr \<Rightarrow> scheduling \<Rightarrow> nonzero_usize option \<Rightarrow> 'a list \<Rightarrow> usize
       \<Rightarrow> ('a, 'm, 'r) read_fn \<Rightarrow> 'm \<Rightarrow> ('m, 'r) driven" where
  "partition_read_map slot sched avail sl parts f st =
     partition_read_map_with slot sched avail sl (plan_parts parts) f st"

definition partition_read_map_available ::
    "('m, 'r) task_context raw_ptr \<Rightarrow> scheduling \<Rightarrow> nonzero_usize option \<Rightarrow> 'a list
       \<Rightarrow> ('a, 'm, 'r) read_fn \<Rightarrow> 'm \<Rightarrow> ('m, 'r) driven" where
  "partition_read_map_available slot sched avail sl f st =
     partition_read_map_with slot sched avail sl plan_available_parallelism f st"

definition partition_read_for_each ::
    "('m, unit) task_context raw_ptr \<Rightarrow> scheduling \<Rightarrow> nonzero_usize option \<Rightarrow> 'a list \<Rightarrow> usize
       \<Rightarrow> ('a, 'm, unit) read_fn \<Rightarrow> 'm \<Rightarrow> ('m, unit) driven" where
  "partition_read_for_each slot sched avail sl parts f st =
     discard (partition_read_map slot sched avail sl parts f st)"

definition partition_read_for_each_with ::
    "('m, unit) task_context raw_ptr \<Rightarrow> scheduling \<Rightarrow> nonzero_usize option \<Rightarrow> 'a list \<Rightarrow> partition_plan
       \<Rightarrow> ('a, 'm, unit) read_fn \<Rightarrow> 'm \<Rightarrow> ('m, unit) driven" where
  "partition_read_for_each_with slot sched avail sl plan f st =
     discard (partition_read_map_with slot sched avail sl plan f st)"

definition partition_read_for_each_available ::
    "('m, unit) task_context raw_ptr \<Rightarrow> scheduling \<Rightarrow> nonzero_usize option \<Rightarrow> 'a list
       \<Rightarrow> ('a, 'm, unit) read_fn \<Rightarrow> 'm \<Rightarrow> ('m, unit) driven" where
  "partition_read_for_each_available slot sched avail sl f st =
     discard (partition_read_map_available slot sched avail sl f st)"

section \<open>The sequential reference\<close>

text \<open>
  One pass over the elements in order, \<open>c\<close> at a time: what the drivers compute, with no
  threads, no scheduler and no shards.
\<close>

function in_chunks :: "(usize \<Rightarrow> 'a list \<Rightarrow> 'b) \<Rightarrow> nat \<Rightarrow> nat \<Rightarrow> 'a list \<Rightarrow> 'b list" where
  "in_chunks f c start xs =
     (if xs = [] \<or> c = 0 then []
      else f (of_nat start) (take c xs) # in_chunks f c (start + c) (drop c xs))"
  by auto
termination by (relation "measure (\<lambda>(f, c, start, xs). length xs)") auto

declare in_chunks.simps [simp del]

lemma in_chunks_eq:
  assumes "0 < c"
  shows "in_chunks f c start xs =
    map (\<lambda>i. f (of_nat (start + i * c)) (take c (drop (i * c) xs))) [0..<ceil_div (length xs) c]"
  using assms
proof (induction f c start xs rule: in_chunks.induct)
  case (1 f c start xs)
  show ?case
  proof (cases "xs = []")
    case True
    then show ?thesis using 1 by (simp add: in_chunks.simps)
  next
    case False
    then have "ceil_div (length xs) c = Suc (ceil_div (length xs - c) c)"
      using ceil_div_step [of "length xs" c] "1.prems" by simp
    then show ?thesis using 1 False
      by (subst in_chunks.simps) (simp add: map_upt_Suc algebra_simps del: upt_Suc)
  qed
qed

text \<open>The shards of \<open>ParChunks\<close> hold the chunks of the region.\<close>

lemma chunk_read:
  assumes "par_invar p" "unat i < par_count p"
  shows "slice_read (sh_cells (get_unchecked_chunk p i)) mem =
    take (unat (pc_chunk p)) (drop (unat i * unat (pc_chunk p)) (window (pc_base p) (unat (pc_len p)) mem))"
proof -
  note r = par_range_exact [OF assms]
  have "unat (snd (par_range p i)) - unat (fst (par_range p i)) =
      min (unat (pc_chunk p)) (unat (pc_len p) - unat i * unat (pc_chunk p))"
    using r by simp
  then show ?thesis using chunk_slice [OF assms] r(1)
    by (simp add: slice_read_def window_def drop_take add.commute)
qed

lemma chunks_in_order:
  assumes "par_invar p" "pc_base p + unat (pc_len p) \<le> length mem"
  shows "map (\<lambda>i. f (i * pc_chunk p) (slice_read (sh_cells (get_unchecked_chunk p i)) mem))
      (usize_range (of_nat (par_count p)))
    = in_chunks f (unat (pc_chunk p)) 0 (window (pc_base p) (unat (pc_len p)) mem)"
proof -
  let ?c = "unat (pc_chunk p)" and ?xs = "window (pc_base p) (unat (pc_len p)) mem"
  have c: "0 < ?c" using assms(1) by (simp add: par_invar_def unat_gt_0)
  have n: "unat (of_nat (par_count p) :: usize) = par_count p" by (rule unat_par_count [OF assms(1)])
  have "map (\<lambda>i. f (i * pc_chunk p) (slice_read (sh_cells (get_unchecked_chunk p i)) mem))
      (usize_range (of_nat (par_count p)))
    = map (\<lambda>i. f (of_nat (0 + unat i * ?c)) (take ?c (drop (unat i * ?c) ?xs))) (usize_range (of_nat (par_count p)))"
    using chunk_read [OF assms(1), of _ mem] n by (auto simp: word_less_nat_alt)
  also have "\<dots> = map (\<lambda>i. f (of_nat (0 + i * ?c)) (take ?c (drop (i * ?c) ?xs))) (map unat (usize_range (of_nat (par_count p))))"
    by (simp only: map_map comp_def)
  also have "\<dots> = in_chunks f ?c 0 ?xs"
    unfolding map_unat_usize_range n in_chunks_eq [OF c]
    using assms(2) by (simp add: par_count_def length_window)
  finally show ?thesis .
qed

lemma unat_chunk_max: "c \<noteq> 0 \<Longrightarrow> max c 1 = (c :: usize)"
proof -
  assume "c \<noteq> 0"
  then have "1 \<le> unat c" by (simp only: usize_pos_iff)
  then have "1 \<le> c" by (simp add: word_le_nat_alt)
  then show "max c 1 = c" by (rule max_absorb1)
qed

lemma partition_map_with_collected:
  assumes "slice_in cells mem" "unat (meta cells) \<le> isize_max" "\<And>s. keeps_length (f s)"
    and "slot_sound slot" "\<And>n. schedule_of n (sched n)" "scheduler_returns slot"
    and "plan_resolve avail plan (meta cells) = Done c"
  shows "collected (in_chunks f (unat c) 0 (slice_read cells mem)) (positions cells) mem
    (partition_map_with slot sched avail cells plan f mem)"
proof -
  obtain c' where c': "chunk_len_for avail plan (meta cells) = Done c'" "c' \<noteq> 0"
    using chunk_len_for_Done by blast
  then have c: "c \<noteq> 0" using assms(7) by (simp add: plan_resolve_def)
  define p where "p = shard_par_chunks (shard_new cells) (max c 1)"
  have f [simp]: "pc_base p = ptr cells" "pc_len p = meta cells" "pc_chunk p = c"
    using unat_chunk_max [OF c] by (simp_all add: p_def shard_par_chunks_def par_new_def shard_new_def)
  have inv: "par_invar p" using c assms(2) by (simp add: par_invar_def)
  have reg: "pc_base p + unat (pc_len p) \<le> length mem" using assms(1) by (simp add: slice_in_def)
  have n: "par_len p = Done (of_nat (par_count p))" using par_len_count(1) [of p] c by simp
  have body: "(\<lambda>index. let start = index * max c 1; shard = get_unchecked_chunk p index
        in on_shard (shard_into_mut_slice shard) (f start))
      = (\<lambda>i. on_shard (sh_cells (get_unchecked_chunk p i)) (f (i * pc_chunk p)))"
    using unat_chunk_max [OF c] by (simp add: shard_into_mut_slice_def)
  have split: "in_chunks f (unat c) 0 (slice_read cells mem) =
      map (\<lambda>i. f (i * pc_chunk p) (slice_read (sh_cells (get_unchecked_chunk p i)) mem))
        (usize_range (of_nat (par_count p)))"
    using chunks_in_order [OF inv reg, of f] by (simp add: slice_read_def)
  have eq: "partition_map_with slot sched avail cells plan f mem =
      (let n = of_nat (par_count p) in if n = 0 then (Returned [], mem, [])
       else drive slot (sched n) n (\<lambda>i. on_shard (sh_cells (get_unchecked_chunk p i)) (f (i * pc_chunk p))) mem)"
    unfolding partition_map_with_def assms(7) outcome.case Let_def p_def [symmetric] n
    using body by (simp add: Let_def)
  show ?thesis
  proof (cases "(of_nat (par_count p) :: usize) = 0")
    case True
    then show ?thesis using assms(1) unfolding split eq Let_def
      by (simp add: collected_def usize_range_def slice_in_def)
  next
    case False
    then have "1 \<le> unat (of_nat (par_count p) :: usize)" by (simp only: usize_pos_iff)
    then show ?thesis unfolding split eq Let_def using False
        pc.drive_shards [OF inv chunk_in [OF inv reg] assms(3) _ assms(4) assms(5) assms(6), of "\<lambda>i. i * pc_chunk p"]
      by (simp add: positions_def)
  qed
qed

text \<open>A read task slices in bounds and sees its chunk.\<close>

lemma unat_slice_len: "length sl \<le> isize_max \<Longrightarrow> unat (slice_len sl) = length sl"
  by (simp add: slice_len_def isize_max_def unat_of_nat_usize)

lemma read_task_eq:
  assumes "length sl \<le> isize_max" "c \<noteq> 0" "unat i < ceil_div (length sl) (unat c)"
  shows "read_task sl c f i st = f (i * c) (take (unat c) (drop (unat i * unat c) sl)) st"
proof -
  let ?p = "\<lparr>pc_base = 0, pc_len = slice_len sl, pc_chunk = c\<rparr>"
  have l: "unat (slice_len sl) = length sl" by (rule unat_slice_len [OF assms(1)])
  have inv: "par_invar ?p" and i: "unat i < par_count ?p"
    using assms l by (simp_all add: par_invar_def par_count_def)
  note r = par_range_exact [OF inv i]
  have m: "unat (i * c) = unat i * unat c"
    using r(3) unat_mult_usize [of i c] less_trans [OF r(3) unat_usize_bound] by simp
  have "i * c < slice_len sl" using r(3) m by (simp add: word_less_nat_alt)
  then have rng: "par_range ?p i = (i * c, min (i * c + c) (slice_len sl))"
    by (auto simp: par_range_def Let_def min_def)
  have lt: "unat (i * c) < unat (min (i * c + c) (slice_len sl))"
    using par.lo_less_hi [OF inv i] rng by simp
  have le: "unat (min (i * c + c) (slice_len sl)) = min (unat i * unat c + unat c) (length sl)"
    using r(2) rng l by simp
  have "i * c \<le> min (i * c + c) (slice_len sl)" using lt by (simp add: word_le_nat_alt)
  then have "slice_index sl (i * c) (min (i * c + c) (slice_len sl)) =
      Done (take (unat c) (drop (unat i * unat c) sl))"
    unfolding slice_index_def le m window_def
    using r(3) l by (auto simp: min_def take_all_iff)
  then show ?thesis by (simp add: read_task_def)
qed

lemma exec_order_cong:
  assumes "\<And>i m. i \<in> set order \<Longrightarrow> run i m = run' i m"
  shows "exec_order run order mem = exec_order run' order mem"
  using assms by (induction order arbitrary: mem) auto

lemma exec_order_reads:
  assumes "\<And>i. i \<in> set order \<Longrightarrow> run i mem = (g i, mem)"
  shows "exec_order run order mem = (map (\<lambda>i. (i, g i)) order, mem)"
  using assms by (induction order) auto

lemma partition_read_map_with_eq:
  assumes "length sl \<le> isize_max" "plan_resolve avail plan (slice_len sl) = Done c"
  obtains n where "c \<noteq> 0" "unat n = ceil_div (length sl) (unat c)"
    "partition_read_map_with slot sched avail sl plan f st =
      (if n = 0 then (Returned [], st, []) else drive slot (sched n) n (read_task sl c f) st)"
proof -
  obtain c' where c': "chunk_len_for avail plan (slice_len sl) = Done c'" "c' \<noteq> 0"
    using chunk_len_for_Done by blast
  then have c: "c \<noteq> 0" using assms(2) by (simp add: plan_resolve_def)
  obtain n where n: "partition_count (slice_len sl) c = Done n" using partition_count_eq [OF c] by blast
  show thesis
  proof (rule that [OF c])
    show "unat n = ceil_div (length sl) (unat c)"
      using unat_partition_count [OF c n] unat_slice_len [OF assms(1)] by simp
    show "partition_read_map_with slot sched avail sl plan f st =
        (if n = 0 then (Returned [], st, []) else drive slot (sched n) n (read_task sl c f) st)"
      using assms(2) n unat_chunk_max [OF c] by (simp add: partition_read_map_with_def Let_def)
  qed
qed

lemma map_chunks_usize:
  assumes "0 < c" "unat n = ceil_div (length xs) (unat c)"
  shows "map (\<lambda>i. f (i * c) (take (unat c) (drop (unat i * unat c) xs))) (usize_range n) =
    in_chunks f (unat c) 0 xs"
proof -
  have c: "0 < unat c" using assms(1) by (simp add: unat_gt_0)
  have "map (\<lambda>i. f (i * c) (take (unat c) (drop (unat i * unat c) xs))) (usize_range n) =
      map (\<lambda>i. f (of_nat (0 + i * unat c)) (take (unat c) (drop (i * unat c) xs))) (map unat (usize_range n))"
    by (simp only: map_map comp_def) simp
  then show ?thesis unfolding in_chunks_eq [OF c] map_unat_usize_range assms(2) .
qed

lemma plan_resolve_Done: obtains c where "plan_resolve avail plan len = Done c" "1 \<le> unat c"
  using chunk_len_for_Done [of avail plan len] by (auto simp: plan_resolve_def usize_pos_iff)

lemma collected_done_unique:
  assumes "collected rs b mem result" "collected rs b mem result'" "list_all (is_done \<circ> fst) rs"
  shows "result = result'"
  using assms by (auto simp: collected_def split: prod.splits)

lemma in_chunks_done:
  assumes "\<And>s xs. is_done (fst (f s xs))"
  shows "list_all (is_done \<circ> fst) (in_chunks f c start xs)"
  using assms
proof (induction f c start xs rule: in_chunks.induct)
  case (1 f c start xs)
  then show ?case by (subst in_chunks.simps) (simp add: comp_def)
qed

lemma map_in_chunks: "map h (in_chunks f c start xs) = in_chunks (\<lambda>s xs. h (f s xs)) c start xs"
  by (induction f c start xs rule: in_chunks.induct) (subst (1 2) in_chunks.simps, simp)

lemma concat_in_chunks: "0 < c \<Longrightarrow> concat (in_chunks (\<lambda>s xs. xs) c start xs) = xs"
  by (induction "\<lambda>(s :: usize) (xs :: 'a list). xs" c start xs rule: in_chunks.induct)
    (subst in_chunks.simps, simp)

lemma length_concat_in_chunks:
  assumes "0 < c" "\<And>s xs. length (g s xs) = length xs"
  shows "length (concat (in_chunks g c start xs)) = length xs"
  using assms
proof (induction g c start xs rule: in_chunks.induct)
  case (1 g c start xs)
  then show ?case by (subst in_chunks.simps) (simp add: min_def)
qed

text \<open>Tasks that leave the state alone.\<close>

lemma drive_reads:
  assumes "1 \<le> unat n" "slot_sound slot" "schedule_of n sched" "scheduler_returns slot"
    and "\<And>i st. i < n \<Longrightarrow> run i st = (Done (g i), st)"
  shows "drive slot sched n run st = (Returned (map g (usize_range n)), st, [])"
  using assms(1-4)
proof (cases rule: drive_complete [of n slot sched run st])
  case (returned order rs mem' vs)
  have e: "rs = map (\<lambda>i. (i, Done (g i))) order" "mem' = st"
    using exec_order_reads [of order run st "\<lambda>i. Done (g i)"] returned(2) assms(5) schedule_ofD(2) [OF returned(1)]
    by auto
  have "map_of rs i = Some (Done (g i))" if "i < n" for i
    using that schedule_ofD(2) [OF returned(1)] by (simp add: e(1) map_of_map_restrict)
  then have "map (map_of rs) (usize_range n) = map (Some \<circ> Done) (map g (usize_range n))" by simp
  then have "map (Some \<circ> Done) vs = map (Some \<circ> Done) (map g (usize_range n))"
    using returned(4) by simp
  then have "vs = map g (usize_range n)" by (rule map_injective) (simp add: inj_def)
  then show ?thesis using returned(3) e(2) by simp
next
  case (unwound order rs mem' q dropped)
  have "rs = map (\<lambda>i. (i, Done (g i))) order"
    using exec_order_reads [of order run st "\<lambda>i. Done (g i)"] unwound(2) assms(5) schedule_ofD(2) [OF unwound(1)]
    by auto
  then show ?thesis using unwound(4) by auto
qed

section \<open>Properties\<close>

text \<open>C5. \<open>partition_map_with\<close> is the sequential pass over the chunks of the region: for every
  plan, every contract-honouring scheduler (or none) and every order in which the threads
  run, it hands each closure call the right start index and exactly its chunk, returns the
  results in partition order, and leaves the region with the chunks' new contents and the
  rest of memory untouched. If closures panic, the memory is still that one, a panic of
  one of them is re-raised, and every other result is dropped exactly once.\<close>

theorem partition_map_is_sequential:
  assumes "slice_in cells mem" "unat (meta cells) \<le> isize_max" "\<And>s. keeps_length (f s)"
    and "slot_sound slot" "scheduler_returns slot" "\<And>n. schedule_of n (sched n)"
  shows "\<exists>c. plan_resolve avail plan (meta cells) = Done c \<and> 1 \<le> unat c
    \<and> collected (in_chunks f (unat c) 0 (slice_read cells mem)) (positions cells) mem
        (partition_map_with slot sched avail cells plan f mem)"
proof -
  obtain c where c: "plan_resolve avail plan (meta cells) = Done c" "1 \<le> unat c"
    by (rule plan_resolve_Done)
  then show ?thesis using partition_map_with_collected [where f = f and sched = sched, OF assms(1-4,6,5) c(1)] by blast
qed

definition bump :: "(nat, nat) shard_fn" where
  "bump s xs = (if xs = [] then Panicked (UserPanic 0) else Done (unat s + sum_list xs), map Suc xs)"

theorem partition_map_is_sequential_witness:
  "slice_in \<lparr>ptr = 1, meta = 4\<rparr> [5, 6, 7, 8, 9, 10 :: nat] \<and> unat (4 :: usize) \<le> isize_max
   \<and> (\<forall>s. keeps_length (bump s)) \<and> (\<forall>n. schedule_of n (usize_range n))
   \<and> slot_sound (register_parallel_executor sequentially Null :: (nat, nat) slot_ptr)
   \<and> scheduler_returns (register_parallel_executor sequentially Null :: (nat, nat) slot_ptr)
   \<and> partition_map_with (register_parallel_executor sequentially Null) usize_range None
        \<lparr>ptr = 1, meta = 4\<rparr> (plan_chunk_size 3) bump [5, 6, 7, 8, 9, 10]
      = (Returned [21, 12], [5, 7, 8, 9, 10, 10], [])"
proof -
  let ?slot = "register_parallel_executor sequentially Null :: (nat, nat) slot_ptr"
  let ?cells = "\<lparr>ptr = 1, meta = 4\<rparr>" and ?mem = "[5, 6, 7, 8, 9, 10 :: nat]"
  have a: "slice_in ?cells ?mem" by (simp add: slice_in_def)
  have b: "unat (meta ?cells) \<le> isize_max" by (simp add: isize_max_def)
  have k: "keeps_length (bump s)" for s by (simp add: keeps_length_def bump_def)
  have sl: "slot_sound ?slot" by (rule register_sound [OF sequentially_honours])
  have sr: "scheduler_returns ?slot"
    by (simp add: scheduler_returns_def slot_defs execute_eta sequentially_def)
  obtain c where c: "plan_resolve None (plan_chunk_size 3) (meta ?cells) = Done c"
    "collected (in_chunks bump (unat c) 0 (slice_read ?cells ?mem)) (positions ?cells) ?mem
      (partition_map_with ?slot usize_range None ?cells (plan_chunk_size 3) bump ?mem)"
    using partition_map_is_sequential [of ?cells ?mem bump ?slot usize_range None "plan_chunk_size 3",
      OF a b k sl sr schedule_of_range] by blast
  have "c = 3" using c(1) by (simp add: plan_resolve_def plan_chunk_size_def nz_get_nonzero_or_one)
  then have "partition_map_with ?slot usize_range None ?cells (plan_chunk_size 3) bump ?mem
      = (Returned [21, 12], [5, 7, 8, 9, 10, 10], [])"
    using c(2) by (simp add: in_chunks.simps slice_read_def window_def bump_def collected_def
        positions_def upt_rec split: prod.splits)
  then show ?thesis using a b k sl sr by simp
qed

text \<open>Scheduling is unobservable: with closures that do not panic, two calls under different
  schedulers, slots and thread orders return the same values and leave the same memory.\<close>

theorem partition_map_schedule_independent:
  assumes "slice_in cells mem" "unat (meta cells) \<le> isize_max" "\<And>s. keeps_length (f s)"
    and "\<And>s xs. is_done (fst (f s xs))"
    and "slot_sound slot" "scheduler_returns slot" "\<And>n. schedule_of n (sched n)"
    and "slot_sound slot'" "scheduler_returns slot'" "\<And>n. schedule_of n (sched' n)"
  shows "partition_map_with slot sched avail cells plan f mem =
    partition_map_with slot' sched' avail cells plan f mem"
proof -
  obtain c where c: "plan_resolve avail plan (meta cells) = Done c" by (rule plan_resolve_Done)
  show ?thesis
    using partition_map_with_collected [where f = f and sched = sched, OF assms(1-3,5,7,6) c]
      partition_map_with_collected [where f = f and sched = sched', OF assms(1-3,8,10,9) c]
      in_chunks_done [OF assms(4)]
    by (rule collected_done_unique)
qed

definition double :: "(nat, nat) shard_fn" where
  "double s xs = (Done (unat s), map ((*) 2) xs)"

theorem partition_map_schedule_independent_witness:
  "partition_map_with Null (\<lambda>n. rev (usize_range n)) None \<lparr>ptr = 0, meta = 5\<rparr> (plan_parts 4) double [1, 2, 3, 4, 5]
   = partition_map_with (register_parallel_executor sequentially Null) usize_range None
       \<lparr>ptr = 0, meta = 5\<rparr> (plan_parts 4) double [1, 2, 3, 4, 5]"
proof -
  have a: "slice_in \<lparr>ptr = 0, meta = 5\<rparr> [1, 2, 3, 4, 5 :: nat]" by (simp add: slice_in_def)
  have b: "unat (meta \<lparr>ptr = 0, meta = 5\<rparr>) \<le> isize_max" by (simp add: isize_max_def)
  have k: "keeps_length (double s)" "is_done (fst (double s xs))" for s xs
    by (simp_all add: keeps_length_def double_def)
  have n: "slot_sound (Null :: (nat, nat) slot_ptr)" "scheduler_returns (Null :: (nat, nat) slot_ptr)"
    by (simp_all add: slot_sound_def scheduler_returns_def slot_defs)
  have sq: "slot_sound (register_parallel_executor sequentially Null :: (nat, nat) slot_ptr)"
    "scheduler_returns (register_parallel_executor sequentially Null :: (nat, nat) slot_ptr)"
    by (rule register_sound [OF sequentially_honours])
      (simp add: scheduler_returns_def slot_defs execute_eta sequentially_def)
  have r: "schedule_of n (rev (usize_range n))" for n by (simp add: schedule_of_def)
  show ?thesis by (rule partition_map_schedule_independent [OF a b k n r sq schedule_of_range])
qed

lemma partition_read_map_reads:
  assumes "length sl \<le> isize_max"
    and "slot_sound slot" "scheduler_returns slot" "\<And>n. schedule_of n (sched n)"
    and "\<And>s xs st. f s xs st = (Done (g s xs), st)"
  shows "\<exists>c. plan_resolve avail plan (slice_len sl) = Done c \<and> 1 \<le> unat c
    \<and> partition_read_map_with slot sched avail sl plan f st = (Returned (in_chunks g (unat c) 0 sl), st, [])"
proof -
  obtain c where c: "plan_resolve avail plan (slice_len sl) = Done c" "1 \<le> unat c"
    by (rule plan_resolve_Done)
  obtain n where n: "c \<noteq> 0" "unat n = ceil_div (length sl) (unat c)"
    "partition_read_map_with slot sched avail sl plan f st =
      (if n = 0 then (Returned [], st, []) else drive slot (sched n) n (read_task sl c f) st)"
    by (rule partition_read_map_with_eq [OF assms(1) c(1), where slot = slot and sched = sched and f = f and st = st])
  let ?g = "\<lambda>i. g (i * c) (take (unat c) (drop (unat i * unat c) sl))"
  have res: "map ?g (usize_range n) = in_chunks g (unat c) 0 sl"
    using n(1) by (intro map_chunks_usize [OF _ n(2)]) (simp add: word_neq_0_conv)
  have run: "read_task sl c f i st = (Done (?g i), st)" if "i < n" for i st
    using read_task_eq [OF assms(1) n(1), of i f st] that n(2) assms(5) by (simp add: word_less_nat_alt)
  have "partition_read_map_with slot sched avail sl plan f st = (Returned (map ?g (usize_range n)), st, [])"
  proof (cases "n = 0")
    case False
    then have "1 \<le> unat n" by (simp only: usize_pos_iff)
    then show ?thesis unfolding n(3) if_not_P [OF False]
      by (intro drive_reads assms(2-4) run)
  qed (simp add: n(3) usize_range_def)
  then show ?thesis using c res by simp
qed

text \<open>C20. \<open>partition_read_map_with\<close> is the sequential pass over the chunks of the shared slice:
  the bounds checks of the sub-slicing never fail, each closure call sees the right start
  index and chunk, results come back in partition order, and the memory is unchanged, for
  every plan, scheduler and order.\<close>

theorem partition_read_map_is_sequential:
  assumes "length sl \<le> isize_max"
    and "slot_sound slot" "scheduler_returns slot" "\<And>n. schedule_of n (sched n)"
    and "\<And>s xs st. f s xs st = (Done (g s xs), st)"
  shows "\<exists>c. plan_resolve avail plan (slice_len sl) = Done c \<and> 1 \<le> unat c
    \<and> partition_read_map_with slot sched avail sl plan f st = (Returned (in_chunks g (unat c) 0 sl), st, [])"
  using assms by (rule partition_read_map_reads)

theorem partition_read_map_is_sequential_witness:
  "\<exists>c. plan_resolve None (plan_parts 2) (slice_len [4, 5, 6 :: nat]) = Done c \<and> 1 \<le> unat c
    \<and> partition_read_map_with Null usize_range None [4, 5, 6 :: nat] (plan_parts 2)
        (\<lambda>s xs st. (Done (sum_list xs), st)) () =
        (Returned (in_chunks (\<lambda>s xs. sum_list xs) (unat c) 0 [4, 5, 6]), (), [])"
proof -
  have a: "length [4, 5, 6 :: nat] \<le> isize_max" by (simp add: isize_max_def)
  have n: "slot_sound (Null :: (unit, nat) task_context raw_ptr)"
    "scheduler_returns (Null :: (unit, nat) task_context raw_ptr)"
    by (simp_all add: slot_sound_def scheduler_returns_def slot_defs)
  show ?thesis
    using partition_read_map_is_sequential [of "[4, 5, 6]" Null usize_range
        "\<lambda>s xs st. (Done (sum_list xs), st)" "\<lambda>s xs. sum_list xs" None "plan_parts 2" "()",
        OF a n schedule_of_range refl] .
qed

text \<open>The \<open>for_each\<close> entry points: whichever way the plan is chosen (a number of parts, the
  reported parallelism, a plan value), a call with closures that do not panic returns and
  leaves the region as one sequential pass does.\<close>

theorem partition_for_each_is_sequential:
  assumes "slice_in cells mem" "unat (meta cells) \<le> isize_max"
    and "\<And>s xs. length (g s xs) = length xs" "\<And>s xs. f s xs = (Done (), g s xs)"
    and "slot_sound slot" "scheduler_returns slot" "\<And>n. schedule_of n (sched n)"
  shows "(\<exists>c. chunk_len_for avail plan (meta cells) = Done c
      \<and> fst (partition_for_each_with slot sched avail cells plan f mem) = Returned []
      \<and> fst (snd (partition_for_each_with slot sched avail cells plan f mem)) =
         slice_write cells (concat (in_chunks g (unat c) 0 (slice_read cells mem))) mem)
    \<and> partition_for_each slot sched avail cells parts f mem =
      partition_for_each_with slot sched avail cells (plan_parts parts) f mem
    \<and> partition_for_each_available slot sched avail cells f mem =
      partition_for_each_with slot sched avail cells AvailableParallelism f mem"
proof (intro conjI)
  obtain c where c: "plan_resolve avail plan (meta cells) = Done c" by (rule plan_resolve_Done)
  let ?rs = "in_chunks f (unat c) 0 (slice_read cells mem)"
  have k: "keeps_length (f s)" for s using assms(3,4) by (simp add: keeps_length_def)
  have col: "collected ?rs (positions cells) mem (partition_map_with slot sched avail cells plan f mem)"
    by (rule partition_map_with_collected [where sched = sched and f = f, OF assms(1,2) k assms(5,7,6) c])
  have fin: "list_all (is_done \<circ> fst) ?rs" by (rule in_chunks_done) (simp add: assms(4))
  have ms: "map snd ?rs = in_chunks g (unat c) 0 (slice_read cells mem)"
    by (simp add: map_in_chunks assms(4))
  obtain c' where "chunk_len_for avail plan (meta cells) = Done c'" "c' \<noteq> 0"
    using chunk_len_for_Done by blast
  then have "0 < unat c" using c by (simp add: plan_resolve_def unat_gt_0)
  then have "length (concat (in_chunks g (unat c) 0 (slice_read cells mem))) = length (slice_read cells mem)"
    by (intro length_concat_in_chunks assms(3))
  then have "scatter (positions cells) (concat (map snd ?rs)) mem =
      slice_write cells (concat (in_chunks g (unat c) 0 (slice_read cells mem))) mem"
    unfolding ms using assms(1) by (intro scatter_positions) simp_all
  then show "\<exists>c. chunk_len_for avail plan (meta cells) = Done c
      \<and> fst (partition_for_each_with slot sched avail cells plan f mem) = Returned []
      \<and> fst (snd (partition_for_each_with slot sched avail cells plan f mem)) =
         slice_write cells (concat (in_chunks g (unat c) 0 (slice_read cells mem))) mem"
    using c col fin by (auto simp: collected_def partition_for_each_with_def plan_resolve_def split: prod.splits)
qed (simp_all only: partition_for_each_def partition_for_each_with_def partition_map_def
      partition_for_each_available_def partition_map_available_def plan_available_parallelism_def)

definition zero_out :: "(nat, unit) shard_fn" where
  "zero_out s xs = (Done (), map (\<lambda>_. 0) xs)"

theorem partition_for_each_is_sequential_witness:
  "fst (partition_for_each Null usize_range None \<lparr>ptr = 1, meta = 2\<rparr> 2 zero_out [1, 2, 3, 4]) = Returned []
   \<and> fst (snd (partition_for_each Null usize_range None \<lparr>ptr = 1, meta = 2\<rparr> 2 zero_out [1, 2, 3, 4])) = [1, 0, 0, 4]"
proof -
  let ?g = "\<lambda>(s :: usize) (xs :: nat list). map (\<lambda>_. 0 :: nat) xs"
  have a: "slice_in \<lparr>ptr = 1, meta = 2\<rparr> [1, 2, 3, 4 :: nat]" by (simp add: slice_in_def)
  have b: "unat (meta \<lparr>ptr = 1, meta = 2\<rparr>) \<le> isize_max" by (simp add: isize_max_def)
  have n: "slot_sound (Null :: (nat, unit) slot_ptr)" "scheduler_returns (Null :: (nat, unit) slot_ptr)"
    by (simp_all add: slot_sound_def scheduler_returns_def slot_defs)
  have g: "length (?g s xs) = length xs" "zero_out s xs = (Done (), ?g s xs)" for s xs
    by (simp_all add: zero_out_def)
  note t = partition_for_each_is_sequential [where g = ?g and f = zero_out and parts = 2 and avail = None
      and plan = "plan_parts 2", OF a b g n schedule_of_range]
  have "chunk_len_for None (plan_parts 2) 2 = Done 1"
    by (simp add: plan_parts_def nz_get_nonzero_or_one chunk_for_parts_def partition_count_def usize_div_def)
  then show ?thesis using t
    by (simp add: slice_read_def window_def slice_write_def overwrite_def in_chunks.simps)
qed

end
