(* ===== verification/BrandedVec.thy ===== *)
theory BrandedVec
  imports Collections PartitionMap
begin

text \<open>
  \<open>BrandedVec\<close>: \<^verbatim>\<open>src/collections/branded_vec/\<close>, a vector of branded cells. A vector is its
  values and its capacity; its cells are their indices in its buffer, so the views of \<^theory_text>\<open>Cells\<close>
  apply with the buffer as memory, and the partition drivers of \<^theory_text>\<open>PartitionMap\<close> with the
  whole buffer as region.
\<close>

section \<open>Storage: \<^verbatim>\<open>vec.rs\<close>\<close>

text \<open>\<open>Vec<T>\<close> and, the cell being transparent, \<open>Vec<MelinoeCell<T>>\<close>.\<close>

record 'a std_vec =
  vec_items :: "'a list"
  vec_capacity :: nat

record 'a branded_vec =
  bv_cells :: "'a std_vec"

abbreviation bv_items :: "'a branded_vec \<Rightarrow> 'a list" where
  "bv_items v \<equiv> vec_items (bv_cells v)"

definition with_items :: "'a list \<Rightarrow> 'a branded_vec \<Rightarrow> 'a branded_vec" where
  "with_items xs v = v\<lparr>bv_cells := (bv_cells v)\<lparr>vec_items := xs\<rparr>\<rparr>"

text \<open>Room for \<open>n\<close> values, by \<open>Vec\<close>'s growth where there is none.\<close>

definition with_room :: "grow_policy \<Rightarrow> nat \<Rightarrow> 'a branded_vec \<Rightarrow> 'a branded_vec" where
  "with_room grow n v =
     v\<lparr>bv_cells := (bv_cells v)\<lparr>vec_capacity := reserve_cap grow (vec_capacity (bv_cells v)) n\<rparr>\<rparr>"

definition bv_ok :: "'a branded_vec \<Rightarrow> bool" where
  "bv_ok v \<longleftrightarrow> length (bv_items v) \<le> vec_capacity (bv_cells v)"

definition bv_with_capacity :: "grow_policy \<Rightarrow> usize \<Rightarrow> 'a branded_vec" where
  "bv_with_capacity grow capacity = \<lparr>bv_cells = \<lparr>vec_items = [], vec_capacity = reserve_cap grow 0 (unat capacity)\<rparr>\<rparr>"

definition bv_new :: "'a branded_vec" where
  "bv_new = \<lparr>bv_cells = \<lparr>vec_items = [], vec_capacity = 0\<rparr>\<rparr>"

definition bv_len :: "'a branded_vec \<Rightarrow> usize" where
  "bv_len v = of_nat (length (bv_items v))"

definition bv_is_empty :: "'a branded_vec \<Rightarrow> bool" where
  "bv_is_empty v \<longleftrightarrow> bv_items v = []"

definition bv_capacity :: "'a branded_vec \<Rightarrow> nat" where
  "bv_capacity v = vec_capacity (bv_cells v)"

definition bv_as_cells :: "'a branded_vec \<Rightarrow> slice_ref" where
  "bv_as_cells v = \<lparr>ptr = 0, meta = bv_len v\<rparr>"

definition bv_push :: "grow_policy \<Rightarrow> 'a \<Rightarrow> 'a branded_vec \<Rightarrow> 'a branded_vec" where
  "bv_push grow value v = with_items (bv_items v @ [value]) (with_room grow (Suc (length (bv_items v))) v)"

text \<open>\<open>extend\<close> pushes what the iterator yields, and keeps what it pushed when the iterator panics.\<close>

fun bv_extend ::
    "grow_policy \<Rightarrow> ('a, 's) producer list \<Rightarrow> 's \<Rightarrow> 'a branded_vec \<Rightarrow> unit outcome \<times> 's \<times> 'a branded_vec" where
  "bv_extend grow [] s v = (Done (), s, v)"
| "bv_extend grow (g # gs) s v =
     (case g s of
        (Panicked p, s) \<Rightarrow> (Panicked p, s, v)
      | (Done x, s) \<Rightarrow> bv_extend grow gs s (bv_push grow x v))"

definition bv_from_fn ::
    "grow_policy \<Rightarrow> usize \<Rightarrow> (usize \<Rightarrow> ('a, 's) producer) \<Rightarrow> 's \<Rightarrow> 'a branded_vec outcome \<times> 's" where
  "bv_from_fn grow len generate s =
     (let (r, s, values) = bv_extend grow (map generate (usize_range len)) s (bv_with_capacity grow len)
      in (map_done (\<lambda>_. values) r, s))"

definition bv_from_iter ::
    "grow_policy \<Rightarrow> ('a, 's) producer list \<Rightarrow> 's \<Rightarrow> 'a branded_vec outcome \<times> 's" where
  "bv_from_iter grow it s =
     (let (r, s, values) = bv_extend grow it s bv_new in (map_done (\<lambda>_. values) r, s))"

definition bv_from :: "'a std_vec \<Rightarrow> 'a branded_vec" where
  "bv_from values = \<lparr>bv_cells = \<lparr>vec_items = vec_items values, vec_capacity = vec_capacity values\<rparr>\<rparr>"

definition bv_into_vec :: "'a branded_vec \<Rightarrow> 'a std_vec" where
  "bv_into_vec v = \<lparr>vec_items = vec_items (bv_cells v), vec_capacity = vec_capacity (bv_cells v)\<rparr>"

definition bv_into_iter :: "'a branded_vec \<Rightarrow> 'a list" where
  "bv_into_iter v = vec_items (bv_into_vec v)"

section \<open>Operations: \<^verbatim>\<open>ops.rs\<close>\<close>

definition bv_pop :: "'a branded_vec \<Rightarrow> 'a option \<times> 'a branded_vec" where
  "bv_pop v =
     (if bv_items v = [] then (None, v)
      else (Some (last (bv_items v)), with_items (butlast (bv_items v)) v))"

definition bv_insert :: "grow_policy \<Rightarrow> usize \<Rightarrow> 'a \<Rightarrow> 'a branded_vec \<Rightarrow> unit outcome \<times> 'a branded_vec" where
  "bv_insert grow index value v =
     (if length (bv_items v) < unat index then (Panicked IndexOutOfBounds, v)
      else (Done (), with_items (take (unat index) (bv_items v) @ value # drop (unat index) (bv_items v))
                       (with_room grow (Suc (length (bv_items v))) v)))"

definition bv_remove :: "usize \<Rightarrow> 'a branded_vec \<Rightarrow> 'a outcome \<times> 'a branded_vec" where
  "bv_remove index v =
     (if unat index < length (bv_items v)
      then (Done (bv_items v ! unat index),
            with_items (take (unat index) (bv_items v) @ drop (Suc (unat index)) (bv_items v)) v)
      else (Panicked IndexOutOfBounds, v))"

text \<open>The last value takes the removed one's place.\<close>

definition bv_swap_remove :: "usize \<Rightarrow> 'a branded_vec \<Rightarrow> 'a outcome \<times> 'a branded_vec" where
  "bv_swap_remove index v =
     (if unat index < length (bv_items v)
      then (Done (bv_items v ! unat index),
            with_items (butlast ((bv_items v)[unat index := last (bv_items v)])) v)
      else (Panicked IndexOutOfBounds, v))"

definition bv_swap :: "usize \<Rightarrow> usize \<Rightarrow> 'a branded_vec \<Rightarrow> unit outcome \<times> 'a branded_vec" where
  "bv_swap a b v =
     (if unat a < length (bv_items v) \<and> unat b < length (bv_items v)
      then (Done (), with_items (list_swap (unat a) (unat b) (bv_items v)) v)
      else (Panicked IndexOutOfBounds, v))"

definition bv_reserve :: "grow_policy \<Rightarrow> usize \<Rightarrow> 'a branded_vec \<Rightarrow> 'a branded_vec" where
  "bv_reserve grow additional v = with_room grow (length (bv_items v) + unat additional) v"

definition bv_clear :: "'a branded_vec \<Rightarrow> 'a branded_vec" where
  "bv_clear v = with_items [] v"

definition bv_truncate :: "usize \<Rightarrow> 'a branded_vec \<Rightarrow> 'a branded_vec" where
  "bv_truncate len v = with_items (take (unat len) (bv_items v)) v"

definition bv_shrink_to_fit :: "'a branded_vec \<Rightarrow> 'a branded_vec" where
  "bv_shrink_to_fit v = v\<lparr>bv_cells := (bv_cells v)\<lparr>vec_capacity := length (bv_items v)\<rparr>\<rparr>"

definition bv_resize_with ::
    "grow_policy \<Rightarrow> usize \<Rightarrow> ('a, 's) producer \<Rightarrow> 's \<Rightarrow> 'a branded_vec \<Rightarrow> unit outcome \<times> 's \<times> 'a branded_vec" where
  "bv_resize_with grow new_len f s v =
     (if length (bv_items v) < unat new_len
      then bv_extend grow (replicate (unat new_len - length (bv_items v)) f) s
             (bv_reserve grow (new_len - bv_len v) v)
      else (Done (), s, bv_truncate new_len v))"

definition bv_retain_mut ::
    "('a, 's) keep \<Rightarrow> 's \<Rightarrow> 'a branded_vec \<Rightarrow> unit outcome \<times> 's \<times> 'a branded_vec" where
  "bv_retain_mut f s v = (let (r, xs, s) = retained f (bv_items v) s in (r, s, with_items xs v))"

definition into_boxed_cells :: "'a branded_vec \<Rightarrow> 'a list" where
  "into_boxed_cells v = bv_items v"

definition bv_drain :: "bound \<Rightarrow> bound \<Rightarrow> 'a branded_vec \<Rightarrow> 'a branded_drain outcome \<times> 'a branded_vec" where
  "bv_drain lo hi v =
     (case range_resolve lo hi (length (bv_items v)) of
        Panicked p \<Rightarrow> (Panicked p, v)
      | Done (a, b) \<Rightarrow>
          (Done \<lparr>dr_inner = take (b - a) (drop a (bv_items v))\<rparr>,
           with_items (take a (bv_items v) @ drop b (bv_items v)) v))"

definition bv_split_off :: "grow_policy \<Rightarrow> usize \<Rightarrow> 'a branded_vec \<Rightarrow> 'a branded_vec outcome \<times> 'a branded_vec" where
  "bv_split_off grow at v =
     (if length (bv_items v) < unat at then (Panicked IndexOutOfBounds, v)
      else (Done (with_items (drop (unat at) (bv_items v)) (with_room grow (length (bv_items v) - unat at) bv_new)),
            with_items (take (unat at) (bv_items v)) v))"

definition bv_append :: "grow_policy \<Rightarrow> 'a branded_vec \<Rightarrow> 'a branded_vec \<Rightarrow> 'a branded_vec \<times> 'a branded_vec" where
  "bv_append grow v other =
     (with_items (bv_items v @ bv_items other) (with_room grow (length (bv_items v) + length (bv_items other)) v),
      with_items [] other)"

section \<open>Views: \<^verbatim>\<open>views.rs\<close>\<close>

definition bv_get :: "usize \<Rightarrow> 'a branded_vec \<Rightarrow> ('a list, 'a) melinoe_ref option" where
  "bv_get index v =
     (if unat index < length (bv_items v) then Some (cell_borrow (slice_cell (bv_as_cells v) index)) else None)"

definition bv_get_mut :: "usize \<Rightarrow> 'a branded_vec \<Rightarrow> ('a list, 'a) melinoe_mut option" where
  "bv_get_mut index v =
     (if unat index < length (bv_items v) then Some (cell_borrow_mut (slice_cell (bv_as_cells v) index)) else None)"

definition bv_as_slice :: "'a branded_vec \<Rightarrow> 'a list" where
  "bv_as_slice v = borrow_slice (bv_as_cells v) (bv_items v)"

definition bv_as_mut_slice :: "'a branded_vec \<Rightarrow> slice_ref" where
  "bv_as_mut_slice v = borrow_slice_mut (bv_as_cells v)"

definition bv_borrow_cow :: "('a \<Rightarrow> 'a) \<Rightarrow> 'a branded_vec \<Rightarrow> 'a cow" where
  "bv_borrow_cow clone v = borrow_cow clone (bv_as_cells v) (bv_items v)"

definition bv_retain_cow :: "('a \<Rightarrow> 'a) \<Rightarrow> 'a branded_vec \<Rightarrow> 'a cow" where
  "bv_retain_cow clone v = retain_cow clone (bv_as_cells v) (bv_items v)"

definition bv_cow_with :: "('a \<Rightarrow> 'a) \<Rightarrow> cow_policy \<Rightarrow> 'a branded_vec \<Rightarrow> 'a cow" where
  "bv_cow_with clone policy v = borrow_cow_with clone (bv_as_cells v) policy (bv_items v)"

definition bv_cow_if :: "('a \<Rightarrow> 'a) \<Rightarrow> retain_decision \<Rightarrow> 'a branded_vec \<Rightarrow> 'a cow" where
  "bv_cow_if clone decision v = borrow_cow_if clone (bv_as_cells v) decision (bv_items v)"

definition bv_clone_with :: "grow_policy \<Rightarrow> ('a \<Rightarrow> 'a) \<Rightarrow> 'a branded_vec \<Rightarrow> 'a branded_vec outcome" where
  "bv_clone_with grow clone v =
     fst (bv_from_iter grow (map (\<lambda>x s. (Done (clone x), s)) (bv_as_slice v)) ())"

section \<open>Generation: \<^verbatim>\<open>generation.rs\<close>\<close>

text \<open>A panic of the generator unwinds out of the scope before \<open>f\<close> is called.\<close>

definition with_generated ::
    "grow_policy \<Rightarrow> thread \<Rightarrow> usize \<Rightarrow> (usize \<Rightarrow> ('a, 's) producer)
       \<Rightarrow> ('a branded_vec \<Rightarrow> brand \<Rightarrow> 's \<times> world \<Rightarrow> 'r outcome \<times> 's \<times> world) \<Rightarrow> 's \<Rightarrow> world
       \<Rightarrow> 'r outcome \<times> 's \<times> world" where
  "with_generated grow t len generate f s w =
     brand_scope t (\<lambda>token w.
       case bv_from_fn grow len generate s of
         (Panicked p, s) \<Rightarrow> (Panicked p, s, w)
       | (Done v, s) \<Rightarrow> f v token (s, w)) w"

section \<open>Partitioned phases: \<^verbatim>\<open>partition.rs\<close>\<close>

definition bv_partition_map_mut_with ::
    "('a, 'r) slot_ptr \<Rightarrow> scheduling \<Rightarrow> nonzero_usize option \<Rightarrow> partition_plan
       \<Rightarrow> ('a, 'r) shard_fn \<Rightarrow> 'a branded_vec \<Rightarrow> ('a list, 'r) driven" where
  "bv_partition_map_mut_with slot sched avail plan f v =
     partition_map_with slot sched avail (bv_as_cells v) plan (\<lambda>start shard. f start shard) (bv_items v)"

definition bv_partition_for_each_mut_with ::
    "('a, unit) slot_ptr \<Rightarrow> scheduling \<Rightarrow> nonzero_usize option \<Rightarrow> partition_plan
       \<Rightarrow> ('a, unit) shard_fn \<Rightarrow> 'a branded_vec \<Rightarrow> ('a list, unit) driven" where
  "bv_partition_for_each_mut_with slot sched avail plan f v =
     partition_for_each_with slot sched avail (bv_as_cells v) plan (\<lambda>start shard. f start shard) (bv_items v)"

definition bv_partition_map_with ::
    "('m, 'r) task_context raw_ptr \<Rightarrow> scheduling \<Rightarrow> nonzero_usize option \<Rightarrow> partition_plan
       \<Rightarrow> ('a, 'm, 'r) read_fn \<Rightarrow> 'a branded_vec \<Rightarrow> 'm \<Rightarrow> ('m, 'r) driven" where
  "bv_partition_map_with slot sched avail plan f v st =
     partition_read_map_with slot sched avail (bv_as_slice v) plan f st"

definition bv_partition_for_each_with ::
    "('m, unit) task_context raw_ptr \<Rightarrow> scheduling \<Rightarrow> nonzero_usize option \<Rightarrow> partition_plan
       \<Rightarrow> ('a, 'm, unit) read_fn \<Rightarrow> 'a branded_vec \<Rightarrow> 'm \<Rightarrow> ('m, unit) driven" where
  "bv_partition_for_each_with slot sched avail plan f v st =
     partition_read_for_each_with slot sched avail (bv_as_slice v) plan f st"

section \<open>The storage invariant and the shared contract\<close>

lemma bv_simps [simp]:
  "bv_items (with_items xs v) = xs"
  "bv_items (with_room grow n v) = bv_items v"
  "bv_items (bv_push grow x v) = bv_items v @ [x]"
  "bv_items bv_new = []"
  "bv_items (bv_with_capacity grow c) = []"
  "with_items (bv_items v) v = v"
  "with_items xs (with_items ys v) = with_items xs v"
  by (simp_all add: with_items_def with_room_def bv_push_def bv_new_def bv_with_capacity_def)

lemma bv_ok_with_items: "length xs \<le> length (bv_items v) \<Longrightarrow> bv_ok v \<Longrightarrow> bv_ok (with_items xs v)"
  by (simp add: bv_ok_def with_items_def)

lemma bv_ok_with_room:
  "grows_enough grow \<Longrightarrow> length xs \<le> n \<Longrightarrow> bv_ok (with_items xs (with_room grow n v))"
  unfolding bv_ok_def with_items_def with_room_def
  by simp (rule order_trans [OF _ reserve_cap_enough])

lemma bv_ok_cut: "bv_ok v \<Longrightarrow> a \<le> b \<Longrightarrow> bv_ok (with_items (take a (bv_items v) @ drop b (bv_items v)) v)"
  by (rule bv_ok_with_items) auto

lemma bv_ok_push: "grows_enough grow \<Longrightarrow> bv_ok (bv_push grow x v)"
  by (simp add: bv_push_def bv_ok_with_room)

lemma produce_length:
  "produce gs s = (r, xs, s') \<Longrightarrow> length xs \<le> length gs \<and> (r = Done () \<longrightarrow> length xs = length gs)"
proof (induction gs arbitrary: s xs)
  case (Cons g gs)
  then show ?case by (fastforce split: prod.splits outcome.splits)
qed auto

interpretation bv: growable "\<lambda>v. grows_enough grow \<and> bv_ok v" bv_items "bv_push grow" bv_pop
  "bv_split_off grow" "bv_append grow" bv_drain for grow
proof
  fix c d :: "'a branded_vec" and x at lo hi p a b
  assume c: "grows_enough grow \<and> bv_ok c"
  show "grows_enough grow \<and> bv_ok (bv_push grow x c)" "bv_items (bv_push grow x c) = bv_items c @ [x]"
    using c by (simp_all add: bv_ok_push)
  show "grows_enough grow \<and> bv_ok (snd (bv_pop c))" "bv_items (snd (bv_pop c)) = butlast (bv_items c)"
    "fst (bv_pop c) = (if bv_items c = [] then None else Some (last (bv_items c)))"
    using c by (simp_all add: bv_pop_def bv_ok_with_items)
  show "length (bv_items c) < unat at \<Longrightarrow> bv_split_off grow at c = (Panicked IndexOutOfBounds, c)"
    by (simp add: bv_split_off_def)
  show "unat at \<le> length (bv_items c) \<Longrightarrow>
      \<exists>r c'. bv_split_off grow at c = (Done r, c') \<and> (grows_enough grow \<and> bv_ok r) \<and> (grows_enough grow \<and> bv_ok c')
        \<and> bv_items r = drop (unat at) (bv_items c) \<and> bv_items c' = take (unat at) (bv_items c)"
    using c by (simp add: bv_split_off_def bv_ok_with_items bv_ok_with_room)
  show "grows_enough grow \<and> bv_ok d \<Longrightarrow>
      \<exists>c' d'. bv_append grow c d = (c', d') \<and> (grows_enough grow \<and> bv_ok c') \<and> (grows_enough grow \<and> bv_ok d')
        \<and> bv_items c' = bv_items c @ bv_items d \<and> bv_items d' = []"
    using c by (simp add: bv_append_def bv_ok_with_items bv_ok_with_room)
  show "range_resolve lo hi (length (bv_items c)) = Panicked p \<Longrightarrow> bv_drain lo hi c = (Panicked p, c)"
    by (simp add: bv_drain_def)
  show "range_resolve lo hi (length (bv_items c)) = Done (a, b) \<Longrightarrow>
      \<exists>d c'. bv_drain lo hi c = (Done d, c') \<and> (grows_enough grow \<and> bv_ok c')
        \<and> dr_inner d = take (b - a) (drop a (bv_items c)) \<and> bv_items c' = take a (bv_items c) @ drop b (bv_items c)"
    using c range_resolve_Done [of lo hi "length (bv_items c)" a b] by (simp add: bv_drain_def bv_ok_cut)
qed

lemma bv_extend_eq:
  assumes "bv_extend grow gs s v = (r, s', v')" "grows_enough grow" "bv_ok v"
  shows "\<exists>xs. produce gs s = (r, xs, s') \<and> bv_items v' = bv_items v @ xs \<and> bv_ok v'"
  using bv.extend_produces [where ext = "bv_extend grow" and grow = grow, OF _ _ assms(1)] assms(2,3) by simp

section \<open>Properties\<close>

lemma list_swap_twice: "a < length xs \<Longrightarrow> b < length xs \<Longrightarrow> list_swap a b (list_swap a b xs) = xs"
  by (rule nth_equalityI) (auto simp: list_swap_def nth_list_update)

lemma list_swap_mset: "a < length xs \<Longrightarrow> b < length xs \<Longrightarrow> mset (list_swap a b xs) = mset xs"
  unfolding list_swap_def by (rule mset_swap)

lemma length_list_swap [simp]: "length (list_swap a b xs) = length xs"
  by (simp add: list_swap_def)

lemma swap_remove_mset:
  assumes "i < length xs"
  shows "add_mset (xs ! i) (mset (butlast (xs[i := last xs]))) = mset xs"
proof -
  obtain ys y where xs: "xs = ys @ [y]" using assms by (cases xs rule: rev_cases) auto
  show ?thesis
  proof (cases "i = length ys")
    case False
    with assms xs have "i < length ys" by simp
    then show ?thesis by (simp add: xs nth_append list_update_append butlast_append mset_update)
  qed (simp add: xs)
qed

lemma remove_ok:
  assumes "bv_ok v"
  shows "bv_ok (snd (bv_remove i v))" "bv_ok (snd (bv_swap_remove i v))" "bv_ok (snd (bv_swap i j v))"
  using assms by (simp_all add: bv_remove_def bv_swap_remove_def bv_swap_def bv_ok_cut bv_ok_with_items)

text \<open>C29. The index operations of a branded vector. \<open>insert\<close> then \<open>remove\<close> at the same index gives
  the value and the old vector back; \<open>swap\<close> is its own inverse and moves no other value;
  \<open>swap_remove\<close> returns the value at the index and loses no other. An index out
  of range panics, and then nothing has changed. The values always fit the capacity.\<close>

lemma vec_index_operations:
  assumes "bv_ok v" "grows_enough grow"
  shows "(unat i \<le> length (bv_items v) \<longrightarrow>
       (case bv_insert grow i x v of (r, v1) \<Rightarrow> r = Done () \<and> bv_ok v1
          \<and> map_prod id bv_items (bv_remove i v1) = (Done x, bv_items v)))
    \<and> (unat i < length (bv_items v) \<and> unat j < length (bv_items v) \<longrightarrow>
       (case bv_swap i j v of (r, v1) \<Rightarrow> r = Done () \<and> bv_ok v1 \<and> bv_swap i j v1 = (Done (), v)
          \<and> mset (bv_items v1) = mset (bv_items v)
          \<and> (\<forall>k. k \<noteq> unat i \<and> k \<noteq> unat j \<longrightarrow> bv_items v1 ! k = bv_items v ! k)))
    \<and> (unat i < length (bv_items v) \<longrightarrow>
       (case bv_swap_remove i v of (r, v1) \<Rightarrow> r = Done (bv_items v ! unat i) \<and> bv_ok v1
          \<and> add_mset (bv_items v ! unat i) (mset (bv_items v1)) = mset (bv_items v)))
    \<and> (length (bv_items v) < unat i \<longrightarrow> bv_insert grow i x v = (Panicked IndexOutOfBounds, v))
    \<and> (length (bv_items v) \<le> unat i \<longrightarrow> bv_remove i v = (Panicked IndexOutOfBounds, v)
          \<and> bv_swap_remove i v = (Panicked IndexOutOfBounds, v)
          \<and> bv_swap i j v = (Panicked IndexOutOfBounds, v) \<and> bv_swap j i v = (Panicked IndexOutOfBounds, v))"
proof (intro conjI impI)
  assume "unat i \<le> length (bv_items v)"
  then show "case bv_insert grow i x v of (r, v1) \<Rightarrow> r = Done () \<and> bv_ok v1
          \<and> map_prod id bv_items (bv_remove i v1) = (Done x, bv_items v)"
    using assms by (simp add: bv_insert_def bv_remove_def bv_ok_with_room nth_append)
next
  assume "unat i < length (bv_items v) \<and> unat j < length (bv_items v)"
  then show "case bv_swap i j v of (r, v1) \<Rightarrow> r = Done () \<and> bv_ok v1 \<and> bv_swap i j v1 = (Done (), v)
          \<and> mset (bv_items v1) = mset (bv_items v)
          \<and> (\<forall>k. k \<noteq> unat i \<and> k \<noteq> unat j \<longrightarrow> bv_items v1 ! k = bv_items v ! k)"
    using assms(1) by (simp add: bv_swap_def bv_ok_with_items list_swap_twice list_swap_mset)
      (simp add: list_swap_def)
next
  assume "unat i < length (bv_items v)"
  then show "case bv_swap_remove i v of (r, v1) \<Rightarrow> r = Done (bv_items v ! unat i) \<and> bv_ok v1
          \<and> add_mset (bv_items v ! unat i) (mset (bv_items v1)) = mset (bv_items v)"
    using assms(1) by (simp add: bv_swap_remove_def bv_ok_with_items swap_remove_mset)
qed (simp_all add: bv_insert_def bv_remove_def bv_swap_remove_def bv_swap_def)

definition exactly :: grow_policy where
  "exactly cap need = need"

lemma exactly_grows [simp]: "grows_enough exactly"
  by (simp add: grows_enough_def exactly_def)

definition three_values :: "nat branded_vec" where
  "three_values = bv_from \<lparr>vec_items = [4, 5, 6], vec_capacity = 3\<rparr>"

lemma three_values_ok [simp]: "bv_ok three_values" "bv_items three_values = [4, 5, 6]"
  by (simp_all add: three_values_def bv_from_def bv_ok_def)

lemma vec_index_operations_witness:
  "map_prod id bv_items (bv_remove 1 (snd (bv_insert exactly 1 9 three_values))) = (Done 9, [4, 5, 6])
   \<and> bv_swap 0 3 three_values = (Panicked IndexOutOfBounds, three_values)"
proof -
  note * = vec_index_operations [OF three_values_ok(1) exactly_grows]
  from * [of 1 9 0] have "map_prod id bv_items (bv_remove 1 (snd (bv_insert exactly 1 9 three_values))) = (Done 9, [4, 5, 6])"
    by (simp add: split_def)
  with * [of 3 9 0] show ?thesis by simp
qed

lemma retained_length: "retained f xs s = (r, ys, s') \<Longrightarrow> length ys \<le> length xs"
proof (induction f xs s arbitrary: r ys s' rule: retained.induct)
  case (2 f x xs s)
  then show ?case by (fastforce split: prod.splits outcome.splits if_splits)
qed simp

lemma retained_pure: "(\<And>x s. f x s = ((Done (P x), x), s)) \<Longrightarrow> retained f xs s = (Done (), filter P xs, s)"
  by (induction xs) simp_all

lemma retained_panic:
  "retained f xs s = (Panicked p, ys, s') \<Longrightarrow>
     \<exists>k x' s1 kept. k < length xs \<and> retained f (take k xs) s = (Done (), kept, s1)
       \<and> f (xs ! k) s1 = ((Panicked p, x'), s') \<and> ys = kept @ x' # drop (Suc k) xs"
proof (induction xs arbitrary: s ys)
  case (Cons x xs)
  obtain q x1 s1 where f: "f x s = ((q, x1), s1)" by (metis prod.collapse)
  show ?case
  proof (cases q)
    case (Panicked p')
    with Cons.prems f have "p' = p" "ys = x1 # xs" "s1 = s'" by simp_all
    with f Panicked have "0 < length (x # xs) \<and> retained f (take 0 (x # xs)) s = (Done (), [], s)
       \<and> f ((x # xs) ! 0) s = ((Panicked p, x1), s') \<and> ys = [] @ x1 # drop (Suc 0) (x # xs)" by simp
    then show ?thesis by blast
  next
    case (Done keep)
    obtain ys1 where r: "retained f xs s1 = (Panicked p, ys1, s')" "ys = (if keep then x1 # ys1 else ys1)"
      using Cons.prems f Done by (auto split: prod.splits)
    from Cons.IH [OF r(1)] obtain k x' s2 kept where k: "k < length xs"
      "retained f (take k xs) s1 = (Done (), kept, s2)" "f (xs ! k) s2 = ((Panicked p, x'), s')"
      "ys1 = kept @ x' # drop (Suc k) xs" by blast
    let ?kept = "if keep then x1 # kept else kept"
    have "Suc k < length (x # xs) \<and> retained f (take (Suc k) (x # xs)) s = (Done (), ?kept, s2)
       \<and> f ((x # xs) ! Suc k) s2 = ((Panicked p, x'), s') \<and> ys = ?kept @ x' # drop (Suc (Suc k)) (x # xs)"
      using f Done r k by simp
    then show ?thesis by blast
  qed
qed simp

lemma produce_panic_length: "produce gs s = (Panicked p, xs, s') \<Longrightarrow> length xs < length gs"
proof (induction gs arbitrary: s xs)
  case (Cons g gs)
  then show ?case by (fastforce split: prod.splits outcome.splits)
qed simp



lemma bv_from_fn_eq:
  assumes "grows_enough grow"
  shows "\<exists>v. bv_from_fn grow len generate s =
       (case produce (map generate (usize_range len)) s of (r, xs, s') \<Rightarrow> (map_done (\<lambda>_. v) r, s'))
     \<and> bv_items v = fst (snd (produce (map generate (usize_range len)) s))
     \<and> bv_ok v"
proof -
  let ?gs = "map generate (usize_range len)"
  obtain r s' v where b: "bv_extend grow ?gs s (bv_with_capacity grow len) = (r, s', v)" by (metis prod_cases3)
  have "bv_ok (bv_with_capacity grow len :: 'a branded_vec)" by (simp add: bv_ok_def)
  from bv_extend_eq [OF b assms this] obtain xs where
    "produce ?gs s = (r, xs, s')" "bv_items v = xs" "bv_ok v" by auto
  then show ?thesis using b by (intro exI [of _ v]) (simp add: bv_from_fn_def)
qed

text \<open>\<open>with_generated\<close>: the callback gets a brand that no token, permit or cell of the state has,
  and a vector holding one value per index, in index order, as the generator produced them. A
  generator that panics is not called again, the callback is never called, and the panic
  is passed on.\<close>

lemma with_generated_builds_in_order:
  assumes "reachable w" "grows_enough grow"
  shows "\<exists>b w' v. w_owners w b = None \<and> (\<forall>k p. w_permits w k = Some p \<longrightarrow> pr_brand p \<noteq> b)
    \<and> w_owners w' = (w_owners w)(b \<mapsto> \<lparr>ow_family = ExclusiveFamily, ow_thread = t\<rparr>)
    \<and> (\<forall>f :: 'a branded_vec \<Rightarrow> brand \<Rightarrow> 's \<times> world \<Rightarrow> 'r outcome \<times> 's \<times> world.
         with_generated grow t len generate f s w =
         (case produce (map generate (usize_range len)) s of
            (Panicked p, _, s') \<Rightarrow> (Panicked p, s', w')
          | (Done _, _, s') \<Rightarrow> f v b (s', w')))
    \<and> bv_ok v
    \<and> (case produce (map generate (usize_range len)) s of
         (Panicked p, xs, s') \<Rightarrow> length xs < unat len
       | (Done _, xs, s') \<Rightarrow> bv_items v = xs \<and> length xs = unat len)"
proof -
  let ?b = "w_brand w"
  let ?w = "w\<lparr>w_brand := Suc ?b,
      w_owners := (w_owners w)(?b \<mapsto> \<lparr>ow_family = ExclusiveFamily, ow_thread = t\<rparr>)\<rparr>"
  note new = brand_unused [OF reachable_inv [OF assms(1)] order_refl]
  obtain r xs s' where p: "produce (map generate (usize_range len)) s = (r, xs, s')" by (metis prod_cases3)
  obtain v where v: "bv_from_fn grow len generate s = (map_done (\<lambda>_. v) r, s')" "bv_items v = xs" "bv_ok v"
    using bv_from_fn_eq [OF assms(2), of len generate s] p by auto
  have "with_generated grow t len generate f s w
      = (case r of Panicked p \<Rightarrow> (Panicked p, s', ?w) | Done _ \<Rightarrow> f v ?b (s', ?w))"
    for f :: "'a branded_vec \<Rightarrow> brand \<Rightarrow> 's \<times> world \<Rightarrow> 'r outcome \<times> 's \<times> world"
    by (cases r) (simp_all add: with_generated_def brand_scope_def with_fresh_token_def
        with_fresh_brand_def mint_def Let_def v(1))
  with p v new produce_length [OF p] produce_panic_length [of "map generate (usize_range len)" s _ xs s']
  show ?thesis
    by (intro exI [of _ ?b] exI [of _ ?w] exI [of _ v]) (cases r; simp)
qed

lemma with_generated_builds_in_order_witness:
  "\<exists>b. w_owners one_writer b = None
     \<and> fst (with_generated exactly 0 3 (\<lambda>i s. (Done (unat i * unat i), s)) (\<lambda>v b s. (Done (bv_items v), s)) () one_writer)
         = Done [0, 1, 4]"
proof -
  have r: "reachable one_writer" by (rule run_ops_reachable [OF start one_writer_run])
  have n: "usize_range 3 = [0, 1, 2]" by (simp add: usize_range_def upt_rec)
  show ?thesis
    using with_generated_builds_in_order [where 'r = "nat list", OF r exactly_grows, of 0 3 "\<lambda>i s. (Done (unat i * unat i), s)" "()"]
    by (auto simp: n)
qed

lemma bv_region:
  assumes "length (bv_items v) \<le> isize_max"
  shows "slice_in (bv_as_cells v) (bv_items v)" "unat (meta (bv_as_cells v)) \<le> isize_max"
    "slice_read (bv_as_cells v) (bv_items v) = bv_items v" "bv_as_slice v = bv_items v"
    "positions (bv_as_cells v) = [0..<length (bv_items v)]"
proof -
  have "length (bv_items v) < 2 ^ 64" using assms by (simp add: isize_max_def)
  then have len: "unat (bv_len v) = length (bv_items v)" by (simp add: bv_len_def unat_of_nat_usize)
  with assms show "slice_in (bv_as_cells v) (bv_items v)" "unat (meta (bv_as_cells v)) \<le> isize_max"
    by (simp_all add: bv_as_cells_def slice_in_def)
  from len show r: "slice_read (bv_as_cells v) (bv_items v) = bv_items v"
    by (simp add: bv_as_cells_def slice_read_def window_def)
  from r show "bv_as_slice v = bv_items v"
    by (simp add: bv_as_slice_def borrow_slice_def)
  from len show "positions (bv_as_cells v) = [0..<length (bv_items v)]"
    by (simp add: positions_def bv_as_cells_def)
qed

lemma scatter_all:
  assumes "length ys = length xs"
  shows "scatter [0..<length xs] ys xs = ys"
proof -
  have "gather [0..<length xs] (scatter [0..<length xs] ys xs) = ys"
    by (rule gather_scatter) (auto simp: assms)
  moreover have "gather [0..<length xs] zs = zs" if "length zs = length xs" for zs :: "'a list"
    using that by (simp add: gather_def map_nth flip: that)
  ultimately show ?thesis by (metis length_scatter)
qed

text \<open>C19. A partitioned phase over a branded vector. For every plan, executor and order of the
  shards, the mutable driver with a closure that does not panic returns the results
  of one sequential pass in order and leaves exactly the vector that pass leaves; the shared driver
  returns the results of the pass and changes nothing. Both see the chunks and start
  indices of the same chunk length.\<close>

lemma vec_partition_is_sequential:
  assumes "length (bv_items v) \<le> isize_max"
    and "\<And>s xs. length (h s xs) = length xs" "\<And>s xs. f s xs = (Done (g s xs), h s xs)"
    and "slot_sound slot" "scheduler_returns slot"
    and "slot_sound slot'" "scheduler_returns slot'" "\<And>n. schedule_of n (sched n)"
  shows "\<exists>c. plan_resolve avail plan (bv_len v) = Done c \<and> 1 \<le> unat c
    \<and> bv_partition_map_mut_with slot sched avail plan f v =
        (Returned (in_chunks g (unat c) 0 (bv_items v)), concat (in_chunks h (unat c) 0 (bv_items v)), [])
    \<and> bv_partition_map_with slot' sched avail plan (\<lambda>s xs st. (Done (g s xs), st)) v st =
        (Returned (in_chunks g (unat c) 0 (bv_items v)), st, [])"
proof -
  note region = bv_region [OF assms(1)]
  obtain c where c: "plan_resolve avail plan (bv_len v) = Done c" "1 \<le> unat c"
    by (rule plan_resolve_Done)
  have c': "plan_resolve avail plan (meta (bv_as_cells v)) = Done c" using c by (simp add: bv_as_cells_def)
  have k: "keeps_length (f s)" for s using assms(2,3) by (simp add: keeps_length_def)
  let ?rs = "in_chunks f (unat c) 0 (bv_items v)"
  have col: "collected ?rs [0..<length (bv_items v)] (bv_items v) (bv_partition_map_mut_with slot sched avail plan f v)"
    using partition_map_with_collected [where f = f and sched = sched, OF region(1,2) k assms(4,8,5) c'] region(3,5)
    by (simp add: bv_partition_map_mut_with_def)
  have rs: "map snd ?rs = in_chunks h (unat c) 0 (bv_items v)" "map fst ?rs = map Done (in_chunks g (unat c) 0 (bv_items v))"
    by (simp_all add: map_in_chunks assms(3))
  have "length (concat (in_chunks h (unat c) 0 (bv_items v))) = length (bv_items v)"
    using c(2) by (intro length_concat_in_chunks assms(2)) simp
  then have "bv_partition_map_mut_with slot sched avail plan f v =
        (Returned (in_chunks g (unat c) 0 (bv_items v)), concat (in_chunks h (unat c) 0 (bv_items v)), [])"
    unfolding collected_done [OF col rs(2)] rs(1) by (simp add: scatter_all)
  moreover obtain c2 where "plan_resolve avail plan (slice_len (bv_items v)) = Done c2"
    "partition_read_map_with slot' sched avail (bv_items v) plan (\<lambda>s xs st. (Done (g s xs), st)) st =
      (Returned (in_chunks g (unat c2) 0 (bv_items v)), st, [])"
    using partition_read_map_reads [OF assms(1,6,7,8), of "\<lambda>s xs st. (Done (g s xs), st)" g] by blast
  moreover have "slice_len (bv_items v) = bv_len v" by (simp add: slice_len_def bv_len_def)
  ultimately show ?thesis using c region(4) by (intro exI [of _ c]) (simp add: bv_partition_map_with_def)
qed

definition sum_and_double :: "(nat, nat) shard_fn" where
  "sum_and_double s xs = (Done (unat s + sum_list xs), map ((*) 2) xs)"

lemma vec_partition_is_sequential_witness:
  "\<exists>c. plan_resolve None (plan_parts 2) (bv_len three_values) = Done c \<and> 1 \<le> unat c
    \<and> bv_partition_map_mut_with Null usize_range None (plan_parts 2) sum_and_double three_values =
        (Returned (in_chunks (\<lambda>s xs. unat s + sum_list xs) (unat c) 0 [4, 5, 6]),
         concat (in_chunks (\<lambda>s xs. map ((*) 2) xs) (unat c) 0 [4, 5, 6]), [])"
proof -
  have l: "length (bv_items three_values) \<le> isize_max" by (simp add: isize_max_def)
  have n: "slot_sound (Null :: (nat, nat) slot_ptr)" "scheduler_returns (Null :: (nat, nat) slot_ptr)"
    by (simp_all add: slot_sound_def scheduler_returns_def slot_defs)
  have f: "length (map ((*) 2) xs :: nat list) = length xs"
    "sum_and_double s xs = (Done (unat s + sum_list xs), map ((*) 2) xs)" for s xs
    by (simp_all add: sum_and_double_def)
  show ?thesis
    using vec_partition_is_sequential [where f = sum_and_double and h = "\<lambda>s xs. map ((*) 2) xs"
        and g = "\<lambda>s xs. unat s + sum_list xs" and avail = None and plan = "plan_parts 2",
        OF l f n n schedule_of_range]
    by fastforce
qed

end
