(* ===== verification/DequePlan.thy ===== *)
theory DequePlan
  imports PartitionMap
begin

text \<open>
  The deque's shard plan, \<^verbatim>\<open>src/collections/deque/partition.rs\<close>: a ring buffer is two
  contiguous segments, front and back, and a logical chunk that crosses the wrap becomes
  two physical shards. \<open>from_lengths\<close> computes the descriptors, \<open>map_read\<close> and \<open>map_mut\<close>
  run a closure on each through the shared-slice driver over the descriptor vector.

  In a release build the additions of the loop wrap around, and the loop might then not
  end: it is a partial function, and that it returns is part of what is proved.
\<close>

datatype deque_segment = Front | Back

record deque_shard =
  ds_start :: usize
  ds_segment :: deque_segment
  ds_offset :: usize
  ds_len :: usize

record deque_shard_plan =
  dp_shards :: "deque_shard list"
  dp_capacity :: usize

text \<open>One iteration pushes at most one descriptor per segment.\<close>

definition shards_between :: "usize \<Rightarrow> usize \<Rightarrow> usize \<Rightarrow> deque_shard list" where
  "shards_between front_len start stop =
     (if start < front_len
      then let front_end = min stop front_len in
        [\<lparr>ds_start = start, ds_segment = Front, ds_offset = start, ds_len = front_end - start\<rparr>]
      else [])
     @ (if front_len < stop
        then let back_start = max start front_len - front_len in
          [\<lparr>ds_start = front_len + back_start, ds_segment = Back, ds_offset = back_start,
            ds_len = stop - max start front_len\<rparr>]
        else [])"

partial_function (option) shard_loop ::
    "usize \<Rightarrow> usize \<Rightarrow> usize \<Rightarrow> usize \<Rightarrow> deque_shard list \<Rightarrow> deque_shard list option" where
  "shard_loop front_len total_len chunk_len start shards =
     (if start < total_len
      then let stop = min (start + chunk_len) total_len in
        shard_loop front_len total_len chunk_len stop (shards @ shards_between front_len start stop)
      else Some shards)"

text \<open>\<open>usize::div_ceil\<close>.\<close>

definition usize_div_ceil :: "usize \<Rightarrow> usize \<Rightarrow> usize outcome" where
  "usize_div_ceil a b =
     (if b = 0 then Panicked DivisionByZero
      else let d = a div b; r = a mod b in Done (if r > 0 then d + 1 else d))"

definition from_lengths ::
    "nonzero_usize option \<Rightarrow> usize \<Rightarrow> usize \<Rightarrow> partition_plan \<Rightarrow> deque_shard_plan outcome option" where
  "from_lengths avail front_len back_len plan =
     (let total_len = front_len + back_len in
      case chunk_len_for avail plan total_len of
        Panicked p \<Rightarrow> Some (Panicked p)
      | Done c \<Rightarrow>
          let chunk_len = max c 1 in
          (case usize_div_ceil total_len chunk_len of
             Panicked p \<Rightarrow> Some (Panicked p)
           | Done num_chunks \<Rightarrow>
               map_option (\<lambda>shards. Done \<lparr>dp_shards = shards, dp_capacity = num_chunks * 2\<rparr>)
                 (shard_loop front_len total_len chunk_len 0 [])))"

definition plan_is_empty :: "deque_shard_plan \<Rightarrow> bool" where
  "plan_is_empty p \<longleftrightarrow> dp_shards p = []"

definition read_slice :: "deque_shard \<Rightarrow> 'a list \<Rightarrow> 'a list \<Rightarrow> 'a list outcome" where
  "read_slice s front back =
     (case ds_segment s of
        Front \<Rightarrow> slice_index front (ds_offset s) (ds_offset s + ds_len s)
      | Back \<Rightarrow> slice_index back (ds_offset s) (ds_offset s + ds_len s))"

definition plan_map_read ::
    "('m, 'r) task_context raw_ptr \<Rightarrow> scheduling \<Rightarrow> nonzero_usize option \<Rightarrow> deque_shard_plan
       \<Rightarrow> 'a list \<Rightarrow> 'a list \<Rightarrow> ('a, 'm, 'r) read_fn \<Rightarrow> 'm \<Rightarrow> ('m, 'r) driven" where
  "plan_map_read slot sched avail p front back f st =
     (if plan_is_empty p then (Returned [], st, [])
      else partition_read_map_with slot sched avail (dp_shards p) (plan_chunk_size 1)
        (\<lambda>_ shard st.
           case shard of [] \<Rightarrow> (Panicked IndexOutOfBounds, st)
           | sh # _ \<Rightarrow>
               (case read_slice sh front back of
                  Panicked q \<Rightarrow> (Panicked q, st)
                | Done xs \<Rightarrow> f (ds_start sh) xs st))
        st)"

definition plan_for_each_read ::
    "('m, unit) task_context raw_ptr \<Rightarrow> scheduling \<Rightarrow> nonzero_usize option \<Rightarrow> deque_shard_plan
       \<Rightarrow> 'a list \<Rightarrow> 'a list \<Rightarrow> ('a, 'm, unit) read_fn \<Rightarrow> 'm \<Rightarrow> ('m, unit) driven" where
  "plan_for_each_read slot sched avail p front back f st =
     discard (plan_map_read slot sched avail p front back (\<lambda>start shard. f start shard) st)"

text \<open>The raw pointers to the two segments.\<close>

record deque_mut_slices =
  dm_front :: nat
  dm_front_len :: usize
  dm_back :: nat
  dm_back_len :: usize

definition mut_slices_new :: "slice_ref \<Rightarrow> slice_ref \<Rightarrow> deque_mut_slices" where
  "mut_slices_new front back =
     \<lparr>dm_front = ptr front, dm_front_len = meta front, dm_back = ptr back, dm_back_len = meta back\<rparr>"

definition shard_slice :: "deque_mut_slices \<Rightarrow> deque_shard \<Rightarrow> slice_ref" where
  "shard_slice slices s =
     (let base = (case ds_segment s of Front \<Rightarrow> dm_front slices | Back \<Rightarrow> dm_back slices)
      in \<lparr>ptr = base + unat (ds_offset s), meta = ds_len s\<rparr>)"

definition with_shard_mut ::
    "deque_mut_slices \<Rightarrow> deque_shard \<Rightarrow> ('a, 'r) shard_fn \<Rightarrow> 'a list \<Rightarrow> 'r outcome \<times> 'a list" where
  "with_shard_mut slices shard f mem =
     (let writer = shard_new (shard_slice slices shard)
      in on_shard (shard_as_mut_slice writer) (f (ds_start shard)) mem)"

definition plan_map_mut ::
    "('a, 'r) slot_ptr \<Rightarrow> scheduling \<Rightarrow> nonzero_usize option \<Rightarrow> deque_shard_plan
       \<Rightarrow> slice_ref \<Rightarrow> slice_ref \<Rightarrow> ('a, 'r) shard_fn \<Rightarrow> 'a list \<Rightarrow> ('a list, 'r) driven" where
  "plan_map_mut slot sched avail p front back f mem =
     (if plan_is_empty p then (Returned [], mem, [])
      else let slices = mut_slices_new front back in
        partition_read_map_with slot sched avail (dp_shards p) (plan_chunk_size 1)
          (\<lambda>_ shard st.
             case shard of [] \<Rightarrow> (Panicked IndexOutOfBounds, st)
             | sh # _ \<Rightarrow> with_shard_mut slices sh f st)
          mem)"

definition plan_for_each_mut ::
    "('a, unit) slot_ptr \<Rightarrow> scheduling \<Rightarrow> nonzero_usize option \<Rightarrow> deque_shard_plan
       \<Rightarrow> slice_ref \<Rightarrow> slice_ref \<Rightarrow> ('a, unit) shard_fn \<Rightarrow> 'a list \<Rightarrow> ('a list, unit) driven" where
  "plan_for_each_mut slot sched avail p front back f mem =
     discard (plan_map_mut slot sched avail p front back (\<lambda>start shard. f start shard) mem)"

section \<open>The descriptors tile the logical queue\<close>

text \<open>
  A descriptor is good when its segment and offset name the cell at its logical start and
  it stays inside the segment; \<open>consecutive fl bl a shards b\<close>: good non-empty descriptors that
  follow one another from logical index \<open>a\<close> to \<open>b\<close>.
\<close>

definition good_shard :: "nat \<Rightarrow> nat \<Rightarrow> deque_shard \<Rightarrow> bool" where
  "good_shard fl bl s \<longleftrightarrow> 0 < unat (ds_len s) \<and>
     (case ds_segment s of
        Front \<Rightarrow> ds_offset s = ds_start s \<and> unat (ds_start s) + unat (ds_len s) \<le> fl
      | Back \<Rightarrow> unat (ds_start s) = fl + unat (ds_offset s) \<and> unat (ds_offset s) + unat (ds_len s) \<le> bl)"

fun consecutive :: "nat \<Rightarrow> nat \<Rightarrow> nat \<Rightarrow> deque_shard list \<Rightarrow> nat \<Rightarrow> bool" where
  "consecutive fl bl a [] b \<longleftrightarrow> a = b"
| "consecutive fl bl a (s # ss) b \<longleftrightarrow>
     unat (ds_start s) = a \<and> good_shard fl bl s \<and> consecutive fl bl (a + unat (ds_len s)) ss b"

lemma consecutive_append:
  "consecutive fl bl a (xs @ ys) c \<longleftrightarrow> (\<exists>b. consecutive fl bl a xs b \<and> consecutive fl bl b ys c)"
  by (induction xs arbitrary: a) auto

lemma shards_between_consecutive:
  assumes "unat start < unat stop" "unat stop \<le> unat fl + unat bl" "unat fl + unat bl \<le> isize_max"
  shows "consecutive (unat fl) (unat bl) (unat start) (shards_between fl start stop) (unat stop)"
    and "length (shards_between fl start stop) \<le> 2"
    and "\<forall>s \<in> set (shards_between fl start stop). unat (ds_len s) \<le> unat stop - unat start"
proof -
  have m: "unat (max start fl) = max (unat start) (unat fl)" "unat (min stop fl) = min (unat stop) (unat fl)"
    by (simp_all add: unat_max_usize unat_min_usize)
  have d: "unat (min stop fl - start) = min (unat stop) (unat fl) - unat start" if "unat start < unat fl"
    using assms that by (simp add: unat_sub_usize m)
  have e: "unat (stop - max start fl) = unat stop - max (unat start) (unat fl)" if "unat fl < unat stop"
    using assms that by (simp add: unat_sub_usize m)
  have b: "unat (max start fl - fl) = max (unat start) (unat fl) - unat fl"
    by (simp add: unat_sub_usize m)
  have f: "unat (fl + (max start fl - fl)) = max (unat start) (unat fl)"
    using assms unat_add_usize [of fl "max start fl - fl"] by (simp add: b isize_max_def)
  show "consecutive (unat fl) (unat bl) (unat start) (shards_between fl start stop) (unat stop)"
    using assms d e b f
    by (cases "unat start < unat fl"; cases "unat fl < unat stop")
      (auto simp: shards_between_def Let_def good_shard_def word_less_nat_alt)
  show "\<forall>s \<in> set (shards_between fl start stop). unat (ds_len s) \<le> unat stop - unat start"
    using d e by (auto simp: shards_between_def Let_def word_less_nat_alt)
qed (simp add: shards_between_def Let_def)

lemma unat_chunk_stop:
  fixes start tot c :: usize
  assumes "unat start < unat tot" "unat tot \<le> isize_max" "c \<noteq> 0" "start = 0 \<or> unat c \<le> unat start"
  shows "unat (min (start + c) tot) = min (unat start + unat c) (unat tot)"
proof -
  have "unat start + unat c < 2 ^ 64"
    using assms(4)
  proof
    assume "unat c \<le> unat start"
    then show ?thesis using assms(1,2) by (simp add: isize_max_def)
  qed simp
  then show ?thesis by (simp add: unat_min_usize unat_add_usize)
qed

text \<open>The loop ends, and its descriptors tile the rest of the queue.\<close>

lemma shard_loop_returns:
  assumes "unat tot = unat fl + unat bl" "unat tot \<le> isize_max" "c \<noteq> 0"
    and "unat start \<le> unat tot" "start = 0 \<or> unat c \<le> unat start \<or> start = tot"
  shows "\<exists>new. shard_loop fl tot c start shards = Some (shards @ new)
    \<and> consecutive (unat fl) (unat bl) (unat start) new (unat tot)
    \<and> length new \<le> 2 * ceil_div (unat tot - unat start) (unat c)
    \<and> (\<forall>s \<in> set new. unat (ds_len s) \<le> unat c)"
  using assms(4,5)
proof (induction "unat tot - unat start" arbitrary: start shards rule: less_induct)
  case less
  have c: "0 < unat c" using assms(3) by (simp add: unat_gt_0)
  show ?case
  proof (cases "start < tot")
    case False
    then have "unat start = unat tot" using less.prems(1) by (simp add: word_less_nat_alt)
    then show ?thesis using False c by (simp add: shard_loop.simps)
  next
    case True
    let ?stop = "min (start + c) tot"
    have lt: "unat start < unat tot" using True by (simp add: word_less_nat_alt)
    then have "start \<noteq> tot" by auto
    then have stop: "unat ?stop = min (unat start + unat c) (unat tot)"
      using unat_chunk_stop [OF lt assms(2,3)] less.prems(2) by blast
    have inv: "?stop = 0 \<or> unat c \<le> unat ?stop \<or> ?stop = tot"
      using stop by (auto simp: usize_eq_iff min_def split: if_splits)
    have less': "unat start < unat ?stop" "unat ?stop \<le> unat tot" "unat ?stop - unat start \<le> unat c"
      "unat tot - unat ?stop = (unat tot - unat start) - unat c"
      using stop lt c by linarith+
    note sb = shards_between_consecutive [of start ?stop fl bl]
    obtain new where new: "shard_loop fl tot c ?stop (shards @ shards_between fl start ?stop) =
        Some ((shards @ shards_between fl start ?stop) @ new)"
      "consecutive (unat fl) (unat bl) (unat ?stop) new (unat tot)"
      "length new \<le> 2 * ceil_div (unat tot - unat ?stop) (unat c)"
      "\<forall>s \<in> set new. unat (ds_len s) \<le> unat c"
      using less.hyps [of ?stop "shards @ shards_between fl start ?stop", OF _ less'(2) inv] less'(1) lt
      by fastforce
    have "shard_loop fl tot c start shards = Some (shards @ (shards_between fl start ?stop @ new))"
      using True new(1) by (subst shard_loop.simps) (simp add: Let_def)
    moreover have "consecutive (unat fl) (unat bl) (unat start) (shards_between fl start ?stop @ new) (unat tot)"
      using sb(1) less' assms(1,2) new(2) by (auto simp: consecutive_append)
    moreover have "ceil_div (unat tot - unat start) (unat c) = Suc (ceil_div (unat tot - unat ?stop) (unat c))"
      using ceil_div_step [of "unat tot - unat start" "unat c"] lt c less'(4) by simp
    then have "length (shards_between fl start ?stop @ new) \<le> 2 * ceil_div (unat tot - unat start) (unat c)"
      using sb(2) less' assms(1,2) new(3) by simp
    moreover have "\<forall>s \<in> set (shards_between fl start ?stop @ new). unat (ds_len s) \<le> unat c"
      using sb(3) less' assms(1,2) new(4) by auto
    ultimately show ?thesis by blast
  qed
qed

lemma usize_div_ceil_eq:
  assumes "b \<noteq> 0"
  shows "usize_div_ceil a b = partition_count a b"
proof -
  let ?n = "unat a" and ?c = "unat b"
  have c: "0 < ?c" using assms by (simp add: unat_gt_0)
  have "ceil_div ?n ?c = ?n div ?c + (if 0 < ?n mod ?c then 1 else 0)"
  proof -
    have "?n + (?c - 1) = ?n div ?c * ?c + (?n mod ?c + (?c - 1))" by simp
    then have "ceil_div ?n ?c = ?n div ?c + (?n mod ?c + (?c - 1)) div ?c"
      using c by (simp only: ceil_div_def div_mult_self3)
    moreover have "(?n mod ?c + (?c - 1)) div ?c = (if 0 < ?n mod ?c then 1 else 0)"
      using c mod_less_divisor [OF c, of ?n] by (auto simp: div_eq_dividend_iff intro!: div_nat_eqI)
    ultimately show ?thesis by simp
  qed
  moreover have "of_nat (unat (a div b)) = a div b" by simp
  then have "a div b = of_nat (?n div ?c)" by (simp only: unat_div)
  moreover have "0 < a mod b \<longleftrightarrow> 0 < ?n mod ?c" by (simp add: word_less_nat_alt unat_mod)
  ultimately show ?thesis using assms
    by (simp add: usize_div_ceil_def partition_count_eq Let_def)
qed


section \<open>The plan as a sharding of the two segments\<close>

lemma consecutive_le: "consecutive fl bl a ss b \<Longrightarrow> a + length ss \<le> b"
  by (induction fl bl a ss b rule: consecutive.induct) (auto simp: good_shard_def)

lemma consecutive_starts:
  assumes "consecutive fl bl a ss b" "i < j" "j < length ss"
  shows "unat (ds_start (ss ! i)) + unat (ds_len (ss ! i)) \<le> unat (ds_start (ss ! j))"
  using assms
proof (induction ss arbitrary: a i j)
  case (Cons s ss)
  have ge: "consecutive fl bl a ss b \<Longrightarrow> k < length ss \<Longrightarrow> a \<le> unat (ds_start (ss ! k))" for a k
    by (induction ss arbitrary: a k) (auto simp: nth_Cons' less_Suc_eq_0_disj, fastforce)
  obtain k where k: "j = Suc k" "k < length ss" using Cons.prems by (cases j) auto
  show ?case
  proof (cases i)
    case 0
    then show ?thesis using Cons.prems ge k by auto
  next
    case (Suc i')
    then show ?thesis using Cons.IH [of "a + unat (ds_len s)" i' k] Cons.prems k by auto
  qed
qed simp

lemma consecutive_good: "consecutive fl bl a ss b \<Longrightarrow> s \<in> set ss \<Longrightarrow> good_shard fl bl s"
  by (induction fl bl a ss b rule: consecutive.induct) auto

text \<open>A good descriptor names the run of cells at its logical start.\<close>

lemma good_shard_positions:
  assumes "good_shard (unat (meta front)) (unat (meta back)) s"
  shows "positions (shard_slice (mut_slices_new front back) s) =
    window (unat (ds_start s)) (unat (ds_len s)) (positions front @ positions back)"
proof (cases "ds_segment s")
  case Front
  then show ?thesis using assms
    by (simp add: good_shard_def positions_def window_def drop_append take_append drop_upt take_upt
        shard_slice_def mut_slices_new_def)
next
  case Back
  then show ?thesis using assms
    by (simp add: good_shard_def positions_def window_def drop_append take_append drop_upt take_upt
        shard_slice_def mut_slices_new_def)
qed

lemma consecutive_positions:
  assumes "consecutive (unat (meta front)) (unat (meta back)) a ss b"
  shows "concat (map (\<lambda>s. positions (shard_slice (mut_slices_new front back) s)) ss) =
    window a (b - a) (positions front @ positions back)"
  using assms
proof (induction ss arbitrary: a)
  case (Cons s ss)
  have "a + unat (ds_len s) \<le> b" using consecutive_le Cons.prems by fastforce
  then have "window a (unat (ds_len s)) (positions front @ positions back) @
      window (a + unat (ds_len s)) (b - (a + unat (ds_len s))) (positions front @ positions back)
      = window a (b - a) (positions front @ positions back)"
    by (simp add: window_append)
  then show ?case using Cons good_shard_positions by auto
qed simp

lemma consecutive_length:
  assumes "consecutive fl bl a ss b" "b \<le> length xs" "\<And>s xs. length (h s xs) = length xs"
  shows "length (concat (map (\<lambda>s. h (ds_start s) (window (unat (ds_start s)) (unat (ds_len s)) xs)) ss)) = b - a"
  using assms(1)
proof (induction ss arbitrary: a)
  case (Cons s ss)
  have "a + unat (ds_len s) \<le> b" using consecutive_le Cons.prems by fastforce
  then show ?case using Cons.IH [of "a + unat (ds_len s)"] Cons.prems assms(2,3) by (simp add: length_window)
qed simp

definition deque_invar :: "slice_ref \<times> slice_ref \<times> deque_shard list \<Rightarrow> bool" where
  "deque_invar = (\<lambda>(front, back, shards).
     apart (ptr front) (unat (meta front)) (ptr back) (unat (meta back))
     \<and> unat (meta front) + unat (meta back) \<le> isize_max
     \<and> consecutive (unat (meta front)) (unat (meta back)) 0 shards (unat (meta front) + unat (meta back)))"

lemma good_shards_apart:
  assumes "apart (ptr front) (unat (meta front)) (ptr back) (unat (meta back))"
    and "good_shard (unat (meta front)) (unat (meta back)) s"
    and "good_shard (unat (meta front)) (unat (meta back)) t"
    and "unat (ds_start s) + unat (ds_len s) \<le> unat (ds_start t)
      \<or> unat (ds_start t) + unat (ds_len t) \<le> unat (ds_start s)"
  shows "apart (ptr (shard_slice (mut_slices_new front back) s)) (unat (ds_len s))
    (ptr (shard_slice (mut_slices_new front back) t)) (unat (ds_len t))"
  using assms
  by (cases "ds_segment s"; cases "ds_segment t")
    (auto simp: good_shard_def shard_slice_def mut_slices_new_def apart_def)

lemma unat_shard_count:
  assumes "deque_invar (front, back, shards)"
  shows "unat (of_nat (length shards) :: usize) = length shards"
proof -
  have "length shards \<le> isize_max"
    using assms consecutive_le [of _ _ 0 shards] by (fastforce simp: deque_invar_def)
  then show ?thesis by (simp add: isize_max_def unat_of_nat_usize)
qed

interpretation dq: sharding deque_invar "\<lambda>(front, back, shards). of_nat (length shards)"
  "\<lambda>(front, back, shards). positions front @ positions back"
  "\<lambda>(front, back, shards) i. shard_slice (mut_slices_new front back) (shards ! unat i)"
proof (unfold_locales, goal_cases)
  case (1 p i j)
  obtain front bk shards where p: "p = (front, bk, shards)" by (cases p)
  note inv = 1(1) [unfolded p]
  have i: "unat i < length shards" "unat j < length shards" "unat i \<noteq> unat j"
    using 1 unat_shard_count [OF inv] by (auto simp: p word_less_nat_alt usize_eq_iff)
  have cons: "consecutive (unat (meta front)) (unat (meta bk)) 0 shards (unat (meta front) + unat (meta bk))"
    and ap: "apart (ptr front) (unat (meta front)) (ptr bk) (unat (meta bk))"
    using inv by (auto simp: deque_invar_def)
  have "unat (ds_start (shards ! unat i)) + unat (ds_len (shards ! unat i)) \<le> unat (ds_start (shards ! unat j))
      \<or> unat (ds_start (shards ! unat j)) + unat (ds_len (shards ! unat j)) \<le> unat (ds_start (shards ! unat i))"
    using consecutive_starts [OF cons] i by (meson linorder_neqE_nat)
  then have "apart (ptr (shard_slice (mut_slices_new front bk) (shards ! unat i))) (unat (ds_len (shards ! unat i)))
    (ptr (shard_slice (mut_slices_new front bk) (shards ! unat j))) (unat (ds_len (shards ! unat j)))"
    using i(1,2) by (intro good_shards_apart ap consecutive_good [OF cons]) auto
  then show ?case by (simp add: p shard_slice_def)
next
  case (2 p)
  then show ?case by (cases p) (auto simp: deque_invar_def positions_def apart_def)
next
  case (3 p)
  obtain front bk shards where p: "p = (front, bk, shards)" by (cases p)
  note inv = 3 [unfolded p]
  have "map (\<lambda>i. positions (shard_slice (mut_slices_new front bk) (shards ! unat i))) (usize_range (of_nat (length shards)))
      = map (\<lambda>i. positions (shard_slice (mut_slices_new front bk) (shards ! i)))
          (map unat (usize_range (of_nat (length shards))))"
    by (simp only: map_map comp_def)
  also have "\<dots> = map (\<lambda>s. positions (shard_slice (mut_slices_new front bk) s)) (map ((!) shards) [0..<length shards])"
    by (simp only: map_unat_usize_range unat_shard_count [OF inv] map_map comp_def)
  finally show ?case
    using inv consecutive_positions [of front bk 0 shards "unat (meta front) + unat (meta bk)"]
    by (simp add: p map_nth deque_invar_def)
qed

section \<open>Running closures over the plan\<close>

lemma slice_in_segments:
  assumes "good_shard (unat (meta front)) (unat (meta back)) s" "slice_in front mem" "slice_in back mem"
  shows "slice_in (shard_slice (mut_slices_new front back) s) mem"
  using assms by (cases "ds_segment s") (auto simp: good_shard_def slice_in_def shard_slice_def mut_slices_new_def)

lemma gather_window: "gather (window a n ks) mem = window a n (gather ks mem)"
  by (simp add: gather_def window_def take_map drop_map)

lemma slice_read_logical:
  assumes "good_shard (unat (meta front)) (unat (meta back)) s" "slice_in front mem" "slice_in back mem"
  shows "slice_read (shard_slice (mut_slices_new front back) s) mem =
    window (unat (ds_start s)) (unat (ds_len s)) (slice_read front mem @ slice_read back mem)"
  using assms slice_in_segments [OF assms]
  by (simp add: slice_read_gather good_shard_positions gather_window) (simp add: gather_def)

lemma read_task_singleton:
  assumes "length ss \<le> isize_max" "unat i < length ss"
  shows "read_task ss 1 f i st = f i [ss ! unat i] st"
proof -
  have "take 1 (drop (unat i) ss) = [ss ! unat i]"
    using assms(2) by (simp add: take_Suc_conv_app_nth [where i = 0, simplified] One_nat_def)
  then show ?thesis using read_task_eq [OF assms(1), of 1 i f st] assms(2) by (simp add: ceil_div_def)
qed

lemma chunk_size_1: "plan_resolve avail (plan_chunk_size 1) len = Done 1"
  by (simp add: plan_resolve_def plan_chunk_size_def nz_get_nonzero_or_one)

lemma partition_singletons:
  assumes "length ss \<le> isize_max" "ss \<noteq> []"
  shows "partition_read_map_with slot sched avail ss (plan_chunk_size 1) f st =
    (let n = of_nat (length ss) in drive slot (sched n) n (read_task ss 1 f) st)"
proof -
  obtain n where n: "unat n = ceil_div (length ss) (unat (1 :: usize))"
    "partition_read_map_with slot sched avail ss (plan_chunk_size 1) f st =
      (if n = 0 then (Returned [], st, []) else drive slot (sched n) n (read_task ss 1 f) st)"
    by (rule partition_read_map_with_eq [OF assms(1) chunk_size_1,
          where slot = slot and sched = sched and f = f and st = st])
  have u: "unat n = length ss" using n(1) by (simp add: ceil_div_def)
  then have "n = of_nat (length ss)" by (metis of_nat_unat ucast_id)
  moreover have "n \<noteq> 0" using u assms(2) by auto
  ultimately show ?thesis using n(2) by (simp add: Let_def)
qed

lemma deque_invarD:
  assumes "deque_invar (front, back, ss)"
  shows "length ss \<le> isize_max" "s \<in> set ss \<Longrightarrow> good_shard (unat (meta front)) (unat (meta back)) s"
  using assms consecutive_le [of _ _ 0 ss] consecutive_good [of _ _ 0 ss _ s]
  by (fastforce simp: deque_invar_def)+

lemma map_nth_usize:
  assumes "unat (n :: usize) = length ss"
  shows "map (\<lambda>i. f (ss ! unat i)) (usize_range n) = map f ss"
proof -
  have "map (\<lambda>i. f (ss ! unat i)) (usize_range n) = map f (map ((!) ss) (map unat (usize_range n)))"
    by (simp only: map_map comp_def)
  then show ?thesis by (simp only: map_unat_usize_range assms map_nth)
qed

lemma plan_map_mut_collected:
  fixes f :: "('a, 'r) shard_fn"
  assumes inv: "deque_invar (front, back, dp_shards p)" and "slice_in front mem" "slice_in back mem"
    and "\<And>s. keeps_length (f s)"
    and "slot_sound slot" "scheduler_returns slot" "\<And>n. schedule_of n (sched n)"
  shows "collected (map (\<lambda>s. f (ds_start s)
        (window (unat (ds_start s)) (unat (ds_len s)) (slice_read front mem @ slice_read back mem))) (dp_shards p))
      (positions front @ positions back) mem (plan_map_mut slot sched avail p front back f mem)"
proof (cases "dp_shards p = []")
  case True
  then show ?thesis by (simp add: plan_map_mut_def plan_is_empty_def collected_def)
next
  case False
  let ?ss = "dp_shards p" and ?q = "(front, back, dp_shards p)"
  let ?n = "of_nat (length ?ss) :: usize"
  let ?sl = "\<lambda>i. shard_slice (mut_slices_new front back) (?ss ! unat i)"
  let ?run = "\<lambda>i. on_shard (?sl i) (f (ds_start (?ss ! unat i)))"
  let ?task = "read_task ?ss 1 (\<lambda>_ shard st. case shard of [] \<Rightarrow> (Panicked IndexOutOfBounds, st)
    | sh # _ \<Rightarrow> with_shard_mut (mut_slices_new front back) sh f st)"
  have n: "unat ?n = length ?ss" by (rule unat_shard_count [OF inv])
  have n1: "1 \<le> unat ?n" using n False by (simp add: Suc_leI)
  have inm: "slice_in (?sl i) mem" if "i < ?n" for i
    using that n deque_invarD(2) [OF inv] assms(2,3)
    by (intro slice_in_segments) (auto simp: word_less_nat_alt)
  have task: "?task i m = ?run i m" if "i < ?n" for i m
    using that n by (simp add: word_less_nat_alt with_shard_mut_def shard_new_def shard_as_mut_slice_def
        read_task_singleton [OF deque_invarD(1) [OF inv]])
  have eq: "exec_order ?task order mem = exec_order ?run order mem" if "schedule_of ?n order" for order
    using schedule_ofD(2) [OF that] task by (intro exec_order_cong) auto
  have "collected (map (\<lambda>i. f (ds_start (?ss ! unat i)) (slice_read (?sl i) mem)) (usize_range ?n))
      (positions front @ positions back) mem (drive slot (sched ?n) ?n ?task mem)"
  proof (rule drive_collected [OF n1 assms(5,7,6)])
    fix order rs m assume o: "schedule_of ?n order" "exec_order ?task order mem = (rs, m)"
    then have o2: "exec_order ?run order mem = (rs, m)" using eq by simp
    note d = schedule_ofD [OF o(1)]
    show "rs = map (\<lambda>i. (i, fst (f (ds_start (?ss ! unat i)) (slice_read (?sl i) mem)))) order"
      using dq.any_order [of ?q mem "\<lambda>i. f (ds_start (?ss ! unat i))" order rs m]
        inv inm assms(4) d(1,2) o2 by simp
    show "m = scatter (positions front @ positions back)
        (concat (map (\<lambda>i. snd (f (ds_start (?ss ! unat i)) (slice_read (?sl i) mem))) (usize_range ?n))) mem"
      using dq.all_tasks [of ?q mem "\<lambda>i. f (ds_start (?ss ! unat i))" order rs m]
        inv inm assms(4) o(1) o2 by simp
  qed
  moreover have "map (\<lambda>i. f (ds_start (?ss ! unat i)) (slice_read (?sl i) mem)) (usize_range ?n) =
      map (\<lambda>s. f (ds_start s) (slice_read (shard_slice (mut_slices_new front back) s) mem)) ?ss"
    by (rule map_nth_usize [OF n])
  moreover have "\<dots> = map (\<lambda>s. f (ds_start s)
        (window (unat (ds_start s)) (unat (ds_len s)) (slice_read front mem @ slice_read back mem))) ?ss"
    using deque_invarD(2) [OF inv] by (simp add: slice_read_logical [OF _ assms(2,3)])
  ultimately show ?thesis using False
    by (simp add: plan_map_mut_def plan_is_empty_def partition_singletons deque_invarD(1) [OF inv] Let_def)
qed

lemma read_slice_logical:
  assumes "good_shard (length front) (length back) s" "length front + length back \<le> isize_max"
  shows "read_slice s front back = Done (window (unat (ds_start s)) (unat (ds_len s)) (front @ back))"
proof -
  have l: "unat (slice_len front) = length front" "unat (slice_len back) = length back"
    using assms(2) by (simp_all add: unat_slice_len)
  have "unat (ds_offset s) + unat (ds_len s) \<le> isize_max"
    using assms by (auto simp: good_shard_def split: deque_segment.splits)
  then have a: "unat (ds_offset s + ds_len s) = unat (ds_offset s) + unat (ds_len s)"
    by (intro unat_add_usize) (simp add: isize_max_def)
  show ?thesis using assms l a
    by (auto simp: good_shard_def read_slice_def slice_index_def word_le_nat_alt window_def
        split: deque_segment.splits)
qed

lemma plan_map_read_eq:
  assumes "consecutive (length front) (length back) 0 (dp_shards p) (length front + length back)"
    and "length front + length back \<le> isize_max"
    and "slot_sound slot" "scheduler_returns slot" "\<And>n. schedule_of n (sched n)"
    and "\<And>s xs st. f s xs st = (Done (g s xs), st)"
  shows "plan_map_read slot sched avail p front back f st =
    (Returned (map (\<lambda>s. g (ds_start s) (window (unat (ds_start s)) (unat (ds_len s)) (front @ back))) (dp_shards p)), st, [])"
proof (cases "dp_shards p = []")
  case True
  then show ?thesis by (simp add: plan_map_read_def plan_is_empty_def)
next
  case False
  let ?ss = "dp_shards p"
  let ?n = "of_nat (length ?ss) :: usize"
  let ?g = "\<lambda>s. g (ds_start s) (window (unat (ds_start s)) (unat (ds_len s)) (front @ back))"
  let ?F = "\<lambda>_ shard st. case shard of [] \<Rightarrow> (Panicked IndexOutOfBounds, st)
    | sh # _ \<Rightarrow> (case read_slice sh front back of Panicked q \<Rightarrow> (Panicked q, st) | Done xs \<Rightarrow> f (ds_start sh) xs st)"
  have len: "length ?ss \<le> isize_max" using consecutive_le [OF assms(1)] assms(2) by simp
  then have n: "unat ?n = length ?ss" by (simp add: isize_max_def unat_of_nat_usize)
  have "read_task ?ss 1 ?F i st = (Done (?g (?ss ! unat i)), st)" if "i < ?n" for i st
    using that n read_slice_logical [OF consecutive_good [OF assms(1)] assms(2)] assms(6)
    by (simp add: word_less_nat_alt read_task_singleton [OF len])
  then have "drive slot (sched ?n) ?n (read_task ?ss 1 ?F) st =
      (Returned (map (\<lambda>i. ?g (?ss ! unat i)) (usize_range ?n)), st, [])"
    using n False assms(3-5) by (intro drive_reads) (auto simp: Suc_leI)
  then show ?thesis using False
    by (simp add: plan_map_read_def plan_is_empty_def partition_singletons [OF len] map_nth_usize [OF n, of ?g] Let_def)
qed

lemma from_lengths_returns:
  assumes "unat fl + unat bl \<le> isize_max"
  obtains p c n where "from_lengths avail fl bl plan = Some (Done p)"
    "chunk_len_for avail plan (fl + bl) = Done c" "partition_count (fl + bl) c = Done n"
    "consecutive (unat fl) (unat bl) 0 (dp_shards p) (unat fl + unat bl)"
    "unat (dp_capacity p) = 2 * unat n" "length (dp_shards p) \<le> 2 * unat n"
    "\<forall>s \<in> set (dp_shards p). unat (ds_len s) \<le> unat c"
proof -
  have tot: "unat (fl + bl) = unat fl + unat bl" using assms by (intro unat_add_usize) (simp add: isize_max_def)
  obtain c where c: "chunk_len_for avail plan (fl + bl) = Done c" "c \<noteq> 0" using chunk_len_for_Done by blast
  obtain n where n: "partition_count (fl + bl) c = Done n" using partition_count_eq [OF c(2)] by blast
  have un: "unat n = ceil_div (unat (fl + bl)) (unat c)" by (rule unat_partition_count [OF c(2) n])
  have "unat n \<le> isize_max"
    using un tot assms c(2) ceil_div_le_self [of "unat c" "unat (fl + bl)"] by (simp add: unat_gt_0)
  then have cap: "unat (n * 2) = 2 * unat n" using unat_mult_usize [of n 2] by (simp add: isize_max_def)
  obtain new where new: "shard_loop fl (fl + bl) c 0 [] = Some new"
    "consecutive (unat fl) (unat bl) 0 new (unat fl + unat bl)"
    "length new \<le> 2 * ceil_div (unat (fl + bl)) (unat c)" "\<forall>s \<in> set new. unat (ds_len s) \<le> unat c"
    using shard_loop_returns [OF tot _ c(2), of 0 "[]"] assms tot by auto
  show thesis
  proof (rule that [of "\<lparr>dp_shards = new, dp_capacity = n * 2\<rparr>" c n])
    show "from_lengths avail fl bl plan = Some (Done \<lparr>dp_shards = new, dp_capacity = n * 2\<rparr>)"
      using c n new(1) by (simp add: from_lengths_def Let_def unat_chunk_max usize_div_ceil_eq)
  qed (use c n new cap un in auto)
qed

section \<open>Properties\<close>

text \<open>C8. \<open>from_lengths\<close> returns (the loop ends, no arithmetic overflows) for every plan and
  every two segment lengths that fit in memory, and its descriptors tile the logical queue:
  they are non-empty, follow one another from \<open>0\<close> to the total length, stay inside their
  segment, name the cell at their logical start, hold at most the plan's chunk length, and
  fit the reserved capacity.\<close>

theorem from_lengths_tiles:
  assumes "unat front_len + unat back_len \<le> isize_max"
  shows "\<exists>p c. from_lengths avail front_len back_len plan = Some (Done p)
    \<and> chunk_len_for avail plan (front_len + back_len) = Done c
    \<and> consecutive (unat front_len) (unat back_len) 0 (dp_shards p) (unat front_len + unat back_len)
    \<and> length (dp_shards p) \<le> unat (dp_capacity p)
    \<and> list_all (\<lambda>s. 1 \<le> unat (ds_len s) \<and> unat (ds_len s) \<le> unat c) (dp_shards p)"
proof -
  obtain p c n where p: "from_lengths avail front_len back_len plan = Some (Done p)"
    "chunk_len_for avail plan (front_len + back_len) = Done c"
    "partition_count (front_len + back_len) c = Done n"
    "consecutive (unat front_len) (unat back_len) 0 (dp_shards p) (unat front_len + unat back_len)"
    "unat (dp_capacity p) = 2 * unat n" "length (dp_shards p) \<le> 2 * unat n"
    "\<forall>s \<in> set (dp_shards p). unat (ds_len s) \<le> unat c"
    by (rule from_lengths_returns [OF assms, where avail = avail and plan = plan])
  have "1 \<le> unat (ds_len s)" if "s \<in> set (dp_shards p)" for s
    using consecutive_good [OF p(4) that] by (simp add: good_shard_def)
  then show ?thesis using p by (auto simp: list_all_iff)
qed

theorem from_lengths_tiles_witness:
  "unat (3 :: usize) + unat (2 :: usize) \<le> isize_max
   \<and> (\<exists>p c. from_lengths None 3 2 (plan_chunk_size 2) = Some (Done p)
        \<and> chunk_len_for None (plan_chunk_size 2) (3 + 2) = Done c
        \<and> consecutive 3 2 0 (dp_shards p) 5
        \<and> length (dp_shards p) \<le> unat (dp_capacity p)
        \<and> list_all (\<lambda>s. 1 \<le> unat (ds_len s) \<and> unat (ds_len s) \<le> unat c) (dp_shards p))"
proof -
  have a: "unat (3 :: usize) + unat (2 :: usize) \<le> isize_max" by (simp add: isize_max_def)
  show ?thesis using a from_lengths_tiles [OF a, of None "plan_chunk_size 2"] by simp
qed

text \<open>The deque's mutable driver, over the two segments of a ring buffer: for every plan,
  scheduler and thread order each closure call gets the logical start index and exactly the
  queue's elements from there, the results come back in logical order, and the queue's
  elements in logical order are the concatenation of the new contents; a panic is re-raised
  with every produced result dropped once. No cell outside the two segments changes.\<close>

theorem plan_map_mut_is_sequential:
  assumes "apart (ptr front) (unat (meta front)) (ptr back) (unat (meta back))"
    and "unat (meta front) + unat (meta back) \<le> isize_max"
    and "slice_in front mem" "slice_in back mem" "\<And>s. keeps_length (f s)"
    and "slot_sound slot" "scheduler_returns slot" "\<And>n. schedule_of n (sched n)"
  shows "\<exists>p. from_lengths avail (meta front) (meta back) plan = Some (Done p)
    \<and> collected (map (\<lambda>s. f (ds_start s)
          (window (unat (ds_start s)) (unat (ds_len s)) (slice_read front mem @ slice_read back mem))) (dp_shards p))
        (positions front @ positions back) mem (plan_map_mut slot sched avail p front back f mem)"
proof -
  obtain p where p: "from_lengths avail (meta front) (meta back) plan = Some (Done p)"
    "consecutive (unat (meta front)) (unat (meta back)) 0 (dp_shards p) (unat (meta front) + unat (meta back))"
    by (rule from_lengths_returns [OF assms(2), where avail = avail and plan = plan])
  then have "deque_invar (front, back, dp_shards p)" using assms(1,2) by (simp add: deque_invar_def)
  then show ?thesis using p(1) plan_map_mut_collected [where f = f and sched = sched, OF _ assms(3-8)] by blast
qed

definition tag_start :: "(nat, nat) shard_fn" where
  "tag_start s xs = (Done (unat s), map (\<lambda>x. x + 10 * unat s) xs)"

text \<open>A ring buffer of five cells whose front segment is cells 3 and 4 and whose back segment is
  cells 0 and 1; cell 2 is unused.\<close>

theorem plan_map_mut_is_sequential_witness:
  "\<exists>p. from_lengths None 2 2 (plan_chunk_size 3) = Some (Done p)
    \<and> collected (map (\<lambda>s. tag_start (ds_start s)
          (window (unat (ds_start s)) (unat (ds_len s)) [1, 2, 3, 4])) (dp_shards p))
        [3, 4, 0, 1] [3, 4, 99, 1, 2]
        (plan_map_mut Null usize_range None p \<lparr>ptr = 3, meta = 2\<rparr> \<lparr>ptr = 0, meta = 2\<rparr> tag_start [3, 4, 99, 1, 2])"
proof -
  have a: "apart (ptr \<lparr>ptr = 3, meta = 2\<rparr>) (unat (meta \<lparr>ptr = 3, meta = 2\<rparr>))
      (ptr \<lparr>ptr = 0, meta = 2\<rparr>) (unat (meta \<lparr>ptr = 0, meta = 2\<rparr>))" by (simp add: apart_def)
  have b: "unat (meta \<lparr>ptr = 3, meta = 2\<rparr>) + unat (meta \<lparr>ptr = 0, meta = 2\<rparr>) \<le> isize_max"
    by (simp add: isize_max_def)
  have c: "slice_in \<lparr>ptr = 3, meta = 2\<rparr> [3, 4, 99, 1, 2 :: nat]" "slice_in \<lparr>ptr = 0, meta = 2\<rparr> [3, 4, 99, 1, 2 :: nat]"
    by (simp_all add: slice_in_def)
  have k: "keeps_length (tag_start s)" for s by (simp add: keeps_length_def tag_start_def)
  have n: "slot_sound (Null :: (nat, nat) slot_ptr)" "scheduler_returns (Null :: (nat, nat) slot_ptr)"
    by (simp_all add: slot_sound_def scheduler_returns_def slot_defs)
  show ?thesis
    using plan_map_mut_is_sequential [where avail = None and plan = "plan_chunk_size 3", OF a b c k n schedule_of_range]
    by (simp add: slice_read_def window_def positions_def upt_rec)
qed

text \<open>The deque's shared driver: the bounds checks of \<open>read_slice\<close> never fail, each closure
  call gets the logical start index and exactly the queue's elements from there, and the
  results come back in logical order.\<close>

theorem plan_map_read_is_sequential:
  assumes "length front + length back \<le> isize_max"
    and "slot_sound slot" "scheduler_returns slot" "\<And>n. schedule_of n (sched n)"
    and "\<And>s xs st. f s xs st = (Done (g s xs), st)"
  shows "\<exists>p. from_lengths avail (slice_len front) (slice_len back) plan = Some (Done p)
    \<and> plan_map_read slot sched avail p front back f st =
       (Returned (map (\<lambda>s. g (ds_start s) (window (unat (ds_start s)) (unat (ds_len s)) (front @ back))) (dp_shards p)), st, [])"
proof -
  have l: "unat (slice_len front) = length front" "unat (slice_len back) = length back"
    using assms(1) by (simp_all add: unat_slice_len)
  then have le: "unat (slice_len front) + unat (slice_len back) \<le> isize_max" using assms(1) by simp
  obtain p where p: "from_lengths avail (slice_len front) (slice_len back) plan = Some (Done p)"
    "consecutive (unat (slice_len front)) (unat (slice_len back)) 0 (dp_shards p)
      (unat (slice_len front) + unat (slice_len back))"
    by (rule from_lengths_returns [OF le, where avail = avail and plan = plan])
  then have "consecutive (length front) (length back) 0 (dp_shards p) (length front + length back)"
    using l by simp
  then show ?thesis using p(1) assms by (auto intro!: plan_map_read_eq)
qed

theorem plan_map_read_is_sequential_witness:
  "\<exists>p. from_lengths None (slice_len [7, 8 :: nat]) (slice_len [9 :: nat]) (plan_parts 2) = Some (Done p)
    \<and> plan_map_read Null usize_range None p [7, 8 :: nat] [9] (\<lambda>s xs st. (Done (sum_list xs), st)) () =
       (Returned (map (\<lambda>s. sum_list (window (unat (ds_start s)) (unat (ds_len s)) [7, 8, 9])) (dp_shards p)), (), [])"
proof -
  have a: "length [7, 8 :: nat] + length [9 :: nat] \<le> isize_max" by (simp add: isize_max_def)
  have n: "slot_sound (Null :: (unit, nat) task_context raw_ptr)"
    "scheduler_returns (Null :: (unit, nat) task_context raw_ptr)"
    by (simp_all add: slot_sound_def scheduler_returns_def slot_defs)
  show ?thesis
    using plan_map_read_is_sequential [where avail = None and plan = "plan_parts 2" and st = "()"
        and f = "\<lambda>s xs st. (Done (sum_list xs), st)" and g = "\<lambda>s xs. sum_list xs",
        OF a n schedule_of_range refl] by simp
qed

end
