(* ===== verification/BrandedDeque.thy ===== *)
theory BrandedDeque
  imports BrandedVec DequePlan
begin

text \<open>
  \<open>BrandedVecDeque\<close>: \<^verbatim>\<open>src/collections/deque/\<close>, a ring buffer of branded cells. A deque is its
  values in logical order and the layout of its ring: the slot of the first value and the number of
  slots. The buffer, the memory the views address, follows from these: slot
  \<open>(head + i) mod cap\<close> holds value \<open>i\<close>, the others hold a filler nobody reads. Operations change the
  layout as \<open>VecDeque\<close> does; how far it grows is the parameter of \<^theory_text>\<open>Collections\<close>.
\<close>

section \<open>Storage: \<^verbatim>\<open>vec_deque.rs\<close>\<close>

record 'a std_deque =
  dq_items :: "'a list"
  dq_head :: nat
  dq_cap :: nat

record 'a branded_deque =
  bd_cells :: "'a std_deque"

definition dq_ok :: "'a std_deque \<Rightarrow> bool" where
  "dq_ok d \<longleftrightarrow> length (dq_items d) \<le> dq_cap d \<and> (if dq_cap d = 0 then dq_head d = 0 else dq_head d < dq_cap d)"

definition dq_slot :: "'a std_deque \<Rightarrow> nat \<Rightarrow> nat" where
  "dq_slot d i = (let j = dq_head d + i in if j < dq_cap d then j else j - dq_cap d)"

text \<open>The length of the segment before the wrap.\<close>

definition dq_front_len :: "'a std_deque \<Rightarrow> nat" where
  "dq_front_len d = min (length (dq_items d)) (dq_cap d - dq_head d)"

text \<open>The memory of the ring.\<close>

definition dq_buffer :: "'a \<Rightarrow> 'a std_deque \<Rightarrow> 'a list" where
  "dq_buffer filler d =
     (let k = dq_front_len d; gap = dq_cap d - length (dq_items d); xs = dq_items d
      in if dq_head d + length xs \<le> dq_cap d
         then replicate (dq_head d) filler @ xs @ replicate (dq_cap d - dq_head d - length xs) filler
         else drop k xs @ replicate gap filler @ take k xs)"

text \<open>\<open>handle_capacity_increase\<close>: a ring that wraps copies the shorter segment.\<close>

definition dq_grow :: "grow_policy \<Rightarrow> nat \<Rightarrow> 'a std_deque \<Rightarrow> 'a std_deque" where
  "dq_grow grow n d =
     (if n \<le> dq_cap d then d
      else let cap = grow (dq_cap d) n;
               len = length (dq_items d);
               head_len = dq_cap d - dq_head d;
               tail_len = len - head_len
           in if dq_head d + len \<le> dq_cap d \<or> (tail_len < head_len \<and> tail_len \<le> cap - dq_cap d)
              then d\<lparr>dq_cap := cap\<rparr>
              else d\<lparr>dq_cap := cap, dq_head := cap - head_len\<rparr>)"

definition dq_empty :: "nat \<Rightarrow> 'a std_deque" where
  "dq_empty cap = \<lparr>dq_items = [], dq_head = 0, dq_cap = cap\<rparr>"

definition bd_new :: "'a branded_deque" where
  "bd_new = \<lparr>bd_cells = dq_empty 0\<rparr>"

definition bd_with_capacity :: "grow_policy \<Rightarrow> usize \<Rightarrow> 'a branded_deque" where
  "bd_with_capacity grow capacity = \<lparr>bd_cells = dq_empty (reserve_cap grow 0 (unat capacity))\<rparr>"

abbreviation bd_items :: "'a branded_deque \<Rightarrow> 'a list" where
  "bd_items q \<equiv> dq_items (bd_cells q)"

definition bd_ok :: "'a branded_deque \<Rightarrow> bool" where
  "bd_ok q \<longleftrightarrow> dq_ok (bd_cells q)"

definition bd_len :: "'a branded_deque \<Rightarrow> usize" where
  "bd_len q = of_nat (length (bd_items q))"

definition bd_is_empty :: "'a branded_deque \<Rightarrow> bool" where
  "bd_is_empty q \<longleftrightarrow> bd_items q = []"

definition bd_capacity :: "'a branded_deque \<Rightarrow> nat" where
  "bd_capacity q = dq_cap (bd_cells q)"

definition on_cells :: "('a std_deque \<Rightarrow> 'a std_deque) \<Rightarrow> 'a branded_deque \<Rightarrow> 'a branded_deque" where
  "on_cells f q = q\<lparr>bd_cells := f (bd_cells q)\<rparr>"

text \<open>The two conversions reinterpret the same deque.\<close>

definition bd_from :: "'a std_deque \<Rightarrow> 'a branded_deque" where
  "bd_from values = \<lparr>bd_cells = values\<rparr>"

definition bd_into_vec_deque :: "'a branded_deque \<Rightarrow> 'a std_deque" where
  "bd_into_vec_deque q = bd_cells q"

definition bd_into_iter :: "'a branded_deque \<Rightarrow> 'a list" where
  "bd_into_iter q = dq_items (bd_into_vec_deque q)"

section \<open>Operations: \<^verbatim>\<open>ops.rs\<close>\<close>

definition bd_push_back :: "grow_policy \<Rightarrow> 'a \<Rightarrow> 'a branded_deque \<Rightarrow> 'a branded_deque" where
  "bd_push_back grow value = on_cells (\<lambda>d.
     let d = dq_grow grow (Suc (length (dq_items d))) d in d\<lparr>dq_items := dq_items d @ [value]\<rparr>)"

definition bd_push_front :: "grow_policy \<Rightarrow> 'a \<Rightarrow> 'a branded_deque \<Rightarrow> 'a branded_deque" where
  "bd_push_front grow value = on_cells (\<lambda>d.
     let d = dq_grow grow (Suc (length (dq_items d))) d
     in d\<lparr>dq_items := value # dq_items d,
          dq_head := (if dq_head d = 0 then dq_cap d - 1 else dq_head d - 1)\<rparr>)"

definition bd_pop_back :: "'a branded_deque \<Rightarrow> 'a option \<times> 'a branded_deque" where
  "bd_pop_back q =
     (if bd_items q = [] then (None, q)
      else (Some (last (bd_items q)), on_cells (\<lambda>d. d\<lparr>dq_items := butlast (dq_items d)\<rparr>) q))"

definition bd_pop_front :: "'a branded_deque \<Rightarrow> 'a option \<times> 'a branded_deque" where
  "bd_pop_front q =
     (if bd_items q = [] then (None, q)
      else (Some (hd (bd_items q)),
            on_cells (\<lambda>d. d\<lparr>dq_items := tl (dq_items d), dq_head := dq_slot d 1\<rparr>) q))"

definition bd_clear :: "'a branded_deque \<Rightarrow> 'a branded_deque" where
  "bd_clear = on_cells (\<lambda>d. d\<lparr>dq_items := [], dq_head := 0\<rparr>)"

definition bd_reserve :: "grow_policy \<Rightarrow> usize \<Rightarrow> 'a branded_deque \<Rightarrow> 'a branded_deque" where
  "bd_reserve grow additional = on_cells (\<lambda>d. dq_grow grow (length (dq_items d) + unat additional) d)"

text \<open>Shrinking moves the segments that would fall outside the smaller buffer.\<close>

definition bd_shrink_to_fit :: "'a branded_deque \<Rightarrow> 'a branded_deque" where
  "bd_shrink_to_fit = on_cells (\<lambda>d.
     let len = length (dq_items d);
         tail_outside = (len < dq_head d + len \<and> dq_head d + len \<le> dq_cap d)
     in if dq_cap d \<le> len then d
        else if len = 0 then d\<lparr>dq_head := 0, dq_cap := len\<rparr>
        else if len \<le> dq_head d \<and> tail_outside then d\<lparr>dq_head := 0, dq_cap := len\<rparr>
        else if dq_head d < len \<and> tail_outside then d\<lparr>dq_cap := len\<rparr>
        else if dq_cap d < dq_head d + len
             then d\<lparr>dq_head := len - (dq_cap d - dq_head d), dq_cap := len\<rparr>
        else d\<lparr>dq_cap := len\<rparr>)"

definition bd_truncate :: "usize \<Rightarrow> 'a branded_deque \<Rightarrow> 'a branded_deque" where
  "bd_truncate len = on_cells (\<lambda>d. d\<lparr>dq_items := take (unat len) (dq_items d)\<rparr>)"

definition bd_swap :: "usize \<Rightarrow> usize \<Rightarrow> 'a branded_deque \<Rightarrow> unit outcome \<times> 'a branded_deque" where
  "bd_swap a b q =
     (if unat a < length (bd_items q) \<and> unat b < length (bd_items q)
      then (Done (), on_cells (\<lambda>d. d\<lparr>dq_items := list_swap (unat a) (unat b) (dq_items d)\<rparr>) q)
      else (Panicked IndexOutOfBounds, q))"

text \<open>Dropping the drain closes the hole from its shorter side.\<close>

definition bd_drain :: "bound \<Rightarrow> bound \<Rightarrow> 'a branded_deque \<Rightarrow> 'a branded_drain outcome \<times> 'a branded_deque" where
  "bd_drain lo hi q =
     (case range_resolve lo hi (length (bd_items q)) of
        Panicked p \<Rightarrow> (Panicked p, q)
      | Done (a, b) \<Rightarrow>
          (Done \<lparr>dr_inner = take (b - a) (drop a (bd_items q))\<rparr>,
           on_cells (\<lambda>d.
             let rest = take a (dq_items d) @ drop b (dq_items d)
             in d\<lparr>dq_items := rest,
                  dq_head := (if rest = [] then 0
                              else if a < length rest - a then dq_slot d (b - a) else dq_head d)\<rparr>) q))"

definition bd_drain_next :: "'a branded_drain \<Rightarrow> 'a option \<times> 'a branded_drain" where
  "bd_drain_next d =
     (case dr_inner d of [] \<Rightarrow> (None, d) | x # xs \<Rightarrow> (Some x, d\<lparr>dr_inner := xs\<rparr>))"

definition bd_drain_next_back :: "'a branded_drain \<Rightarrow> 'a option \<times> 'a branded_drain" where
  "bd_drain_next_back d =
     (if dr_inner d = [] then (None, d)
      else (Some (last (dr_inner d)), d\<lparr>dr_inner := butlast (dr_inner d)\<rparr>))"

definition bd_drain_size_hint :: "'a branded_drain \<Rightarrow> nat \<times> nat option" where
  "bd_drain_size_hint d = (length (dr_inner d), Some (length (dr_inner d)))"

fun bd_drain_ends :: "bool list \<Rightarrow> 'a branded_drain \<Rightarrow> 'a option list \<times> 'a branded_drain" where
  "bd_drain_ends [] d = ([], d)"
| "bd_drain_ends (front # asks) d =
     (let (x, d) = (if front then bd_drain_next d else bd_drain_next_back d);
          (xs, d) = bd_drain_ends asks d
      in (x # xs, d))"

lemma bd_drain_ends_eq: "bd_drain_ends asks d = drain_ends asks d"
  by (induction asks arbitrary: d)
    (simp_all add: bd_drain_next_def bd_drain_next_back_def drain_next_def drain_next_back_def)

definition bd_split_off :: "grow_policy \<Rightarrow> usize \<Rightarrow> 'a branded_deque \<Rightarrow> 'a branded_deque outcome \<times> 'a branded_deque" where
  "bd_split_off grow at q =
     (if length (bd_items q) < unat at then (Panicked IndexOutOfBounds, q)
      else (Done \<lparr>bd_cells = (dq_empty (reserve_cap grow 0 (length (bd_items q) - unat at)))
                    \<lparr>dq_items := drop (unat at) (bd_items q)\<rparr>\<rparr>,
            on_cells (\<lambda>d. d\<lparr>dq_items := take (unat at) (dq_items d)\<rparr>) q))"

definition bd_append :: "grow_policy \<Rightarrow> 'a branded_deque \<Rightarrow> 'a branded_deque \<Rightarrow> 'a branded_deque \<times> 'a branded_deque" where
  "bd_append grow q other =
     (on_cells (\<lambda>d.
        let d = dq_grow grow (length (dq_items d) + length (bd_items other)) d
        in d\<lparr>dq_items := dq_items d @ bd_items other\<rparr>) q,
      on_cells (\<lambda>d. d\<lparr>dq_items := [], dq_head := 0\<rparr>) other)"

text \<open>
  \<open>VecDeque::retain_mut\<close>: while everything is kept, nothing moves; after the first rejection kept
  values are swapped to the front, and the rest is cut off at the end. A panic leaves the values
  where they are.
\<close>

function retain_swap ::
    "('a, 's) keep \<Rightarrow> nat \<Rightarrow> nat \<Rightarrow> 'a list \<Rightarrow> 's \<Rightarrow> unit outcome \<times> nat \<times> 'a list \<times> 's" where
  "retain_swap f cur idx xs s =
     (if length xs \<le> cur then (Done (), idx, xs, s)
      else case f (xs ! cur) s of
        ((Panicked p, x'), s) \<Rightarrow> (Panicked p, idx, xs[cur := x'], s)
      | ((Done False, x'), s) \<Rightarrow> retain_swap f (Suc cur) idx (xs[cur := x']) s
      | ((Done True, x'), s) \<Rightarrow> retain_swap f (Suc cur) (Suc idx) (list_swap idx cur (xs[cur := x'])) s)"
  by pat_completeness auto
termination
  by (relation "measure (\<lambda>(f, cur, idx, xs, s). length xs - cur)") auto

function retain_stay ::
    "('a, 's) keep \<Rightarrow> nat \<Rightarrow> 'a list \<Rightarrow> 's \<Rightarrow> unit outcome \<times> nat \<times> 'a list \<times> 's" where
  "retain_stay f cur xs s =
     (if length xs \<le> cur then (Done (), cur, xs, s)
      else case f (xs ! cur) s of
        ((Panicked p, x'), s) \<Rightarrow> (Panicked p, cur, xs[cur := x'], s)
      | ((Done False, x'), s) \<Rightarrow> retain_swap f (Suc cur) cur (xs[cur := x']) s
      | ((Done True, x'), s) \<Rightarrow> retain_stay f (Suc cur) (xs[cur := x']) s)"
  by pat_completeness auto
termination
  by (relation "measure (\<lambda>(f, cur, xs, s). length xs - cur)") auto

definition bd_retain_mut ::
    "('a, 's) keep \<Rightarrow> 's \<Rightarrow> 'a branded_deque \<Rightarrow> unit outcome \<times> 's \<times> 'a branded_deque" where
  "bd_retain_mut f s q =
     (let (r, idx, xs, s) = retain_stay f 0 (bd_items q) s
      in (r, s, on_cells (\<lambda>d. d\<lparr>dq_items := (if is_done r then take idx xs else xs)\<rparr>) q))"

fun bd_extend ::
    "grow_policy \<Rightarrow> ('a, 's) producer list \<Rightarrow> 's \<Rightarrow> 'a branded_deque \<Rightarrow> unit outcome \<times> 's \<times> 'a branded_deque" where
  "bd_extend grow [] s q = (Done (), s, q)"
| "bd_extend grow (g # gs) s q =
     (case g s of
        (Panicked p, s) \<Rightarrow> (Panicked p, s, q)
      | (Done x, s) \<Rightarrow> bd_extend grow gs s (bd_push_back grow x q))"

definition bd_from_iter ::
    "grow_policy \<Rightarrow> ('a, 's) producer list \<Rightarrow> 's \<Rightarrow> 'a branded_deque outcome \<times> 's" where
  "bd_from_iter grow it s =
     (let (r, s, values) = bd_extend grow it s bd_new in (map_done (\<lambda>_. values) r, s))"

section \<open>Views: \<^verbatim>\<open>views.rs\<close>\<close>

definition ring_cell :: "'a branded_deque \<Rightarrow> nat \<Rightarrow> melinoe_cell" where
  "ring_cell q i = \<lparr>mc_value = dq_slot (bd_cells q) i\<rparr>"

definition bd_get :: "usize \<Rightarrow> 'a branded_deque \<Rightarrow> ('a list, 'a) melinoe_ref option" where
  "bd_get index q =
     (if unat index < length (bd_items q) then Some (cell_borrow (ring_cell q (unat index))) else None)"

definition bd_get_mut :: "usize \<Rightarrow> 'a branded_deque \<Rightarrow> ('a list, 'a) melinoe_mut option" where
  "bd_get_mut index q =
     (if unat index < length (bd_items q) then Some (cell_borrow_mut (ring_cell q (unat index))) else None)"

text \<open>The segments of the ring, as slices of its buffer.\<close>

definition ring_slices :: "'a std_deque \<Rightarrow> slice_ref \<times> slice_ref" where
  "ring_slices d =
     (let k = dq_front_len d
      in (\<lparr>ptr = dq_head d, meta = of_nat k\<rparr>, \<lparr>ptr = 0, meta = of_nat (length (dq_items d) - k)\<rparr>))"

definition bd_as_slices :: "'a branded_deque \<Rightarrow> slice_ref \<times> slice_ref" where
  "bd_as_slices q =
     (let (s1, s2) = ring_slices (bd_cells q) in (slice_as_unsafe_cell s1, slice_as_unsafe_cell s2))"

definition bd_as_mut_slices :: "'a branded_deque \<Rightarrow> slice_ref \<times> slice_ref" where
  "bd_as_mut_slices q =
     (let (s1, s2) = ring_slices (bd_cells q) in (slice_as_unsafe_cell s1, slice_as_unsafe_cell s2))"

text \<open>What the two shared slices hold, in the memory of the ring.\<close>

definition read_slices :: "'a list \<Rightarrow> 'a branded_deque \<Rightarrow> 'a list \<times> 'a list" where
  "read_slices mem q = (let (s1, s2) = bd_as_slices q in (slice_read s1 mem, slice_read s2 mem))"

definition bd_borrow_cow :: "('a \<Rightarrow> 'a) \<Rightarrow> 'a list \<Rightarrow> 'a branded_deque \<Rightarrow> 'a cow" where
  "bd_borrow_cow clone mem q =
     (let (s1, s2) = read_slices mem q in cow_from_segments clone s1 s2 Borrowed)"

definition bd_retain_cow :: "('a \<Rightarrow> 'a) \<Rightarrow> 'a list \<Rightarrow> 'a branded_deque \<Rightarrow> 'a cow" where
  "bd_retain_cow clone mem q =
     (let (s1, s2) = read_slices mem q in cow_from_segments clone s1 s2 Retained)"

fun bd_cow_if :: "('a \<Rightarrow> 'a) \<Rightarrow> 'a list \<Rightarrow> retain_decision \<Rightarrow> 'a branded_deque \<Rightarrow> 'a cow" where
  "bd_cow_if clone mem DecideBorrow q = bd_borrow_cow clone mem q"
| "bd_cow_if clone mem DecideRetain q = bd_retain_cow clone mem q"

definition bd_cow_with :: "('a \<Rightarrow> 'a) \<Rightarrow> 'a list \<Rightarrow> cow_policy \<Rightarrow> 'a branded_deque \<Rightarrow> 'a cow" where
  "bd_cow_with clone mem policy q =
     (let (s1, s2) = read_slices mem q in cow_from_segments clone s1 s2 policy)"

definition bd_clone_with :: "grow_policy \<Rightarrow> ('a \<Rightarrow> 'a) \<Rightarrow> 'a list \<Rightarrow> 'a branded_deque \<Rightarrow> 'a branded_deque" where
  "bd_clone_with grow clone mem q =
     (let (s1, s2) = read_slices mem q
      in snd (snd (bd_extend grow (map (\<lambda>x s. (Done (clone x), s)) (s1 @ s2)) () (bd_with_capacity grow (bd_len q)))))"

section \<open>Partitioned phases: \<^verbatim>\<open>partition.rs\<close>\<close>

text \<open>The buffer is the memory; a mutable phase returns it changed.\<close>

definition with_plan ::
    "nonzero_usize option \<Rightarrow> partition_plan \<Rightarrow> slice_ref \<times> slice_ref
       \<Rightarrow> (deque_shard_plan \<Rightarrow> ('m, 'r) driven) \<Rightarrow> 'm \<Rightarrow> ('m, 'r) driven option" where
  "with_plan avail plan slices body st =
     (let (s1, s2) = slices
      in case from_lengths avail (meta s1) (meta s2) plan of
           None \<Rightarrow> None
         | Some (Panicked p) \<Rightarrow> Some (Unwound p, st, [])
         | Some (Done shards) \<Rightarrow> Some (body shards))"

definition bd_partition_map_with ::
    "('m, 'r) task_context raw_ptr \<Rightarrow> scheduling \<Rightarrow> nonzero_usize option \<Rightarrow> partition_plan
       \<Rightarrow> ('a, 'm, 'r) read_fn \<Rightarrow> 'a list \<Rightarrow> 'a branded_deque \<Rightarrow> 'm \<Rightarrow> ('m, 'r) driven option" where
  "bd_partition_map_with slot sched avail plan f mem q st =
     with_plan avail plan (bd_as_slices q)
       (\<lambda>p. plan_map_read slot sched avail p (fst (read_slices mem q)) (snd (read_slices mem q)) f st) st"

definition bd_partition_for_each_with ::
    "('m, unit) task_context raw_ptr \<Rightarrow> scheduling \<Rightarrow> nonzero_usize option \<Rightarrow> partition_plan
       \<Rightarrow> ('a, 'm, unit) read_fn \<Rightarrow> 'a list \<Rightarrow> 'a branded_deque \<Rightarrow> 'm \<Rightarrow> ('m, unit) driven option" where
  "bd_partition_for_each_with slot sched avail plan f mem q st =
     with_plan avail plan (bd_as_slices q)
       (\<lambda>p. plan_for_each_read slot sched avail p (fst (read_slices mem q)) (snd (read_slices mem q)) f st) st"

definition bd_partition_map_mut_with ::
    "('a, 'r) slot_ptr \<Rightarrow> scheduling \<Rightarrow> nonzero_usize option \<Rightarrow> partition_plan
       \<Rightarrow> ('a, 'r) shard_fn \<Rightarrow> 'a list \<Rightarrow> 'a branded_deque \<Rightarrow> ('a list, 'r) driven option" where
  "bd_partition_map_mut_with slot sched avail plan f mem q =
     (let (s1, s2) = ring_slices (bd_cells q)
      in with_plan avail plan (s1, s2) (\<lambda>p. plan_map_mut slot sched avail p s1 s2 f mem) mem)"

definition bd_partition_for_each_mut_with ::
    "('a, unit) slot_ptr \<Rightarrow> scheduling \<Rightarrow> nonzero_usize option \<Rightarrow> partition_plan
       \<Rightarrow> ('a, unit) shard_fn \<Rightarrow> 'a list \<Rightarrow> 'a branded_deque \<Rightarrow> ('a list, unit) driven option" where
  "bd_partition_for_each_mut_with slot sched avail plan f mem q =
     (let (s1, s2) = ring_slices (bd_cells q)
      in with_plan avail plan (s1, s2) (\<lambda>p. plan_for_each_mut slot sched avail p s1 s2 f mem) mem)"

section \<open>The layout\<close>

lemma dq_slot_bound: "dq_ok d \<Longrightarrow> i < length (dq_items d) \<Longrightarrow> dq_slot d i < dq_cap d"
  by (auto simp: dq_ok_def dq_slot_def Let_def split: if_splits)

lemma dq_slot_inj:
  "dq_ok d \<Longrightarrow> i < length (dq_items d) \<Longrightarrow> j < length (dq_items d) \<Longrightarrow> dq_slot d i = dq_slot d j \<longleftrightarrow> i = j"
  by (auto simp: dq_ok_def dq_slot_def Let_def split: if_splits)

lemma dq_front_len_le [simp]: "dq_front_len d \<le> length (dq_items d)"
  by (simp add: dq_front_len_def)

lemma dq_front_len_wrapped:
  "\<not> dq_head d + length (dq_items d) \<le> dq_cap d \<Longrightarrow> dq_front_len d = dq_cap d - dq_head d"
  by (simp add: dq_front_len_def)

lemma dq_front_len_contiguous:
  "dq_head d + length (dq_items d) \<le> dq_cap d \<Longrightarrow> dq_front_len d = length (dq_items d)"
  by (simp add: dq_front_len_def)

lemma length_dq_buffer [simp]: "dq_ok d \<Longrightarrow> length (dq_buffer filler d) = dq_cap d"
  by (auto simp: dq_buffer_def dq_ok_def Let_def min_def dq_front_len_def split: if_splits)

lemma dq_buffer_nth:
  assumes "dq_ok d" "i < length (dq_items d)"
  shows "dq_buffer filler d ! dq_slot d i = dq_items d ! i"
proof (cases "dq_head d + length (dq_items d) \<le> dq_cap d")
  case True
  with assms show ?thesis by (simp add: dq_buffer_def dq_slot_def nth_append Let_def)
next
  case False
  let ?k = "dq_cap d - dq_head d"
  from assms False have le: "length (dq_items d) \<le> dq_cap d" "dq_head d < dq_cap d" "?k \<le> length (dq_items d)"
    by (auto simp: dq_ok_def split: if_splits)
  have buf: "dq_buffer filler d
      = drop ?k (dq_items d) @ replicate (dq_cap d - length (dq_items d)) filler @ take ?k (dq_items d)"
    using False by (simp add: dq_buffer_def dq_front_len_wrapped Let_def)
  show ?thesis
  proof (cases "dq_head d + i < dq_cap d")
    case True
    with le have "dq_slot d i = (length (dq_items d) - ?k) + ((dq_cap d - length (dq_items d)) + i)"
      by (simp add: dq_slot_def)
    with True show ?thesis unfolding buf by (simp add: nth_append)
  next
    case False
    with le assms(2) have "dq_slot d i = i - ?k" "i - ?k < length (dq_items d) - ?k" "?k \<le> i"
      by (simp_all add: dq_slot_def)
    then show ?thesis unfolding buf by (simp add: nth_append)
  qed
qed

lemma dq_buffer_update:
  assumes "dq_ok d" "i < length (dq_items d)"
  shows "(dq_buffer filler d)[dq_slot d i := v] = dq_buffer filler (d\<lparr>dq_items := (dq_items d)[i := v]\<rparr>)"
proof (cases "dq_head d + length (dq_items d) \<le> dq_cap d")
  case True
  with assms show ?thesis by (simp add: dq_buffer_def dq_slot_def list_update_append Let_def)
next
  case False
  let ?k = "dq_cap d - dq_head d"
  from assms False have le: "length (dq_items d) \<le> dq_cap d" "dq_head d < dq_cap d" "?k \<le> length (dq_items d)"
    by (auto simp: dq_ok_def split: if_splits)
  have buf: "dq_buffer filler (d\<lparr>dq_items := xs\<rparr>)
      = drop ?k xs @ replicate (dq_cap d - length xs) filler @ take ?k xs"
    if "length xs = length (dq_items d)" for xs
    using False that by (simp add: dq_buffer_def dq_front_len_def Let_def)
  note b = buf [OF refl, simplified] buf [of "(dq_items d)[i := v]", simplified]
  show ?thesis
  proof (cases "dq_head d + i < dq_cap d")
    case True
    with le have s: "dq_slot d i = (length (dq_items d) - ?k) + ((dq_cap d - length (dq_items d)) + i)"
      by (simp add: dq_slot_def)
    from True have "drop ?k ((dq_items d)[i := v]) = drop ?k (dq_items d)" by simp
    with s show ?thesis unfolding b
      by (simp add: list_update_append take_update_swap)
  next
    case f: False
    with le assms(2) have s: "dq_slot d i = i - ?k" "i - ?k < length (dq_items d) - ?k" "?k \<le> i"
      by (simp_all add: dq_slot_def)
    then have "take ?k ((dq_items d)[i := v]) = take ?k (dq_items d)" by simp
    with s show ?thesis unfolding b
      by (simp add: list_update_append drop_update_swap)
  qed
qed

lemma ring_slices_facts:
  assumes "dq_ok d" "length (dq_items d) \<le> isize_max" "ring_slices d = (s1, s2)"
  shows "unat (meta s1) = dq_front_len d" "unat (meta s2) = length (dq_items d) - dq_front_len d"
    "slice_in s1 (dq_buffer filler d)" "slice_in s2 (dq_buffer filler d)"
    "slice_read s1 (dq_buffer filler d) = take (dq_front_len d) (dq_items d)"
    "slice_read s2 (dq_buffer filler d) = drop (dq_front_len d) (dq_items d)"
    "apart (ptr s1) (unat (meta s1)) (ptr s2) (unat (meta s2))"
proof -
  let ?k = "dq_front_len d" and ?n = "length (dq_items d)"
  have lt: "?n < 2 ^ 64" using assms(2) by (simp add: isize_max_def)
  have s: "s1 = \<lparr>ptr = dq_head d, meta = of_nat ?k\<rparr>" "s2 = \<lparr>ptr = 0, meta = of_nat (?n - ?k)\<rparr>"
    using assms(3) by (simp_all add: ring_slices_def Let_def)
  show m: "unat (meta s1) = ?k" "unat (meta s2) = ?n - ?k"
    using lt unat_of_nat_usize [of ?k] unat_of_nat_usize [of "?n - ?k"] dq_front_len_le [of d]
    by (simp_all only: s slice_ref.simps)
  have len: "length (dq_buffer filler d) = dq_cap d" using assms(1) by simp
  have fit: "dq_head d + ?k \<le> dq_cap d" "?n - ?k \<le> dq_head d" "?n \<le> dq_cap d" if "0 < ?n"
    using assms(1) that by (auto simp: dq_ok_def dq_front_len_def split: if_splits)
  have ptrs: "ptr s1 = dq_head d" "ptr s2 = 0" by (simp_all add: s)
  have hd: "dq_head d \<le> dq_cap d" using assms(1) by (auto simp: dq_ok_def split: if_splits)
  have bounds: "dq_head d + ?k \<le> dq_cap d" "?n - ?k \<le> dq_head d" "?n \<le> dq_cap d"
    using fit hd dq_front_len_le [of d] by (cases "0 < ?n"; linarith)+
  show "slice_in s1 (dq_buffer filler d)" "slice_in s2 (dq_buffer filler d)"
    using bounds hd by (simp_all only: slice_in_def m len ptrs add_0)
  have first: "dq_buffer filler d ! (dq_head d + i) = dq_items d ! i" if "i < ?k" for i
  proof -
    have "dq_slot d i = dq_head d + i" using that by (auto simp: dq_slot_def dq_front_len_def Let_def)
    with dq_buffer_nth [OF assms(1), of i filler] that dq_front_len_le [of d] show ?thesis by simp
  qed
  show "slice_read s1 (dq_buffer filler d) = take ?k (dq_items d)"
    unfolding slice_read_def m
    by (rule nth_equalityI) (use first bounds dq_front_len_le [of d] in \<open>simp_all add: ptrs window_def len\<close>)
  have second: "dq_buffer filler d ! i = dq_items d ! (?k + i)" if "i < ?n - ?k" for i
  proof -
    have "dq_slot d (?k + i) = i" using that fit hd by (auto simp: dq_slot_def dq_front_len_def Let_def)
    with dq_buffer_nth [OF assms(1), of "?k + i" filler] that show ?thesis by simp
  qed
  show "slice_read s2 (dq_buffer filler d) = drop ?k (dq_items d)"
    unfolding slice_read_def m
    by (rule nth_equalityI) (use second bounds hd in \<open>simp_all add: ptrs window_def len\<close>)
  show "apart (ptr s1) (unat (meta s1)) (ptr s2) (unat (meta s2))"
    using bounds(2) unfolding apart_def m ptrs by simp
qed

section \<open>Every operation keeps a valid layout\<close>

lemma bd_items_on_cells [simp]: "bd_items (on_cells f q) = dq_items (f (bd_cells q))"
  by (simp add: on_cells_def)

lemma bd_ok_on_cells [simp]: "bd_ok (on_cells f q) = dq_ok (f (bd_cells q))"
  by (simp add: on_cells_def bd_ok_def)

lemma dq_items_grow [simp]: "dq_items (dq_grow grow n d) = dq_items d"
  by (simp add: dq_grow_def Let_def)

lemma dq_grow_ok:
  assumes "dq_ok d" "grows_enough grow"
  shows "dq_ok (dq_grow grow n d)" "n \<le> dq_cap (dq_grow grow n d)"
proof -
  have "n \<le> grow (dq_cap d) n" using assms(2) by simp
  then show "dq_ok (dq_grow grow n d)" "n \<le> dq_cap (dq_grow grow n d)"
    using assms(1) unfolding dq_ok_def dq_grow_def
    by (auto simp: Let_def split: if_splits)
qed

text \<open>Growing leaves every value in the segments it was in, or makes the ring contiguous.\<close>

lemma dq_grow_front_len:
  assumes "dq_ok d" "grows_enough grow"
  shows "dq_front_len (dq_grow grow n d) \<in> {dq_front_len d, length (dq_items d)}"
proof -
  have "n \<le> grow (dq_cap d) n" using assms(2) by simp
  with assms(1) show ?thesis
    by (auto simp: dq_ok_def dq_grow_def dq_front_len_def Let_def split: if_splits)
qed

lemma dq_ok_fewer: "dq_ok d \<Longrightarrow> length xs \<le> length (dq_items d) \<Longrightarrow> dq_ok (d\<lparr>dq_items := xs\<rparr>)"
  by (simp add: dq_ok_def)

lemma bd_push_back_ok: "bd_ok q \<Longrightarrow> grows_enough grow \<Longrightarrow> bd_ok (bd_push_back grow x q)"
  using dq_grow_ok [of "bd_cells q" grow "Suc (length (bd_items q))"]
  by (simp add: bd_push_back_def bd_ok_def [of q] Let_def) (simp add: dq_ok_def)

lemma bd_push_front_ok: "bd_ok q \<Longrightarrow> grows_enough grow \<Longrightarrow> bd_ok (bd_push_front grow x q)"
  using dq_grow_ok [of "bd_cells q" grow "Suc (length (bd_items q))"]
  by (simp add: bd_push_front_def bd_ok_def [of q] Let_def) (auto simp: dq_ok_def split: if_splits)

lemma bd_pop_ok: "bd_ok q \<Longrightarrow> bd_ok (snd (bd_pop_back q)) \<and> bd_ok (snd (bd_pop_front q))"
  by (auto simp: bd_pop_back_def bd_pop_front_def bd_ok_def dq_ok_def dq_slot_def Let_def on_cells_def split: if_splits)

lemma bd_shrink_ok: "bd_ok q \<Longrightarrow> bd_ok (bd_shrink_to_fit q)"
  unfolding bd_shrink_to_fit_def bd_ok_on_cells by (auto simp: bd_ok_def dq_ok_def Let_def split: if_splits)

lemma bd_drain_ok: "bd_ok q \<Longrightarrow> bd_ok (snd (bd_drain lo hi q))"
proof (cases "range_resolve lo hi (length (bd_items q))")
  case (Done ab)
  obtain a b where ab: "ab = (a, b)" by (cases ab)
  assume "bd_ok q"
  with Done ab range_resolve_Done [of lo hi "length (bd_items q)" a b] show ?thesis
    by (auto simp: bd_drain_def bd_ok_def dq_ok_def dq_slot_def Let_def on_cells_def split: if_splits)
qed (simp add: bd_drain_def)

interpretation bd: growable "\<lambda>q. grows_enough grow \<and> bd_ok q" bd_items "bd_push_back grow" bd_pop_back
  "bd_split_off grow" "bd_append grow" bd_drain for grow
proof
  fix c d :: "'a branded_deque" and x at lo hi p a b
  assume c: "grows_enough grow \<and> bd_ok c"
  show "grows_enough grow \<and> bd_ok (bd_push_back grow x c)" "bd_items (bd_push_back grow x c) = bd_items c @ [x]"
    using c bd_push_back_ok by (auto simp: bd_push_back_def Let_def)
  show "grows_enough grow \<and> bd_ok (snd (bd_pop_back c))" using c bd_pop_ok by auto
  show "bd_items (snd (bd_pop_back c)) = butlast (bd_items c)"
    "fst (bd_pop_back c) = (if bd_items c = [] then None else Some (last (bd_items c)))"
    by (simp_all add: bd_pop_back_def)
  show "length (bd_items c) < unat at \<Longrightarrow> bd_split_off grow at c = (Panicked IndexOutOfBounds, c)"
    by (simp add: bd_split_off_def)
  show "unat at \<le> length (bd_items c) \<Longrightarrow>
      \<exists>r c'. bd_split_off grow at c = (Done r, c') \<and> (grows_enough grow \<and> bd_ok r) \<and> (grows_enough grow \<and> bd_ok c')
        \<and> bd_items r = drop (unat at) (bd_items c) \<and> bd_items c' = take (unat at) (bd_items c)"
    using c reserve_cap_enough [of grow "length (bd_items c) - unat at" 0]
    by (simp add: bd_split_off_def bd_ok_def [of c] dq_ok_fewer) (simp add: bd_ok_def dq_ok_def dq_empty_def)
  show "grows_enough grow \<and> bd_ok d \<Longrightarrow>
      \<exists>c' d'. bd_append grow c d = (c', d') \<and> (grows_enough grow \<and> bd_ok c') \<and> (grows_enough grow \<and> bd_ok d')
        \<and> bd_items c' = bd_items c @ bd_items d \<and> bd_items d' = []"
    using c dq_grow_ok [of "bd_cells c" grow "length (bd_items c) + length (bd_items d)"]
    by (simp add: bd_append_def bd_ok_def [of c] bd_ok_def [of d] Let_def) (simp add: dq_ok_def)
  show "range_resolve lo hi (length (bd_items c)) = Panicked p \<Longrightarrow> bd_drain lo hi c = (Panicked p, c)"
    by (simp add: bd_drain_def)
  show "range_resolve lo hi (length (bd_items c)) = Done (a, b) \<Longrightarrow>
      \<exists>d c'. bd_drain lo hi c = (Done d, c') \<and> (grows_enough grow \<and> bd_ok c')
        \<and> dr_inner d = take (b - a) (drop a (bd_items c)) \<and> bd_items c' = take a (bd_items c) @ drop b (bd_items c)"
    using c bd_drain_ok [of c lo hi] by (simp add: bd_drain_def Let_def)
qed

lemma bd_extend_eq:
  assumes "bd_extend grow gs s q = (r, s', q')" "grows_enough grow" "bd_ok q"
  shows "\<exists>xs. produce gs s = (r, xs, s') \<and> bd_items q' = bd_items q @ xs \<and> bd_ok q'"
  using bd.extend_produces [where ext = "bd_extend grow" and grow = grow, OF _ _ assms(1)] assms(2,3) by simp

lemma produce_pure: "produce (map (\<lambda>x s. (Done (f x), s)) xs) s = (Done (), map f xs, s)"
  by (induction xs) simp_all

section \<open>The retain loops\<close>

declare retain_swap.simps [simp del] retain_stay.simps [simp del]

definition leaves_values :: "('a, 's) keep \<Rightarrow> bool" where
  "leaves_values f \<longleftrightarrow> (\<forall>x s. snd (fst (f x s)) = x)"

lemma drop_list_swap: "a \<le> b \<Longrightarrow> drop (Suc b) (list_swap a b xs) = drop (Suc b) xs"
  by (simp add: list_swap_def)

lemma take_list_swap: "a \<le> b \<Longrightarrow> b < length xs \<Longrightarrow> take (Suc a) (list_swap a b xs) = take a xs @ [xs ! b]"
  by (auto simp: list_swap_def take_Suc_conv_app_nth nth_list_update)

lemma retain_swap_retained:
  "retain_swap f cur idx xs s = (r, idx', xs', s') \<Longrightarrow> idx \<le> cur \<Longrightarrow> cur \<le> length xs \<Longrightarrow>
     \<exists>ys. retained f (drop cur xs) s = (r, ys, s') \<and> length xs' = length xs \<and> idx' \<le> length xs
       \<and> (is_done r \<longrightarrow> take idx' xs' = take idx xs @ ys)
       \<and> (leaves_values f \<longrightarrow> mset xs' = mset xs)"
proof (induction f cur idx xs s rule: retain_swap.induct)
  case (1 f cur idx xs s)
  show ?case
  proof (cases "cur < length xs")
    case False
    with 1 show ?thesis by (auto simp: retain_swap.simps)
  next
    case True
    obtain q x' s1 where f: "f (xs ! cur) s = ((q, x'), s1)" by (metis prod.collapse)
    have dr: "drop cur xs = xs ! cur # drop (Suc cur) xs" using True by (simp add: Cons_nth_drop_Suc)
    have same: "leaves_values f \<Longrightarrow> xs[cur := x'] = xs" using f by (metis leaves_values_def fst_conv snd_conv list_update_id)
    show ?thesis
    proof (cases q)
      case (Panicked p)
      with 1 True f dr same show ?thesis by (auto simp: retain_swap.simps [of f cur])
    next
      case (Done keep)
      show ?thesis
      proof (cases keep)
        case True
        let ?ys = "list_swap idx cur (xs[cur := x'])"
        have ds: "drop (Suc cur) ?ys = drop (Suc cur) xs" "take (Suc idx) ?ys = take idx xs @ [x']"
          using 1 \<open>cur < length xs\<close> by (simp_all add: drop_list_swap take_list_swap)
        have ms: "leaves_values f \<Longrightarrow> mset ?ys = mset xs"
          using 1(4) \<open>cur < length xs\<close> same by (simp add: list_swap_mset)
        have "retain_swap f (Suc cur) (Suc idx) ?ys s1 = (r, idx', xs', s')"
          using 1(3) True Done f \<open>cur < length xs\<close> by (simp add: retain_swap.simps [of f cur])
        then obtain ys where "retained f (drop (Suc cur) ?ys) s1 = (r, ys, s')" "length xs' = length xs" "idx' \<le> length xs"
          "is_done r \<longrightarrow> take idx' xs' = take (Suc idx) ?ys @ ys" "leaves_values f \<longrightarrow> mset xs' = mset ?ys"
          using 1(1) [of "(Done True, x')" s1 "Done True" x' True] True Done f 1(4) \<open>cur < length xs\<close> by auto
        with True Done f dr ds ms show ?thesis by auto
      next
        case False
        have "retain_swap f (Suc cur) idx (xs[cur := x']) s1 = (r, idx', xs', s')"
          using 1(3) False Done f \<open>cur < length xs\<close> by (simp add: retain_swap.simps [of f cur])
        then obtain ys where "retained f (drop (Suc cur) xs) s1 = (r, ys, s')" "length xs' = length xs" "idx' \<le> length xs"
          "is_done r \<longrightarrow> take idx' xs' = take idx (xs[cur := x']) @ ys" "leaves_values f \<longrightarrow> mset xs' = mset (xs[cur := x'])"
          using 1(2) [of "(Done False, x')" s1 "Done False" x' False] False Done f 1(4) \<open>cur < length xs\<close> by auto
        with False Done f dr same 1(4) show ?thesis by auto
      qed
    qed
  qed
qed

lemma retain_stay_retained:
  "retain_stay f cur xs s = (r, idx', xs', s') \<Longrightarrow> cur \<le> length xs \<Longrightarrow>
     \<exists>ys. retained f (drop cur xs) s = (r, ys, s') \<and> length xs' = length xs
       \<and> (is_done r \<longrightarrow> take idx' xs' = take cur xs @ ys)
       \<and> (leaves_values f \<longrightarrow> mset xs' = mset xs)"
proof (induction f cur xs s rule: retain_stay.induct)
  case (1 f cur xs s)
  show ?case
  proof (cases "cur < length xs")
    case False
    with 1 show ?thesis by (auto simp: retain_stay.simps)
  next
    case True
    obtain q x' s1 where f: "f (xs ! cur) s = ((q, x'), s1)" by (metis prod.collapse)
    have dr: "drop cur xs = xs ! cur # drop (Suc cur) xs" using True by (simp add: Cons_nth_drop_Suc)
    have same: "leaves_values f \<Longrightarrow> xs[cur := x'] = xs"
      using f by (metis leaves_values_def fst_conv snd_conv list_update_id)
    show ?thesis
    proof (cases q)
      case (Panicked p)
      with 1 True f dr same show ?thesis by (auto simp: retain_stay.simps [of f cur])
    next
      case (Done keep)
      show ?thesis
      proof (cases keep)
        case True
        have "retain_stay f (Suc cur) (xs[cur := x']) s1 = (r, idx', xs', s')"
          using 1(2) True Done f \<open>cur < length xs\<close> by (simp add: retain_stay.simps [of f cur])
        then obtain ys where "retained f (drop (Suc cur) xs) s1 = (r, ys, s')" "length xs' = length xs"
          "is_done r \<longrightarrow> take idx' xs' = take (Suc cur) (xs[cur := x']) @ ys"
          "leaves_values f \<longrightarrow> mset xs' = mset (xs[cur := x'])"
          using 1(1) [of "(Done True, x')" s1 "Done True" x' True] True Done f \<open>cur < length xs\<close> by auto
        with True Done f dr same \<open>cur < length xs\<close> show ?thesis
          by (auto simp: take_Suc_conv_app_nth)
      next
        case False
        have "retain_swap f (Suc cur) cur (xs[cur := x']) s1 = (r, idx', xs', s')"
          using 1(2) False Done f \<open>cur < length xs\<close> by (simp add: retain_stay.simps [of f cur])
        from retain_swap_retained [OF this] \<open>cur < length xs\<close>
        obtain ys where "retained f (drop (Suc cur) xs) s1 = (r, ys, s')" "length xs' = length xs"
          "is_done r \<longrightarrow> take idx' xs' = take cur xs @ ys"
          "leaves_values f \<longrightarrow> mset xs' = mset (xs[cur := x'])" by auto
        with False Done f dr same show ?thesis by auto
      qed
    qed
  qed
qed

section \<open>Programs over a deque, and over a list\<close>

datatype 'a deque_op =
    PushBack 'a | PushFront 'a | PopBack | PopFront | SwapAt usize usize
  | TruncateTo usize | ClearAll | ReserveMore usize | ShrinkToFit
  | DrainRange bound bound | Rotate usize

datatype 'a deque_answer = Nothing | Got "'a option" | Ended "unit outcome" | Taken "'a list outcome"

text \<open>\<open>Rotate at\<close> splits off at \<open>at\<close> and appends what was left to what was split off.\<close>

fun deque_step :: "grow_policy \<Rightarrow> 'a deque_op \<Rightarrow> 'a branded_deque \<Rightarrow> 'a deque_answer \<times> 'a branded_deque" where
  "deque_step grow (PushBack x) q = (Nothing, bd_push_back grow x q)"
| "deque_step grow (PushFront x) q = (Nothing, bd_push_front grow x q)"
| "deque_step grow PopBack q = map_prod Got id (bd_pop_back q)"
| "deque_step grow PopFront q = map_prod Got id (bd_pop_front q)"
| "deque_step grow (SwapAt a b) q = map_prod Ended id (bd_swap a b q)"
| "deque_step grow (TruncateTo n) q = (Nothing, bd_truncate n q)"
| "deque_step grow ClearAll q = (Nothing, bd_clear q)"
| "deque_step grow (ReserveMore n) q = (Nothing, bd_reserve grow n q)"
| "deque_step grow ShrinkToFit q = (Nothing, bd_shrink_to_fit q)"
| "deque_step grow (DrainRange lo hi) q =
     (let (d, q) = bd_drain lo hi q in (Taken (map_done dr_inner d), q))"
| "deque_step grow (Rotate at) q =
     (case bd_split_off grow at q of
        (Panicked p, q) \<Rightarrow> (Ended (Panicked p), q)
      | (Done r, q) \<Rightarrow> (Ended (Done ()), fst (bd_append grow r q)))"

text \<open>The same programs over a list, with no storage at all.\<close>

fun list_step :: "'a deque_op \<Rightarrow> 'a list \<Rightarrow> 'a deque_answer \<times> 'a list" where
  "list_step (PushBack x) xs = (Nothing, xs @ [x])"
| "list_step (PushFront x) xs = (Nothing, x # xs)"
| "list_step PopBack xs = (Got (if xs = [] then None else Some (last xs)), butlast xs)"
| "list_step PopFront xs = (Got (if xs = [] then None else Some (hd xs)), tl xs)"
| "list_step (SwapAt a b) xs =
     (if unat a < length xs \<and> unat b < length xs
      then (Ended (Done ()), xs[unat a := xs ! unat b, unat b := xs ! unat a])
      else (Ended (Panicked IndexOutOfBounds), xs))"
| "list_step (TruncateTo n) xs = (Nothing, take (unat n) xs)"
| "list_step ClearAll xs = (Nothing, [])"
| "list_step (ReserveMore n) xs = (Nothing, xs)"
| "list_step ShrinkToFit xs = (Nothing, xs)"
| "list_step (DrainRange lo hi) xs =
     (case range_resolve lo hi (length xs) of
        Panicked p \<Rightarrow> (Taken (Panicked p), xs)
      | Done (a, b) \<Rightarrow> (Taken (Done (take (b - a) (drop a xs))), take a xs @ drop b xs))"
| "list_step (Rotate at) xs =
     (if unat at \<le> length xs then (Ended (Done ()), rotate (unat at) xs)
      else (Ended (Panicked IndexOutOfBounds), xs))"

fun run_deque :: "grow_policy \<Rightarrow> 'a deque_op list \<Rightarrow> 'a branded_deque \<Rightarrow> 'a deque_answer list \<times> 'a branded_deque" where
  "run_deque grow [] q = ([], q)"
| "run_deque grow (c # cs) q =
     (let (a, q) = deque_step grow c q; (as, q) = run_deque grow cs q in (a # as, q))"

fun run_list :: "'a deque_op list \<Rightarrow> 'a list \<Rightarrow> 'a deque_answer list \<times> 'a list" where
  "run_list [] xs = ([], xs)"
| "run_list (c # cs) xs =
     (let (a, xs) = list_step c xs; (as, xs) = run_list cs xs in (a # as, xs))"

lemma bd_rotate:
  assumes "bd_ok q" "grows_enough grow" "unat at \<le> length (bd_items q)"
  shows "\<exists>q'. deque_step grow (Rotate at) q = (Ended (Done ()), q') \<and> bd_ok q'
    \<and> bd_items q' = rotate (unat at) (bd_items q)"
proof -
  have q: "grows_enough grow \<and> bd_ok q" using assms(1,2) by simp
  obtain r q1 where s: "bd_split_off grow at q = (Done r, q1)" "grows_enough grow \<and> bd_ok r" "grows_enough grow \<and> bd_ok q1"
    "bd_items r = drop (unat at) (bd_items q)" "bd_items q1 = take (unat at) (bd_items q)"
    using bd.split_contents [OF q assms(3)] by blast
  obtain c d where "bd_append grow r q1 = (c, d)" "bd_ok c" "bd_items c = bd_items r @ bd_items q1"
    using bd.append_contents [OF s(2,3)] by blast
  with s assms(3) show ?thesis
    by (cases "unat at = length (bd_items q)") (auto simp: rotate_drop_take)
qed

lemma deque_step_refines:
  assumes "bd_ok q" "grows_enough grow" "deque_step grow c q = (a, q')"
  shows "list_step c (bd_items q) = (a, bd_items q') \<and> bd_ok q'"
proof (cases c)
  case (PushBack x)
  with assms show ?thesis using bd_push_back_ok [OF assms(1,2), of x] by (auto simp: bd_push_back_def Let_def)
next
  case (PushFront x)
  with assms show ?thesis using bd_push_front_ok [OF assms(1,2), of x] by (auto simp: bd_push_front_def Let_def)
next
  case PopBack
  with assms show ?thesis using bd_pop_ok [OF assms(1)] by (auto simp: bd_pop_back_def)
next
  case PopFront
  with assms show ?thesis using bd_pop_ok [OF assms(1)] by (auto simp: bd_pop_front_def)
next
  case (SwapAt i j)
  with assms show ?thesis by (auto simp: bd_swap_def list_swap_def dq_ok_fewer bd_ok_def on_cells_def split: if_splits)
next
  case (TruncateTo n)
  with assms show ?thesis by (auto simp: bd_truncate_def dq_ok_fewer bd_ok_def [of q])
next
  case ClearAll
  with assms show ?thesis by (auto simp: bd_clear_def bd_ok_def [of q] dq_ok_def)
next
  case (ReserveMore n)
  with assms dq_grow_ok(1) [of "bd_cells q" grow] show ?thesis by (auto simp: bd_reserve_def bd_ok_def [of q])
next
  case ShrinkToFit
  have "bd_items (bd_shrink_to_fit q) = bd_items q" by (simp add: bd_shrink_to_fit_def Let_def)
  with ShrinkToFit assms show ?thesis using bd_shrink_ok [OF assms(1)] by auto
next
  case (DrainRange lo hi)
  with assms bd_drain_ok [OF assms(1), of lo hi] show ?thesis
    by (cases "range_resolve lo hi (length (bd_items q))") (auto simp: bd_drain_def Let_def split: prod.splits)
next
  case (Rotate at)
  show ?thesis
  proof (cases "unat at \<le> length (bd_items q)")
    case True
    with bd_rotate [OF assms(1,2) True] Rotate assms(3) show ?thesis by auto
  qed (use Rotate assms in \<open>auto simp: bd_split_off_def\<close>)
qed

section \<open>Properties\<close>

text \<open>C24. The views of the ring are the queue. Read in the memory of the ring, the two segments are
  the queue in order, in bounds and disjoint; \<open>get\<close> at an index below the length reads that value of
  the queue, assigning through \<open>get_mut\<close> sets that value and no other, wherever the
  queue wraps, and an index past the end gives no reference.\<close>

lemma ring_views_are_the_queue:
  assumes "bd_ok q" "length (bd_items q) \<le> isize_max"
  shows "(case bd_as_slices q of (s1, s2) \<Rightarrow>
        slice_in s1 (dq_buffer filler (bd_cells q)) \<and> slice_in s2 (dq_buffer filler (bd_cells q))
        \<and> apart (ptr s1) (unat (meta s1)) (ptr s2) (unat (meta s2)))
    \<and> (case read_slices (dq_buffer filler (bd_cells q)) q of (xs, ys) \<Rightarrow> xs @ ys = bd_items q)
    \<and> map_option (\<lambda>g. ref_deref g (dq_buffer filler (bd_cells q))) (bd_get i q)
        = (if unat i < length (bd_items q) then Some (bd_items q ! unat i) else None)
    \<and> map_option (\<lambda>g. mut_assign g v (dq_buffer filler (bd_cells q))) (bd_get_mut i q)
        = (if unat i < length (bd_items q)
           then Some (dq_buffer filler ((bd_cells q)\<lparr>dq_items := (bd_items q)[unat i := v]\<rparr>)) else None)"
proof (intro conjI)
  have ok: "dq_ok (bd_cells q)" using assms(1) by (simp add: bd_ok_def)
  obtain s1 s2 where s: "ring_slices (bd_cells q) = (s1, s2)" by (cases "ring_slices (bd_cells q)")
  note facts = ring_slices_facts(7) [OF ok assms(2) s] ring_slices_facts(3-6) [OF ok assms(2) s, of filler]
  from s facts show "case bd_as_slices q of (s1, s2) \<Rightarrow>
        slice_in s1 (dq_buffer filler (bd_cells q)) \<and> slice_in s2 (dq_buffer filler (bd_cells q))
        \<and> apart (ptr s1) (unat (meta s1)) (ptr s2) (unat (meta s2))"
    by (simp add: bd_as_slices_def)
  from s facts show "case read_slices (dq_buffer filler (bd_cells q)) q of (xs, ys) \<Rightarrow> xs @ ys = bd_items q"
    by (simp add: read_slices_def bd_as_slices_def)
  from ok show "map_option (\<lambda>g. ref_deref g (dq_buffer filler (bd_cells q))) (bd_get i q)
        = (if unat i < length (bd_items q) then Some (bd_items q ! unat i) else None)"
    by (simp add: bd_get_def ring_cell_def cell_borrow_def guard_defs unsafe_cell_get_def dq_buffer_nth)
  from ok show "map_option (\<lambda>g. mut_assign g v (dq_buffer filler (bd_cells q))) (bd_get_mut i q)
        = (if unat i < length (bd_items q)
           then Some (dq_buffer filler ((bd_cells q)\<lparr>dq_items := (bd_items q)[unat i := v]\<rparr>)) else None)"
    by (simp add: bd_get_mut_def ring_cell_def cell_borrow_mut_def guard_defs unsafe_cell_get_def dq_buffer_update)
qed

text \<open>A ring of four slots holding 1, 2, 3 from slot 2 on: it wraps after two values.\<close>

definition wrapped :: "nat branded_deque" where
  "wrapped = bd_from \<lparr>dq_items = [1, 2, 3], dq_head = 2, dq_cap = 4\<rparr>"

lemma wrapped_facts [simp]:
  "bd_ok wrapped" "bd_items wrapped = [1, 2, 3]" "dq_buffer 0 (bd_cells wrapped) = [3, 0, 1, 2]"
  by (simp_all add: wrapped_def bd_from_def bd_ok_def dq_ok_def dq_buffer_def dq_front_len_def Let_def)

lemma ring_views_are_the_queue_witness:
  "map_option (\<lambda>g. ref_deref g [3, 0, 1, 2]) (bd_get 2 wrapped) = Some 3
   \<and> map_option (\<lambda>g. mut_assign g 9 [3, 0, 1, 2]) (bd_get_mut 2 wrapped) = Some [9, 0, 1, 2]
   \<and> bd_get 3 wrapped = None"
proof -
  have l: "length (bd_items wrapped) \<le> isize_max" by (simp add: isize_max_def)
  have b: "dq_buffer 0 ((bd_cells wrapped)\<lparr>dq_items := [1, 2, 9]\<rparr>) = [9, 0, 1, 2 :: nat]"
    by (simp add: wrapped_def bd_from_def dq_buffer_def dq_front_len_def Let_def)
  from ring_views_are_the_queue [OF wrapped_facts(1) l, of 0 2 9]
    ring_views_are_the_queue [OF wrapped_facts(1) l, of 0 3 9] b
  show ?thesis by simp
qed

text \<open>C27. \<open>retain_mut\<close> of the deque. Its in-place loop accepts, rejects, changes and panics exactly
  as one pass over the values in order: on success the queue is the accepted values in
  order. On a panic of a predicate that leaves values as they are no value is lost or duplicated,
  though their order may have changed. The layout stays valid.\<close>

lemma deque_retain_is_one_pass:
  assumes "bd_ok q"
  shows "case bd_retain_mut f s q of (r, s', q') \<Rightarrow>
      bd_ok q'
      \<and> (\<exists>ys. retained f (bd_items q) s = (r, ys, s') \<and> (is_done r \<longrightarrow> bd_items q' = ys))
      \<and> (leaves_values f \<and> \<not> is_done r \<longrightarrow> mset (bd_items q') = mset (bd_items q))"
proof -
  obtain r idx xs s' where r: "retain_stay f 0 (bd_items q) s = (r, idx, xs, s')" by (metis prod_cases4)
  from retain_stay_retained [OF r] obtain ys where
    "retained f (bd_items q) s = (r, ys, s')" "length xs = length (bd_items q)"
    "is_done r \<longrightarrow> take idx xs = ys" "leaves_values f \<longrightarrow> mset xs = mset (bd_items q)" by auto
  with r assms show ?thesis
    by (cases "is_done r") (auto simp: bd_retain_mut_def bd_ok_def [of q] dq_ok_fewer)
qed

lemma deque_retain_is_one_pass_witness:
  "bd_items (snd (snd (bd_retain_mut (\<lambda>x s. ((Done (odd x), x), s)) () wrapped))) = [1, 3]"
  using deque_retain_is_one_pass [OF wrapped_facts(1), of "\<lambda>x s. ((Done (odd x), x), s)" "()"]
  by (cases "bd_retain_mut (\<lambda>x s. ((Done (odd x), x), s)) () wrapped") auto

lemma read_slices_eq:
  assumes "bd_ok q" "length (bd_items q) \<le> isize_max"
  shows "read_slices (dq_buffer filler (bd_cells q)) q
    = (take (dq_front_len (bd_cells q)) (bd_items q), drop (dq_front_len (bd_cells q)) (bd_items q))"
proof -
  have ok: "dq_ok (bd_cells q)" using assms(1) by (simp add: bd_ok_def)
  obtain s1 s2 where s: "ring_slices (bd_cells q) = (s1, s2)" by (cases "ring_slices (bd_cells q)")
  from s ring_slices_facts(5,6) [OF ok assms(2) s, of filler] show ?thesis
    by (simp add: read_slices_def bd_as_slices_def)
qed

lemma dq_front_len_all: "dq_ok d \<Longrightarrow> drop (dq_front_len d) (dq_items d) = [] \<longleftrightarrow> dq_head d + length (dq_items d) \<le> dq_cap d"
  by (auto simp: dq_front_len_def dq_ok_def min_def split: if_splits)

text \<open>The \<open>Cow\<close> boundary of the deque. A borrowing request borrows the ring's own memory exactly
  when the queue does not wrap, and clones every value into an owned vector when it does; a retaining
  request always owns; in every case the elements are the queue in order, and the run-time
  decisions are the static policies. \<open>clone_with\<close> gives a queue of the clones, in order, with a
  valid layout.\<close>

lemma deque_cow_boundary:
  assumes "bd_ok q" "length (bd_items q) \<le> isize_max" "grows_enough grow"
  shows "bd_borrow_cow clone (dq_buffer filler (bd_cells q)) q
      = (if dq_head (bd_cells q) + length (bd_items q) \<le> dq_cap (bd_cells q)
         then CowBorrowed (bd_items q) else CowOwned (map clone (bd_items q)))
    \<and> bd_retain_cow clone (dq_buffer filler (bd_cells q)) q = CowOwned (map clone (bd_items q))
    \<and> bd_cow_if clone mem DecideBorrow q = bd_cow_with clone mem Borrowed q
    \<and> bd_cow_if clone mem DecideRetain q = bd_cow_with clone mem Retained q
    \<and> (let c = bd_clone_with grow clone (dq_buffer filler (bd_cells q)) q in
         bd_ok c \<and> bd_items c = map clone (bd_items q))"
proof -
  let ?k = "dq_front_len (bd_cells q)" and ?xs = "bd_items q"
  note read = read_slices_eq [OF assms(1,2), of filler]
  have ok: "dq_ok (bd_cells q)" using assms(1) by (simp add: bd_ok_def)
  note wraps = dq_front_len_all [OF ok]
  have joined: "map clone (take ?k ?xs) @ map clone (drop ?k ?xs) = map clone ?xs"
    by (simp flip: map_append)
  have whole: "take ?k ?xs = ?xs" if "drop ?k ?xs = []" using append_take_drop_id [of ?k ?xs] that by simp
  have "bd_borrow_cow clone (dq_buffer filler (bd_cells q)) q
      = (if dq_head (bd_cells q) + length ?xs \<le> dq_cap (bd_cells q) then CowBorrowed ?xs else CowOwned (map clone ?xs))"
    using whole by (simp only: bd_borrow_cow_def read cow_from_segments_def joined wraps [symmetric] split_conv
        policy_cow.simps Let_def split: if_split) simp
  moreover have "bd_retain_cow clone (dq_buffer filler (bd_cells q)) q = CowOwned (map clone ?xs)"
    using whole by (simp only: bd_retain_cow_def read cow_from_segments_def joined split_conv
        policy_cow.simps Let_def split: if_split) simp
  moreover have "bd_cow_if clone mem DecideBorrow q = bd_cow_with clone mem Borrowed q"
    "bd_cow_if clone mem DecideRetain q = bd_cow_with clone mem Retained q"
    by (simp_all add: bd_borrow_cow_def bd_retain_cow_def bd_cow_with_def)
  moreover have "let c = bd_clone_with grow clone (dq_buffer filler (bd_cells q)) q in
      bd_ok c \<and> bd_items c = map clone ?xs"
  proof -
    let ?gs = "map (\<lambda>x s. (Done (clone x), s)) ?xs" and ?e = "bd_with_capacity grow (bd_len q) :: 'a branded_deque"
    obtain r s' c where c: "bd_extend grow ?gs () ?e = (r, s', c)" by (metis prod_cases3)
    have "bd_ok ?e" "bd_items ?e = []"
      by (simp_all add: bd_ok_def dq_ok_def bd_with_capacity_def dq_empty_def)
    with bd_extend_eq [OF c assms(3)] have "bd_items c = map clone ?xs" "bd_ok c" by (auto simp: produce_pure)
    with c show ?thesis by (simp add: bd_clone_with_def read Let_def del: map_append)
  qed
  ultimately show ?thesis by blast
qed

lemma deque_cow_boundary_witness:
  "bd_borrow_cow Suc [3, 0, 1, 2] wrapped = CowOwned [2, 3, 4]
   \<and> bd_items (bd_clone_with exactly Suc [3, 0, 1, 2] wrapped) = [2, 3, 4]"
proof -
  have l: "length (bd_items wrapped) \<le> isize_max" by (simp add: isize_max_def)
  have "dq_head (bd_cells wrapped) = 2" "dq_cap (bd_cells wrapped) = 4" by (simp_all add: wrapped_def bd_from_def)
  with deque_cow_boundary [OF wrapped_facts(1) l exactly_grows, of Suc 0] show ?thesis by (simp add: Let_def del: bd_cow_if.simps)
qed

text \<open>Slots outside the segments hold the filler.\<close>

lemma dq_buffer_hole:
  assumes "dq_ok d" "j < dq_cap d" "\<not> (dq_head d \<le> j \<and> j < dq_head d + dq_front_len d)"
    "\<not> j < length (dq_items d) - dq_front_len d"
  shows "dq_buffer filler d ! j = filler"
proof (cases "dq_head d + length (dq_items d) \<le> dq_cap d")
  case True
  with assms have "dq_front_len d = length (dq_items d)" by (simp add: dq_front_len_contiguous)
  with True assms show ?thesis by (auto simp: dq_buffer_def nth_append Let_def)
next
  case False
  with assms have "dq_front_len d = dq_cap d - dq_head d" by (simp add: dq_front_len_wrapped)
  with False assms show ?thesis by (auto simp: dq_buffer_def dq_ok_def nth_append Let_def split: if_splits)
qed

text \<open>Writing the segments in order writes the queue.\<close>

lemma scatter_ring:
  assumes "dq_ok d" "length (dq_items d) \<le> isize_max" "ring_slices d = (s1, s2)" "length ys = length (dq_items d)"
  shows "scatter (positions s1 @ positions s2) ys (dq_buffer filler d) = dq_buffer filler (d\<lparr>dq_items := ys\<rparr>)"
proof (rule scatter_eqI [symmetric])
  let ?d = "d\<lparr>dq_items := ys\<rparr>"
  note F = ring_slices_facts(1,2,7) [OF assms(1-3)] ring_slices_facts(3,4) [OF assms(1-3), of filler]
  have ok: "dq_ok ?d" "length (dq_items ?d) \<le> isize_max" "ring_slices ?d = (s1, s2)"
    using assms by (simp_all add: dq_ok_def ring_slices_def dq_front_len_def)
  note G = ring_slices_facts(3-6) [OF ok, of filler]
  have ptrs: "ptr s1 = dq_head d" "ptr s2 = 0" using assms(3) by (auto simp: ring_slices_def Let_def)
  show "length (dq_buffer filler ?d) = length (dq_buffer filler d)" using assms(1) ok by simp
  show "distinct (positions s1 @ positions s2)" using F(3) by (auto simp: apart_def slice_cells_def)
  show "set (positions s1 @ positions s2) \<subseteq> {..<length (dq_buffer filler d)}"
    using F(4,5) by (auto simp: slice_in_def slice_cells_def)
  show "gather (positions s1 @ positions s2) (dq_buffer filler ?d) = ys"
    using G slice_read_gather [OF G(1)] slice_read_gather [OF G(2)] by (simp add: gather_def)
  fix k assume k: "k < length (dq_buffer filler d)" "k \<notin> set (positions s1 @ positions s2)"
  have "\<not> (dq_head d \<le> k \<and> k < dq_head d + dq_front_len d)" "\<not> k < length (dq_items d) - dq_front_len d"
    using k(2) F(1,2) by (auto simp: positions_def ptrs simp del: set_positions)
  moreover have "dq_front_len ?d = dq_front_len d" using assms(4) by (simp add: dq_front_len_def)
  ultimately show "dq_buffer filler ?d ! k = dq_buffer filler d ! k"
    using dq_buffer_hole [OF assms(1), of k filler] dq_buffer_hole [OF ok(1), of k filler] k(1) assms(1,4) by simp
qed

text \<open>Reading the segments of a plan reads the queue, once per descriptor.\<close>

lemma ring_map_read:
  assumes "dq_ok d" "length (dq_items d) \<le> isize_max" "ring_slices d = (s1, s2)"
    and "consecutive (unat (meta s1)) (unat (meta s2)) 0 (dp_shards p) (length (dq_items d))"
    and "slot_sound slot" "scheduler_returns slot" "\<And>n. schedule_of n (sched n)"
  shows "plan_map_read slot sched avail p (take (dq_front_len d) (dq_items d)) (drop (dq_front_len d) (dq_items d))
      (\<lambda>s xs st. (Done (g s xs), st)) st =
    (Returned (map (\<lambda>s. g (ds_start s) (window (unat (ds_start s)) (unat (ds_len s)) (dq_items d))) (dp_shards p)), st, [])"
proof -
  let ?fs = "take (dq_front_len d) (dq_items d)" and ?bs = "drop (dq_front_len d) (dq_items d)"
  have len: "length ?fs = unat (meta s1)" "length ?bs = unat (meta s2)"
    "unat (meta s1) + unat (meta s2) = length (dq_items d)"
    using ring_slices_facts(1,2) [OF assms(1-3)] by simp_all
  show ?thesis
    using plan_map_read_eq [of ?fs ?bs p slot sched "\<lambda>s xs st. (Done (g s xs), st)" g avail st,
        unfolded len append_take_drop_id] assms(2,4-7) by blast
qed

text \<open>C17. A partitioned phase over a branded deque. Wherever the ring wraps, for every plan, executor
  and order of the shards: the plan is computed and its descriptors follow one another from the
  first value to the last; the mutable driver calls the closure once per descriptor with its logical
  start and exactly the queue's values there, returns the results in logical order and
  leaves, in the memory of the ring, the queue that one sequential pass leaves; the shared
  driver returns the same results and changes nothing.\<close>

lemma deque_partition_is_sequential:
  assumes "bd_ok q" "length (bd_items q) \<le> isize_max"
    and "\<And>s xs. length (h s xs) = length xs" "\<And>s xs. f s xs = (Done (g s xs), h s xs)"
    and "slot_sound slot" "scheduler_returns slot"
    and "slot_sound slot'" "scheduler_returns slot'" "\<And>n. schedule_of n (sched n)"
  shows "\<exists>shards. (case bd_as_slices q of (s1, s2) \<Rightarrow>
        consecutive (unat (meta s1)) (unat (meta s2)) 0 shards (length (bd_items q)))
    \<and> bd_partition_map_mut_with slot sched avail plan f (dq_buffer filler (bd_cells q)) q = Some
        (Returned (map (\<lambda>s. g (ds_start s) (window (unat (ds_start s)) (unat (ds_len s)) (bd_items q))) shards),
         dq_buffer filler ((bd_cells q)\<lparr>dq_items :=
           concat (map (\<lambda>s. h (ds_start s) (window (unat (ds_start s)) (unat (ds_len s)) (bd_items q))) shards)\<rparr>), [])
    \<and> bd_partition_map_with slot' sched avail plan (\<lambda>s xs st. (Done (g s xs), st))
        (dq_buffer filler (bd_cells q)) q st = Some
        (Returned (map (\<lambda>s. g (ds_start s) (window (unat (ds_start s)) (unat (ds_len s)) (bd_items q))) shards), st, [])"
proof -
  let ?d = "bd_cells q" and ?mem = "dq_buffer filler (bd_cells q)" and ?xs = "bd_items q"
  let ?w = "\<lambda>s. window (unat (ds_start s)) (unat (ds_len s)) ?xs"
  have ok: "dq_ok ?d" using assms(1) by (simp add: bd_ok_def)
  obtain s1 s2 where s: "ring_slices ?d = (s1, s2)" by (cases "ring_slices ?d")
  note F = ring_slices_facts(1,2,7) [OF ok assms(2) s] ring_slices_facts(3-6) [OF ok assms(2) s, of filler]
  have whole: "slice_read s1 ?mem @ slice_read s2 ?mem = ?xs" using F(6,7) by simp
  have len: "unat (meta s1) + unat (meta s2) = length ?xs" using F(1,2) by simp
  have k: "keeps_length (f s)" for s using assms(3,4) by (simp add: keeps_length_def)
  obtain p where p: "from_lengths avail (meta s1) (meta s2) plan = Some (Done p)"
    "consecutive (unat (meta s1)) (unat (meta s2)) 0 (dp_shards p) (length ?xs)"
    using from_lengths_returns [of "meta s1" "meta s2" avail plan] len assms(2) by metis
  have inv: "deque_invar (s1, s2, dp_shards p)" using F(3) len assms(2) p(2) by (simp add: deque_invar_def)
  let ?rs = "map (\<lambda>s. f (ds_start s) (?w s)) (dp_shards p)"
  have col: "collected ?rs (positions s1 @ positions s2) ?mem (plan_map_mut slot sched avail p s1 s2 f ?mem)"
    using plan_map_mut_collected [where f = f and sched = sched, OF inv F(4,5) k assms(5,6,9)] whole by simp
  have rs: "map fst ?rs = map Done (map (\<lambda>s. g (ds_start s) (?w s)) (dp_shards p))"
    "concat (map snd ?rs) = concat (map (\<lambda>s. h (ds_start s) (?w s)) (dp_shards p))"
    by (simp_all add: assms(4) comp_def)
  have "length (concat (map snd ?rs)) = length ?xs"
    unfolding rs(2) using consecutive_length [OF p(2) order_refl assms(3)] by simp
  then have mut_eq: "plan_map_mut slot sched avail p s1 s2 f ?mem =
      (Returned (map (\<lambda>s. g (ds_start s) (?w s)) (dp_shards p)),
       dq_buffer filler (?d\<lparr>dq_items := concat (map (\<lambda>s. h (ds_start s) (?w s)) (dp_shards p))\<rparr>), [])"
    unfolding collected_done [OF col rs(1)] rs(2) [symmetric] by (simp add: scatter_ring [OF ok assms(2) s])
  then have mut: "bd_partition_map_mut_with slot sched avail plan f ?mem q = Some
      (Returned (map (\<lambda>s. g (ds_start s) (?w s)) (dp_shards p)),
       dq_buffer filler (?d\<lparr>dq_items := concat (map (\<lambda>s. h (ds_start s) (?w s)) (dp_shards p))\<rparr>), [])"
    by (simp add: bd_partition_map_mut_with_def with_plan_def s p(1))
  have read: "bd_partition_map_with slot' sched avail plan (\<lambda>s xs st. (Done (g s xs), st)) ?mem q st = Some
      (Returned (map (\<lambda>s. g (ds_start s) (?w s)) (dp_shards p)), st, [])"
    using ring_map_read [where p = p, OF ok assms(2) s _ assms(7,8,9)] p
    by (simp add: bd_partition_map_with_def with_plan_def bd_as_slices_def s read_slices_eq [OF assms(1,2)])
  show ?thesis using p(2) mut read s by (intro exI [of _ "dp_shards p"]) (simp add: bd_as_slices_def)
qed

lemma deque_partition_is_sequential_witness:
  "\<exists>shards. consecutive 2 1 0 shards 3
    \<and> bd_partition_map_mut_with Null usize_range None (plan_chunk_size 2) sum_and_double [3, 0, 1, 2] wrapped = Some
        (Returned (map (\<lambda>s. unat (ds_start s) + sum_list (window (unat (ds_start s)) (unat (ds_len s)) [1, 2, 3])) shards),
         dq_buffer 0 ((bd_cells wrapped)\<lparr>dq_items :=
           concat (map (\<lambda>s. map ((*) 2) (window (unat (ds_start s)) (unat (ds_len s)) [1, 2, 3])) shards)\<rparr>), [])"
proof -
  have l: "length (bd_items wrapped) \<le> isize_max" by (simp add: isize_max_def)
  have n: "slot_sound (Null :: (nat, nat) slot_ptr)" "scheduler_returns (Null :: (nat, nat) slot_ptr)"
    by (simp_all add: slot_sound_def scheduler_returns_def slot_defs)
  have m: "slot_sound (Null :: (unit, nat) task_context raw_ptr)"
    "scheduler_returns (Null :: (unit, nat) task_context raw_ptr)"
    by (simp_all add: slot_sound_def scheduler_returns_def slot_defs)
  have f: "length (map ((*) 2) xs :: nat list) = length xs"
    "sum_and_double s xs = (Done (unat s + sum_list xs), map ((*) 2) xs)" for s xs
    by (simp_all add: sum_and_double_def)
  have s: "bd_as_slices wrapped = (\<lparr>ptr = 2, meta = 2\<rparr>, \<lparr>ptr = 0, meta = 1\<rparr>)"
    by (simp add: bd_as_slices_def ring_slices_def dq_front_len_def wrapped_def bd_from_def Let_def)
  show ?thesis
    using deque_partition_is_sequential [where f = sum_and_double and h = "\<lambda>s. map ((*) 2)"
        and g = "\<lambda>s xs. unat s + sum_list xs" and avail = None and plan = "plan_chunk_size 2" and filler = 0 and st = "()",
        OF wrapped_facts(1) l f n m schedule_of_range]
    by (simp add: s numeral_3_eq_3) blast
qed

text \<open>C28. Draining, for both collections: a range that is reversed or too long panics and removes
  nothing. Otherwise, however the two ends of the iterator are asked in turn, what the front
  answers, what is left inside, and what the back answers in reverse make up the range, in order;
  the collection keeps exactly what was before and after the range, whether or not the
  iterator is run to its end.\<close>

lemma drains_partition_the_range:
  assumes "bv_ok v" "bd_ok q" "grows_enough grow"
    and "bv_drain lo hi v = (Done d, v')" "drain_ends asks d = (xs, d1)"
    and "bd_drain lo hi q = (Done e, q')" "bd_drain_ends asks' e = (ys, e1)"
  shows "(\<exists>a b. range_resolve lo hi (length (bv_items v)) = Done (a, b)
        \<and> bv_items v = take a (bv_items v') @ (got True asks xs @ dr_inner d1 @ rev (got False asks xs)) @ drop a (bv_items v'))
    \<and> (\<exists>a b. range_resolve lo hi (length (bd_items q)) = Done (a, b)
        \<and> bd_items q = take a (bd_items q') @ (got True asks' ys @ dr_inner e1 @ rev (got False asks' ys)) @ drop a (bd_items q'))
    \<and> (\<forall>p lo hi. range_resolve lo hi (length (bv_items v)) = Panicked p \<longrightarrow> bv_drain lo hi v = (Panicked p, v))
    \<and> (\<forall>p lo hi. range_resolve lo hi (length (bd_items q)) = Panicked p \<longrightarrow> bd_drain lo hi q = (Panicked p, q))
    \<and> bv_ok v' \<and> bd_ok q'"
proof -
  have v: "grows_enough grow \<and> bv_ok v" and q: "grows_enough grow \<and> bd_ok q" using assms(1-3) by simp_all
  have "bv_ok v'"
  proof (cases "range_resolve lo hi (length (bv_items v))")
    case (Done ab)
    then show ?thesis using bv.drain_contents [OF v, of lo hi "fst ab" "snd ab"] assms(4) by auto
  qed (use assms(4) in \<open>simp add: bv_drain_def\<close>)
  moreover have "bd_ok q'" using bd_drain_ok [OF assms(2), of lo hi] assms(6) by simp
  ultimately show ?thesis
    using bv.drain_partitions [OF v assms(4,5)] bd.drain_partitions [OF q assms(6) assms(7) [unfolded bd_drain_ends_eq]]
      bv.drain_bounds [OF v] bd.drain_bounds [OF q] by blast
qed

lemma drains_partition_the_range_witness:
  "\<exists>d v' e q'. bv_drain (Included 1) Unbounded three_values = (Done d, v')
     \<and> bd_drain (Included 1) Unbounded wrapped = (Done e, q')
     \<and> [4, 5, 6] = take 1 (bv_items v') @ ([5] @ [] @ [6]) @ drop 1 (bv_items v')
     \<and> [1, 2, 3] = take 1 (bd_items q') @ ([2] @ [] @ [3]) @ drop 1 (bd_items q')"
proof -
  have a: "bv_drain (Included 1) Unbounded three_values = (Done \<lparr>dr_inner = [5, 6]\<rparr>, with_items [4] three_values)"
    by (simp add: bv_drain_def range_resolve_def)
  obtain q' where b: "bd_drain (Included 1) Unbounded wrapped = (Done \<lparr>dr_inner = [2, 3]\<rparr>, q')"
    by (simp add: bd_drain_def range_resolve_def)
  have c: "drain_ends [True, False] \<lparr>dr_inner = [x, y]\<rparr> = ([Some x, Some y], \<lparr>dr_inner = []\<rparr>)" for x y :: nat
    by (simp add: drain_next_def drain_next_back_def)
  from drains_partition_the_range [OF three_values_ok(1) wrapped_facts(1) exactly_grows a c b, unfolded bd_drain_ends_eq, OF c]
  show ?thesis using a b by (auto simp: range_resolve_def)
qed



end
