(* ===== verification/Interleave.thy ===== *)
theory Interleave
  imports DequePlan
begin

text \<open>
  Threads that really interleave. The drivers' model runs each task in one piece, in some order. Here a
  closure is a program that reads and assigns one cell of its shard at a time, and the accesses of
  all threads may be mixed in any way; that the outcome is the one of whole tasks is the theorem.
\<close>

section \<open>Closures as programs of cell accesses\<close>

datatype ('a, 'r) shard_prog =
    Finish "'r outcome"
  | ReadAt usize "'a \<Rightarrow> ('a, 'r) shard_prog"
  | WriteAt usize 'a "('a, 'r) shard_prog"

text \<open>Run alone on the contents of the shard: \<open>shard[i]\<close> panics out of bounds.\<close>

primrec run_prog :: "('a, 'r) shard_prog \<Rightarrow> ('a, 'r) shard_body" where
  "run_prog (Finish r) xs = (r, xs)"
| "run_prog (ReadAt i k) xs =
     (if unat i < length xs then run_prog (k (xs ! unat i)) xs else (Panicked IndexOutOfBounds, xs))"
| "run_prog (WriteAt i v p) xs =
     (if unat i < length xs then run_prog p (xs[unat i := v]) else (Panicked IndexOutOfBounds, xs))"

text \<open>How many accesses it makes.\<close>

primrec prog_steps :: "('a, 'r) shard_prog \<Rightarrow> 'a list \<Rightarrow> nat" where
  "prog_steps (Finish r) xs = 0"
| "prog_steps (ReadAt i k) xs = Suc (if unat i < length xs then prog_steps (k (xs ! unat i)) xs else 0)"
| "prog_steps (WriteAt i v p) xs = Suc (if unat i < length xs then prog_steps p (xs[unat i := v]) else 0)"

text \<open>One access to memory through the shard.\<close>

fun access :: "slice_ref \<Rightarrow> ('a, 'r) shard_prog \<Rightarrow> 'a list \<Rightarrow> ('a, 'r) shard_prog \<times> 'a list" where
  "access s (Finish r) mem = (Finish r, mem)"
| "access s (ReadAt i k) mem =
     (case slice_get_mut s i of
        None \<Rightarrow> (Finish (Panicked IndexOutOfBounds), mem)
      | Some a \<Rightarrow> (k (mem ! a), mem))"
| "access s (WriteAt i v p) mem =
     (case slice_get_mut s i of
        None \<Rightarrow> (Finish (Panicked IndexOutOfBounds), mem)
      | Some a \<Rightarrow> (p, mem[a := v]))"

text \<open>An interleaving names, access by access, the thread that makes it.\<close>

fun interleaved ::
    "(usize \<Rightarrow> slice_ref) \<Rightarrow> usize list \<Rightarrow> (usize \<Rightarrow> ('a, 'r) shard_prog) \<times> 'a list
       \<Rightarrow> (usize \<Rightarrow> ('a, 'r) shard_prog) \<times> 'a list" where
  "interleaved sh [] (ps, mem) = (ps, mem)"
| "interleaved sh (i # acc) (ps, mem) =
     (let (p, mem) = access (sh i) (ps i) mem in interleaved sh acc (ps(i := p), mem))"

section \<open>What one thread sees\<close>

fun local_step :: "('a, 'r) shard_prog \<times> 'a list \<Rightarrow> ('a, 'r) shard_prog \<times> 'a list" where
  "local_step (Finish r, xs) = (Finish r, xs)"
| "local_step (ReadAt i k, xs) =
     (if unat i < length xs then (k (xs ! unat i), xs) else (Finish (Panicked IndexOutOfBounds), xs))"
| "local_step (WriteAt i v p, xs) =
     (if unat i < length xs then (p, xs[unat i := v]) else (Finish (Panicked IndexOutOfBounds), xs))"

lemma local_step_finished [simp]: "(local_step ^^ n) (Finish r, xs) = (Finish r, xs)"
  by (induction n) auto

lemma keeps_length_run_prog [simp]: "keeps_length (run_prog p)"
  unfolding keeps_length_def by (induction p) auto

text \<open>Enough steps finish the program.\<close>

lemma local_steps_finish:
  "prog_steps p xs \<le> n \<Longrightarrow> (local_step ^^ n) (p, xs) = (Finish (fst (run_prog p xs)), snd (run_prog p xs))"
proof (induction p arbitrary: xs n)
  case (ReadAt i k)
  then obtain m where n: "n = Suc m" by (cases n) auto
  with ReadAt show ?case by (auto simp: funpow_Suc_right simp del: funpow.simps)
next
  case (WriteAt i v p)
  then obtain m where n: "n = Suc m" by (cases n) auto
  with WriteAt show ?case by (auto simp: funpow_Suc_right simp del: funpow.simps)
qed simp

text \<open>An access through a shard is a step on the shard's contents, and touches nothing else.\<close>

lemma slice_read_nth: "slice_in s mem \<Longrightarrow> unat i < unat (meta s) \<Longrightarrow> slice_read s mem ! unat i = mem ! (ptr s + unat i)"
  by (simp add: slice_read_def slice_in_def window_simps)

lemma slice_read_update:
  "slice_in s mem \<Longrightarrow> unat i < unat (meta s) \<Longrightarrow>
     slice_read s (mem[ptr s + unat i := v]) = (slice_read s mem)[unat i := v]"
  by (rule nth_equalityI) (auto simp: slice_read_def slice_in_def window_simps nth_list_update)

lemma access_local:
  assumes "slice_in s mem" "access s p mem = (p', mem')"
  shows "local_step (p, slice_read s mem) = (p', slice_read s mem')"
    and "length mem' = length mem" and "\<And>k. k \<notin> slice_cells s \<Longrightarrow> mem' ! k = mem ! k"
  using assms
  by (cases p; auto simp: slice_get_mut_def word_less_nat_alt slice_read_nth slice_read_update slice_cells_def
      split: if_splits)+

section \<open>Disjoint shards make the threads independent\<close>

context sharding begin

lemma read_outside:
  assumes "invar p" "i < count p" "j < count p" "j \<noteq> i" "slice_in (shard p j) mem" "length mem' = length mem"
    and "\<And>k. k \<notin> slice_cells (shard p i) \<Longrightarrow> mem' ! k = mem ! k"
  shows "slice_read (shard p j) mem' = slice_read (shard p j) mem"
proof (rule nth_equalityI)
  have len: "slice_in (shard p j) mem'" using assms(5,6) by (simp add: slice_in_def)
  show "length (slice_read (shard p j) mem') = length (slice_read (shard p j) mem)" using len assms(5) by simp
  fix k assume "k < length (slice_read (shard p j) mem')"
  then have k: "k < unat (meta (shard p j))" using len by simp
  then have "ptr (shard p j) + k \<notin> slice_cells (shard p i)"
    using separate [OF assms(1,3,2,4)] by (auto simp: apart_def slice_cells_def)
  with k assms(7) show "slice_read (shard p j) mem' ! k = slice_read (shard p j) mem ! k"
    using assms(5) len by (simp add: slice_read_def slice_in_def window_simps)
qed

text \<open>After any interleaving, a thread and its shard are where the thread's own accesses alone would have
  taken them.\<close>

lemma interleaved_local:
  assumes "invar p" "\<And>i. i < count p \<Longrightarrow> slice_in (shard p i) mem" "set acc \<subseteq> {i. i < count p}"
    and "interleaved (shard p) acc (ps, mem) = (ps', mem')"
  shows "length mem' = length mem
    \<and> (\<forall>j < count p. (ps' j, slice_read (shard p j) mem') =
         (local_step ^^ count_list acc j) (ps j, slice_read (shard p j) mem))
    \<and> (\<forall>k. k \<notin> set (region p) \<longrightarrow> mem' ! k = mem ! k)"
  using assms(2-4)
proof (induction acc arbitrary: ps mem)
  case (Cons i acc)
  obtain q m where a: "access (shard p i) (ps i) mem = (q, m)" by fastforce
  have i: "i < count p" using Cons.prems(2) by simp
  note al = access_local [OF Cons.prems(1) [OF i] a]
  have inm: "slice_in (shard p j) m" if "j < count p" for j
    using Cons.prems(1) [OF that] al(2) by (simp add: slice_in_def)
  have "set acc \<subseteq> {i. i < count p}" "interleaved (shard p) acc (ps(i := q), m) = (ps', mem')"
    using Cons.prems(2,3) a by simp_all
  from Cons.IH [OF inm this]
  have IH: "length mem' = length m"
    "\<forall>j < count p. (ps' j, slice_read (shard p j) mem') =
       (local_step ^^ count_list acc j) ((ps(i := q)) j, slice_read (shard p j) m)"
    "\<forall>k. k \<notin> set (region p) \<longrightarrow> mem' ! k = m ! k"
    by blast+
  have "(ps' j, slice_read (shard p j) mem') =
      (local_step ^^ count_list (i # acc) j) (ps j, slice_read (shard p j) mem)" if j: "j < count p" for j
  proof (cases "j = i")
    case True
    then show ?thesis using IH(2) j al(1) by (simp add: funpow_swap1)
  next
    case False
    have "slice_read (shard p j) m = slice_read (shard p j) mem"
      by (rule read_outside [OF assms(1) i j False Cons.prems(1) [OF j] al(2,3)])
    then show ?thesis using IH(2) j False by simp
  qed
  moreover have "m ! k = mem ! k" if "k \<notin> set (region p)" for k
    using al(3) [of k] that i set_region [OF assms(1)] by blast
  ultimately show ?case using IH(1,3) al(2) by simp
qed simp

text \<open>All threads given enough accesses: every one has finished as if alone, and memory is the one that
  whole tasks leave.\<close>

lemma interleaving_finishes:
  assumes "invar p" "\<And>i. i < count p \<Longrightarrow> slice_in (shard p i) mem" "set acc \<subseteq> {i. i < count p}"
    and "interleaved (shard p) acc (ps, mem) = (ps', mem')"
    and "\<And>i. i < count p \<Longrightarrow> prog_steps (ps i) (slice_read (shard p i) mem) \<le> count_list acc i"
  shows "\<And>i. i < count p \<Longrightarrow> ps' i = Finish (fst (run_prog (ps i) (slice_read (shard p i) mem)))"
    and "mem' = scatter (region p)
      (concat (map (\<lambda>i. snd (run_prog (ps i) (slice_read (shard p i) mem))) (usize_range (count p)))) mem"
proof -
  note l = interleaved_local [OF assms(1-4)]
  have f: "(ps' i, slice_read (shard p i) mem') =
      (Finish (fst (run_prog (ps i) (slice_read (shard p i) mem))), snd (run_prog (ps i) (slice_read (shard p i) mem)))"
    if "i < count p" for i
    using l that local_steps_finish [OF assms(5) [OF that]] by simp
  then show "\<And>i. i < count p \<Longrightarrow> ps' i = Finish (fst (run_prog (ps i) (slice_read (shard p i) mem)))" by simp
  show "mem' = scatter (region p)
      (concat (map (\<lambda>i. snd (run_prog (ps i) (slice_read (shard p i) mem))) (usize_range (count p)))) mem"
    using l conjunct2 [OF f [unfolded prod.inject]] by (intro region_contents [OF assms(1,2)]) blast+
qed

end

section \<open>Partition drivers\<close>

text \<open>The shards of a resolved plan.\<close>

lemma plan_shards:
  assumes "slice_in cells mem" "unat (meta cells) \<le> isize_max" "plan_resolve avail plan (meta cells) = Done c"
  defines "par \<equiv> shard_par_chunks (shard_new cells) c"
  shows "par_invar par" "pc_base par = ptr cells" "pc_len par = meta cells" "pc_chunk par = c"
    "par_len par = Done (of_nat (par_count par))"
    "\<And>i. i < of_nat (par_count par) \<Longrightarrow> slice_in (sh_cells (get_unchecked_chunk par i)) mem"
    "\<And>f. map (\<lambda>i. f (i * c) (slice_read (sh_cells (get_unchecked_chunk par i)) mem)) (usize_range (of_nat (par_count par)))
      = in_chunks f (unat c) 0 (slice_read cells mem)"
proof -
  obtain c' where "plan_resolve avail plan (meta cells) = Done c'" "1 \<le> unat c'" by (rule plan_resolve_Done)
  then have c: "c \<noteq> 0" using assms(3) by (simp add: usize_pos_iff)
  show f: "pc_base par = ptr cells" "pc_len par = meta cells" "pc_chunk par = c"
    using unat_chunk_max [OF c] by (simp_all add: par_def shard_par_chunks_def par_new_def shard_new_def)
  show inv: "par_invar par" using c assms(2) f by (simp add: par_invar_def)
  show "par_len par = Done (of_nat (par_count par))" using par_len_count(1) [of par] c f by simp
  have reg: "pc_base par + unat (pc_len par) \<le> length mem" using assms(1) f by (simp add: slice_in_def)
  show "slice_in (sh_cells (get_unchecked_chunk par i)) mem" if "i < of_nat (par_count par)" for i
    by (rule chunk_in [OF inv reg that])
  show "map (\<lambda>i. f (i * c) (slice_read (sh_cells (get_unchecked_chunk par i)) mem)) (usize_range (of_nat (par_count par)))
      = in_chunks f (unat c) 0 (slice_read cells mem)" for f
    using chunks_in_order [OF inv reg, of f] by (simp add: f slice_read_def)
qed

text \<open>What is said of threads that have all finished, against a driver call.\<close>

definition agrees_with :: "(usize \<Rightarrow> ('a, 'r) shard_prog) \<Rightarrow> usize \<Rightarrow> 'a list \<Rightarrow> ('a list, 'r) driven \<Rightarrow> bool" where
  "agrees_with ps n mem result \<longleftrightarrow>
     (\<exists>rs. map ps (usize_range n) = map Finish rs \<and>
        (case result of (ex, mem', dropped) \<Rightarrow>
           mem' = mem
           \<and> (if list_all is_done rs then ex = Returned (drop_results rs) \<and> dropped = []
              else (\<exists>q. ex = Unwound q \<and> Panicked q \<in> set rs) \<and> mset dropped = mset (drop_results rs))))"

lemma collected_agrees:
  assumes "collected (map g (usize_range n)) ks mem result" "\<And>i. i < n \<Longrightarrow> ps i = Finish (fst (g i))"
    and "mem' = scatter ks (concat (map (\<lambda>i. snd (g i)) (usize_range n))) mem"
  shows "agrees_with ps n mem' result"
proof -
  define rs where "rs = map (\<lambda>i. fst (g i)) (usize_range n)"
  have rs: "map fst (map g (usize_range n)) = rs" by (simp add: rs_def)
  have d: "list_all (is_done \<circ> fst) (map g (usize_range n)) \<longleftrightarrow> list_all is_done rs"
    unfolding rs [symmetric] by (simp add: list.pred_map comp_assoc)
  have q: "Panicked q \<in> fst ` set (map g (usize_range n)) \<longleftrightarrow> Panicked q \<in> set rs" for q
    unfolding rs [symmetric] by (simp only: set_map)
  have m: "concat (map snd (map g (usize_range n))) = concat (map (\<lambda>i. snd (g i)) (usize_range n))"
    by (simp only: map_map comp_def)
  have "map ps (usize_range n) = map Finish rs" using assms(2) by (simp add: rs_def)
  then show ?thesis
    using assms(1) unfolding agrees_with_def collected_def rs d q m assms(3) [symmetric] by blast
qed

text \<open>C6. Tasks may be taken as indivisible. Give each shard of a plan to a thread that runs a closure
  written as reads and assignments of single cells, and mix the accesses of all threads in any
  order that lets each thread make as many as it needs: all threads finish, with the results, the panics
  and the memory of \<open>partition_map_with\<close>, which runs every closure in one piece. So no
  interleaving of the workers can be observed.\<close>

theorem interleaved_partition_map:
  fixes f :: "usize \<Rightarrow> ('a, 'r) shard_prog"
  assumes "slice_in cells mem" "unat (meta cells) \<le> isize_max"
    and "slot_sound slot" "scheduler_returns slot" "\<And>n. schedule_of n (sched n)"
    and "plan_resolve avail plan (meta cells) = Done c"
    and "par_len (shard_par_chunks (shard_new cells) c) = Done n"
    and "shard = (\<lambda>i. shard_into_mut_slice (get_unchecked_chunk (shard_par_chunks (shard_new cells) c) i))"
    and "set accesses \<subseteq> {i. i < n}"
    and "\<And>i. i < n \<Longrightarrow> prog_steps (f (i * c)) (slice_read (shard i) mem) \<le> count_list accesses i"
    and "interleaved shard accesses (\<lambda>i. f (i * c), mem) = (ps, mem')"
  shows "agrees_with ps n mem' (partition_map_with slot sched avail cells plan (\<lambda>s. run_prog (f s)) mem)"
proof -
  let ?par = "shard_par_chunks (shard_new cells) c"
  let ?g = "\<lambda>i. run_prog (f (i * c)) (slice_read (sh_cells (get_unchecked_chunk ?par i)) mem)"
  note sh = plan_shards [OF assms(1,2,6)]
  have n: "n = of_nat (par_count ?par)" using assms(7) sh(5) by simp
  have shard: "shard = (\<lambda>i. sh_cells (get_unchecked_chunk ?par i))" using assms(8) by (simp add: shard_into_mut_slice_def)
  have reg: "[pc_base ?par ..< pc_base ?par + unat (pc_len ?par)] = positions cells"
    using sh(2,3) by (simp add: positions_def)
  have "collected (map ?g (usize_range n)) (positions cells) mem
      (partition_map_with slot sched avail cells plan (\<lambda>s. run_prog (f s)) mem)"
    using partition_map_with_collected [OF assms(1,2) keeps_length_run_prog assms(3,5,4,6), of f]
    unfolding n sh(7) [of "\<lambda>s. run_prog (f s)", symmetric] .
  moreover have "set accesses \<subseteq> {i. i < of_nat (par_count ?par)}" using assms(9) n by simp
  note fin = pc.interleaving_finishes [OF sh(1,6) this assms(11) [unfolded shard] assms(10) [unfolded shard n]]
  have "ps i = Finish (fst (?g i))" if "i < n" for i using fin(1) that n by simp
  moreover have "mem' = scatter (positions cells) (concat (map (\<lambda>i. snd (?g i)) (usize_range n))) mem"
    using fin(2) n reg by simp
  ultimately show ?thesis by (intro collected_agrees)
qed

text \<open>Two threads, each adding one to the first cell of its shard and returning the old value.\<close>

definition increment :: "usize \<Rightarrow> (nat, nat) shard_prog" where
  "increment s = ReadAt 0 (\<lambda>x. WriteAt 0 (x + 1) (Finish (Done x)))"

definition two_shards :: "usize \<Rightarrow> slice_ref" where
  "two_shards i = shard_into_mut_slice
     (get_unchecked_chunk (shard_par_chunks (shard_new \<lparr>ptr = 0, meta = 3\<rparr>) 2) i)"

lemma two_shards_eval: "two_shards 0 = \<lparr>ptr = 0, meta = 2\<rparr>" "two_shards 1 = \<lparr>ptr = 2, meta = 1\<rparr>"
  by (simp_all add: two_shards_def shard_into_mut_slice_def get_unchecked_chunk_def shard_par_chunks_def par_new_def
      shard_new_def par_range_def max_def word_le_nat_alt word_less_nat_alt)

lemma below_two: "i < 2 \<Longrightarrow> i = 0 \<or> i = (1 :: usize)"
proof -
  assume "i < 2"
  then have "unat i < 2" by (simp add: word_less_nat_alt)
  then have "unat i = 0 \<or> unat i = 1" by linarith
  then show ?thesis by (simp add: usize_eq_iff)
qed

theorem interleaved_partition_map_witness:
  "(\<exists>ps. interleaved two_shards [1, 0, 0, 1] (\<lambda>i. increment (i * 2), [10, 20, 30]) = (ps, [11, 20, 31])
     \<and> agrees_with ps 2 [11, 20, 31]
         (partition_map_with Null usize_range None \<lparr>ptr = 0, meta = 3\<rparr> (plan_chunk_size 2)
           (\<lambda>s. run_prog (increment s)) [10, 20, 30]))"
proof -
  let ?cells = "\<lparr>ptr = 0, meta = 3\<rparr>" and ?mem = "[10, 20, 30 :: nat]"
  have a: "slice_in ?cells ?mem" by (simp add: slice_in_def)
  have b: "unat (meta ?cells) \<le> isize_max" by (simp add: isize_max_def)
  have n: "slot_sound (Null :: (nat, nat) slot_ptr)" "scheduler_returns (Null :: (nat, nat) slot_ptr)"
    by (simp_all add: slot_sound_def scheduler_returns_def slot_defs)
  have c: "plan_resolve None (plan_chunk_size 2) (meta ?cells) = Done 2"
    by (simp add: plan_resolve_def plan_chunk_size_def nz_get_nonzero_or_one)
  have l: "par_len (shard_par_chunks (shard_new ?cells) 2) = Done 2"
    by (simp add: par_len_def shard_par_chunks_def par_new_def shard_new_def max_def partition_count_def
        usize_div_def word_le_nat_alt)
  have s: "prog_steps (increment (i * 2)) (slice_read (two_shards i) ?mem) \<le> count_list [1, 0, 0, 1] i" if "i < 2" for i
    using below_two [OF that] by (auto simp: two_shards_eval increment_def slice_read_def window_def)
  obtain ps where r: "interleaved two_shards [1, 0, 0, 1] (\<lambda>i. increment (i * 2), ?mem) = (ps, [11, 20, 31])"
    by (simp add: two_shards_eval increment_def slice_get_mut_def)
  have "agrees_with ps 2 [11, 20, 31] (partition_map_with Null usize_range None ?cells (plan_chunk_size 2)
      (\<lambda>s. run_prog (increment s)) ?mem)"
    by (rule interleaved_partition_map [OF a b n schedule_of_range c l _ _ s r])
      (auto simp: two_shards_def word_less_nat_alt)
  with r show ?thesis by blast
qed

text \<open>C18. The same for the two segments of a ring buffer: the shards \<open>from_lengths\<close> plans, two of which
  may be parts of one chunk on either side of the wrap, given to threads that interleave cell by
  cell, end with the results and the memory of \<open>map_mut\<close>.\<close>

theorem interleaved_deque_map:
  fixes f :: "usize \<Rightarrow> ('a, 'r) shard_prog"
  assumes "apart (ptr front) (unat (meta front)) (ptr back) (unat (meta back))"
    and "unat (meta front) + unat (meta back) \<le> isize_max"
    and "slice_in front mem" "slice_in back mem"
    and "slot_sound slot" "scheduler_returns slot" "\<And>n. schedule_of n (sched n)"
    and "from_lengths avail (meta front) (meta back) plan = Some (Done p)"
    and "n = of_nat (length (dp_shards p))" "start = (\<lambda>i. ds_start (dp_shards p ! unat i))"
    and "shard = (\<lambda>i. shard_slice (mut_slices_new front back) (dp_shards p ! unat i))"
    and "set accesses \<subseteq> {i. i < n}"
    and "\<And>i. i < n \<Longrightarrow> prog_steps (f (start i)) (slice_read (shard i) mem) \<le> count_list accesses i"
    and "interleaved shard accesses (\<lambda>i. f (start i), mem) = (ps, mem')"
  shows "agrees_with ps n mem' (plan_map_mut slot sched avail p front back (\<lambda>s. run_prog (f s)) mem)"
proof -
  let ?q = "(front, back, dp_shards p)" and ?ss = "dp_shards p"
  let ?g = "\<lambda>i. run_prog (f (start i)) (slice_read (shard i) mem)"
  obtain p' where "from_lengths avail (meta front) (meta back) plan = Some (Done p')"
    "consecutive (unat (meta front)) (unat (meta back)) 0 (dp_shards p') (unat (meta front) + unat (meta back))"
    by (rule from_lengths_returns [OF assms(2), where avail = avail and plan = plan])
  then have inv: "deque_invar ?q" using assms(1,2,8) by (simp add: deque_invar_def)
  have n: "unat n = length ?ss" using unat_shard_count [OF inv] assms(9) by simp
  note good = deque_invarD(2) [OF inv]
  have inm: "slice_in (shard i) mem" if "i < n" for i
    using that n assms(11) good by (auto intro!: slice_in_segments assms(3,4) simp: word_less_nat_alt)
  have "map (\<lambda>s. run_prog (f (ds_start s)) (window (unat (ds_start s)) (unat (ds_len s))
          (slice_read front mem @ slice_read back mem))) ?ss
      = map (\<lambda>s. run_prog (f (ds_start s)) (slice_read (shard_slice (mut_slices_new front back) s) mem)) ?ss"
    using good by (simp add: slice_read_logical [OF _ assms(3,4)])
  also have "\<dots> = map ?g (usize_range n)"
    unfolding assms(10,11) by (rule map_nth_usize [OF n, symmetric])
  finally have "collected (map ?g (usize_range n)) (positions front @ positions back) mem
      (plan_map_mut slot sched avail p front back (\<lambda>s. run_prog (f s)) mem)"
    using plan_map_mut_collected [OF inv assms(3,4) keeps_length_run_prog assms(5-7), of f] by simp
  moreover have "i < n \<Longrightarrow> ps i = Finish (fst (?g i))"
    "mem' = scatter (positions front @ positions back) (concat (map (\<lambda>i. snd (?g i)) (usize_range n))) mem" for i
    using dq.interleaving_finishes [of ?q mem accesses "\<lambda>i. f (start i)" ps mem'] inv inm assms(12-14)
    by (simp_all add: assms(9,11))
  ultimately show ?thesis by (intro collected_agrees)
qed

text \<open>A ring of five cells, the front segment cells 3 and 4, the back segment cell 0, in chunks of three:
  the one chunk is two shards.\<close>

theorem interleaved_deque_map_witness:
  "\<exists>p ps. from_lengths None 2 1 (plan_chunk_size 3) = Some (Done p) \<and> length (dp_shards p) = 2
     \<and> interleaved (\<lambda>i. shard_slice (mut_slices_new \<lparr>ptr = 3, meta = 2\<rparr> \<lparr>ptr = 0, meta = 1\<rparr>) (dp_shards p ! unat i))
         [1, 0, 0, 1] (\<lambda>i. increment (ds_start (dp_shards p ! unat i)), [30, 0, 0, 10, 20]) = (ps, [31, 0, 0, 11, 20])
     \<and> agrees_with ps 2 [31, 0, 0, 11, 20]
         (plan_map_mut Null usize_range None p \<lparr>ptr = 3, meta = 2\<rparr> \<lparr>ptr = 0, meta = 1\<rparr>
           (\<lambda>s. run_prog (increment s)) [30, 0, 0, 10, 20])"
proof -
  let ?fore = "\<lparr>ptr = 3, meta = 2\<rparr>" and ?rear = "\<lparr>ptr = 0, meta = 1\<rparr>" and ?mem = "[30, 0, 0, 10, 20 :: nat]"
  let ?p = "\<lparr>dp_shards = [\<lparr>ds_start = 0, ds_segment = Front, ds_offset = 0, ds_len = 2\<rparr>,
      \<lparr>ds_start = 2, ds_segment = Back, ds_offset = 0, ds_len = 1\<rparr>], dp_capacity = 2\<rparr> :: deque_shard_plan"
  let ?sh = "\<lambda>i :: usize. shard_slice (mut_slices_new ?fore ?rear) (dp_shards ?p ! unat i)"
  have a: "apart (ptr ?fore) (unat (meta ?fore)) (ptr ?rear) (unat (meta ?rear))" by (simp add: apart_def)
  have b: "unat (meta ?fore) + unat (meta ?rear) \<le> isize_max" by (simp add: isize_max_def)
  have c: "slice_in ?fore ?mem" "slice_in ?rear ?mem" by (simp_all add: slice_in_def)
  have n: "slot_sound (Null :: (nat, nat) slot_ptr)" "scheduler_returns (Null :: (nat, nat) slot_ptr)"
    by (simp_all add: slot_sound_def scheduler_returns_def slot_defs)
  have d: "from_lengths None (meta ?fore) (meta ?rear) (plan_chunk_size 3) = Some (Done ?p)"
    by (simp add: from_lengths_def plan_chunk_size_def nz_get_nonzero_or_one shard_loop.simps shards_between_def
        max_def min_def usize_div_ceil_eq ceil_div_def partition_count_eq word_le_nat_alt word_less_nat_alt Let_def)
  have sh: "?sh 0 = \<lparr>ptr = 3, meta = 2\<rparr>" "?sh 1 = \<lparr>ptr = 0, meta = 1\<rparr>"
    by (simp_all add: shard_slice_def mut_slices_new_def)
  have s: "prog_steps (increment (ds_start (dp_shards ?p ! unat i))) (slice_read (?sh i) ?mem)
      \<le> count_list [1, 0, 0, 1] i" if "i < 2" for i :: usize
    using below_two [OF that] sh by (auto simp: increment_def slice_read_def window_def)
  obtain ps where r: "interleaved ?sh [1, 0, 0, 1] (\<lambda>i. increment (ds_start (dp_shards ?p ! unat i)), ?mem)
      = (ps, [31, 0, 0, 11, 20])"
    by (simp add: shard_slice_def mut_slices_new_def increment_def slice_get_mut_def)
  have "agrees_with ps 2 [31, 0, 0, 11, 20] (plan_map_mut Null usize_range None ?p ?fore ?rear
      (\<lambda>s. run_prog (increment s)) ?mem)"
    by (rule interleaved_deque_map [OF a b c n schedule_of_range d _ refl refl _ s r]) (auto simp: word_less_nat_alt)
  with r d show ?thesis by (intro exI [of _ ?p] exI [of _ ps]) simp
qed

end
