(* ===== verification/Recording.thy ===== *)
theory Recording
  imports Driver
begin

text \<open>
  Workers of a registered scheduler that really interleave. \<open>task_wrapper\<close> runs the task, writes its
  result into the out-buffer, sets the success flag, or locks the panic mutex; a scheduler may
  preempt a worker between any two of these. Here each is a step of its own, and the steps of all workers
  are mixed in any order.
\<close>

section \<open>A worker's steps\<close>

datatype 'r progress = NotStarted | Ran "'r outcome" | Written | Recorded

definition fresh_context :: "usize \<Rightarrow> 'm \<Rightarrow> ('m, 'r) task_context" where
  "fresh_context n mem = \<lparr>tc_mem = mem, tc_out = replicate (unat n) None,
     tc_successful = replicate (unat n) False, tc_panic = mutex_new, tc_ub = False\<rparr>"

fun worker_step ::
    "('m, 'r) runner \<Rightarrow> usize \<Rightarrow> 'r progress \<times> ('m, 'r) task_context \<Rightarrow> 'r progress \<times> ('m, 'r) task_context" where
  "worker_step run i (NotStarted, ctx) =
     (let (r, mem') = run i (tc_mem ctx) in (Ran r, ctx\<lparr>tc_mem := mem'\<rparr>))"
| "worker_step run i (Ran (Done v), ctx) =
     (if unat i < length (tc_out ctx) then (Written, ctx\<lparr>tc_out := (tc_out ctx)[unat i := Some v]\<rparr>)
      else (Recorded, ctx\<lparr>tc_ub := True\<rparr>))"
| "worker_step run i (Ran (Panicked payload), ctx) =
     (Recorded,
      case lock_panic_payload (tc_panic ctx) of
        None \<Rightarrow> ctx\<lparr>tc_panic := (tc_panic ctx)\<lparr>pm_data := Some payload\<rparr>\<rparr>
      | Some _ \<Rightarrow> ctx)"
| "worker_step run i (Written, ctx) = (Recorded, ctx\<lparr>tc_successful := (tc_successful ctx)[unat i := True]\<rparr>)"
| "worker_step run i (Recorded, ctx) = (Recorded, ctx)"

text \<open>Run alone, the three steps are the wrapper.\<close>

lemma worker_is_wrapper:
  "(worker_step run i ^^ 3) (NotStarted, ctx) = (Recorded, task_wrapper run i ctx)"
proof -
  obtain r mem' where r: "run i (tc_mem ctx) = (r, mem')" by fastforce
  show ?thesis by (cases r) (auto simp: r eval_nat_numeral task_wrapper_def Let_def split: option.splits)
qed

fun workers ::
    "('m, 'r) runner \<Rightarrow> usize list \<Rightarrow> (usize \<Rightarrow> 'r progress) \<times> ('m, 'r) task_context
       \<Rightarrow> (usize \<Rightarrow> 'r progress) \<times> ('m, 'r) task_context" where
  "workers run [] (pcs, ctx) = (pcs, ctx)"
| "workers run (i # steps) (pcs, ctx) =
     (let (pc, ctx) = worker_step run i (pcs i, ctx) in workers run steps (pcs(i := pc), ctx))"

section \<open>What every interleaving keeps\<close>

text \<open>\<open>rs\<close> lists the tasks run so far, in the order in which they ran.\<close>

definition slot_state :: "(usize \<times> 'r outcome) list \<Rightarrow> ('m, 'r) task_context \<Rightarrow> usize \<Rightarrow> 'r progress \<Rightarrow> bool" where
  "slot_state rs ctx i pc \<longleftrightarrow>
     (case pc of
        NotStarted \<Rightarrow> i \<notin> fst ` set rs \<and> tc_out ctx ! unat i = None \<and> \<not> tc_successful ctx ! unat i
      | Ran r \<Rightarrow> (i, r) \<in> set rs \<and> tc_out ctx ! unat i = None \<and> \<not> tc_successful ctx ! unat i
      | Written \<Rightarrow> (\<exists>v. (i, Done v) \<in> set rs \<and> tc_out ctx ! unat i = Some v) \<and> \<not> tc_successful ctx ! unat i
      | Recorded \<Rightarrow> (\<exists>r. (i, r) \<in> set rs \<and> tc_out ctx ! unat i = the_done r
            \<and> tc_successful ctx ! unat i = (the_done r \<noteq> None)
            \<and> (the_done r = None \<longrightarrow> pm_data (tc_panic ctx) \<noteq> None)))"

definition recording_inv ::
    "('m, 'r) runner \<Rightarrow> usize \<Rightarrow> 'm \<Rightarrow> (usize \<times> 'r outcome) list \<Rightarrow> (usize \<Rightarrow> 'r progress)
       \<Rightarrow> ('m, 'r) task_context \<Rightarrow> bool" where
  "recording_inv run n mem rs pcs ctx \<longleftrightarrow>
     exec_order run (map fst rs) mem = (rs, tc_mem ctx) \<and> distinct (map fst rs)
     \<and> fst ` set rs \<subseteq> {i. i < n}
     \<and> length (tc_out ctx) = unat n \<and> length (tc_successful ctx) = unat n \<and> \<not> tc_ub ctx
     \<and> (\<forall>p. pm_data (tc_panic ctx) = Some p \<longrightarrow> Panicked p \<in> snd ` set rs)
     \<and> (\<forall>i < n. slot_state rs ctx i (pcs i))"

lemma recording_start: "recording_inv run n mem [] (\<lambda>_. NotStarted) (fresh_context n mem)"
  by (simp add: recording_inv_def slot_state_def fresh_context_def mutex_new_def word_less_nat_alt)

lemma exec_order_append:
  "exec_order run (xs @ ys) mem =
     (let (rs, m) = exec_order run xs mem; (rs', m') = exec_order run ys m in (rs @ rs', m'))"
  by (induction xs arbitrary: mem) (auto simp: Let_def split: prod.splits)

lemma nth_other_slot: "i \<noteq> j \<Longrightarrow> (xs[unat i := x]) ! unat (j :: usize) = xs ! unat j"
  by (simp add: usize_eq_iff)

lemma slots_updated:
  assumes "\<And>j. j < n \<Longrightarrow> slot_state rs ctx j (pcs j)" "slot_state rs' ctx' i pc"
    "\<And>j. j \<noteq> i \<Longrightarrow> slot_state rs ctx j (pcs j) \<Longrightarrow> slot_state rs' ctx' j (pcs j)"
  shows "\<forall>j < n. slot_state rs' ctx' j ((pcs(i := pc)) j)"
  using assms by auto

lemma recording_step:
  assumes inv: "recording_inv run n mem rs pcs ctx" and i: "i < n"
    and step: "worker_step run i (pcs i, ctx) = (pc, ctx')"
  shows "\<exists>rs'. recording_inv run n mem rs' (pcs(i := pc)) ctx'"
proof -
  have slots: "slot_state rs ctx j (pcs j)" if "j < n" for j
    using inv that by (simp add: recording_inv_def)
  have len: "unat i < length (tc_out ctx)" "unat i < length (tc_successful ctx)"
    using inv i by (simp_all add: recording_inv_def word_less_nat_alt)
  note mine = slots [OF i, unfolded slot_state_def]
  show ?thesis
  proof (cases "pcs i")
    case NotStarted
    obtain r mem' where r: "run i (tc_mem ctx) = (r, mem')" by fastforce
    then have pc: "pc = Ran r" "ctx' = ctx\<lparr>tc_mem := mem'\<rparr>" using step NotStarted by simp_all
    have "\<forall>j < n. slot_state (rs @ [(i, r)]) ctx' j ((pcs(i := pc)) j)"
      by (rule slots_updated [OF slots])
        (use mine NotStarted in \<open>auto simp: pc slot_state_def split: progress.splits\<close>)
    then have "recording_inv run n mem (rs @ [(i, r)]) (pcs(i := pc)) ctx'"
      using inv i mine NotStarted r by (auto simp: recording_inv_def pc exec_order_append)
    then show ?thesis by blast
  next
    case (Ran r)
    show ?thesis
    proof (cases r)
      case (Done v)
      have pc: "pc = Written" "ctx' = ctx\<lparr>tc_out := (tc_out ctx)[unat i := Some v]\<rparr>"
        using step len Ran Done by simp_all
      have "\<forall>j < n. slot_state rs ctx' j ((pcs(i := pc)) j)"
        by (rule slots_updated [OF slots])
          (use mine len Ran Done in \<open>auto simp: pc slot_state_def nth_other_slot split: progress.splits\<close>)
      then have "recording_inv run n mem rs (pcs(i := pc)) ctx'"
        using inv by (simp add: recording_inv_def pc)
      then show ?thesis by blast
    next
      case (Panicked p)
      then have pc: "pc = Recorded" "ctx' = (case pm_data (tc_panic ctx) of
            None \<Rightarrow> ctx\<lparr>tc_panic := (tc_panic ctx)\<lparr>pm_data := Some p\<rparr>\<rparr> | Some _ \<Rightarrow> ctx)"
        using step Ran by simp_all
      have "\<forall>j < n. slot_state rs ctx' j ((pcs(i := pc)) j)"
        by (rule slots_updated [OF slots])
          (use mine Ran Panicked in \<open>auto simp: pc slot_state_def split: option.splits progress.splits\<close>)
      then have "recording_inv run n mem rs (pcs(i := pc)) ctx'"
        using inv mine Ran Panicked by (force simp: recording_inv_def pc split: option.splits)
      then show ?thesis by blast
    qed
  next
    case Written
    then have pc: "pc = Recorded" "ctx' = ctx\<lparr>tc_successful := (tc_successful ctx)[unat i := True]\<rparr>"
      using step by simp_all
    have "\<forall>j < n. slot_state rs ctx' j ((pcs(i := pc)) j)"
      by (rule slots_updated [OF slots])
        (use mine len Written in \<open>force simp: pc slot_state_def nth_other_slot split: progress.splits\<close>)+
    then have "recording_inv run n mem rs (pcs(i := pc)) ctx'"
      using inv by (simp add: recording_inv_def pc)
    then show ?thesis by blast
  next
    case Recorded
    then show ?thesis using inv step by (intro exI [of _ rs]) (auto simp: fun_upd_idem)
  qed
qed

lemma recording_workers:
  assumes "recording_inv run n mem rs pcs ctx" "set steps \<subseteq> {i. i < n}"
    "workers run steps (pcs, ctx) = (pcs', ctx')"
  shows "\<exists>rs'. recording_inv run n mem rs' pcs' ctx'"
  using assms
proof (induction steps arbitrary: rs pcs ctx)
  case (Cons i steps)
  obtain pc ctx1 where s: "worker_step run i (pcs i, ctx) = (pc, ctx1)" by fastforce
  obtain rs1 where "recording_inv run n mem rs1 (pcs(i := pc)) ctx1"
    using recording_step [OF Cons.prems(1) _ s] Cons.prems(2) by auto
  then show ?case using Cons s by simp
qed auto

section \<open>Every worker finishes\<close>

fun steps_done :: "'r progress \<Rightarrow> nat" where
  "steps_done NotStarted = 0"
| "steps_done (Ran r) = 1"
| "steps_done Written = 2"
| "steps_done Recorded = 3"

lemma steps_done_step:
  "worker_step run i (pc, ctx) = (pc', ctx') \<Longrightarrow> min 3 (Suc (steps_done pc)) \<le> steps_done pc'"
  by (cases "(run, i, (pc, ctx))" rule: worker_step.cases)
    (auto simp: Let_def split: if_splits prod.splits)

lemma steps_done_workers:
  "workers run steps (pcs, ctx) = (pcs', ctx') \<Longrightarrow>
     min 3 (steps_done (pcs i) + count_list steps i) \<le> steps_done (pcs' i)"
proof (induction steps arbitrary: pcs ctx)
  case (Cons j steps)
  obtain pc ctx1 where s: "worker_step run j (pcs j, ctx) = (pc, ctx1)" by fastforce
  then show ?case using Cons.IH [of "pcs(j := pc)" ctx1] Cons.prems steps_done_step [OF s]
    by (cases "j = i") (simp_all del: fun_upd_apply add: fun_upd_same fun_upd_other)
qed auto

lemma recorded_if_three: "3 \<le> steps_done pc \<longleftrightarrow> pc = Recorded"
  by (cases pc) auto

lemma all_recorded:
  assumes "workers run steps ((\<lambda>_. NotStarted), ctx) = (pcs, ctx')" "3 \<le> count_list steps i"
  shows "pcs i = Recorded"
  using steps_done_workers [OF assms(1), of i] assms(2) by (simp add: recorded_if_three [symmetric])

lemma recorded_slot_value:
  assumes "distinct (map fst rs)" "slot_state rs ctx i Recorded"
  shows "tc_out ctx ! unat i = slot_value rs i" "tc_successful ctx ! unat i = (slot_value rs i \<noteq> None)"
  using assms by (auto simp: slot_state_def slot_value_def)

lemma slots_as_list:
  assumes "length xs = unat n" "\<And>i :: usize. i < n \<Longrightarrow> xs ! unat i = f i"
  shows "xs = map f (usize_range n)"
proof (rule nth_equalityI)
  fix k assume k: "k < length xs"
  then have u: "unat (of_nat k :: usize) = k" using assms(1) by (auto intro: unat_of_nat_below [of _ n])
  then show "xs ! k = map f (usize_range n) ! k"
    using assms(2) [of "of_nat k"] k assms(1) by (simp add: word_less_nat_alt)
qed (use assms(1) in simp)

section \<open>What the driver makes of it\<close>

text \<open>The part of \<open>drive_executor\<close> after the scheduler has returned.\<close>

definition collect_results :: "usize \<Rightarrow> ('m, 'r) task_context \<Rightarrow> ('m, 'r) driven" where
  "collect_results num_chunks ctx =
     (let out = tc_out ctx; successful = tc_successful ctx;
          guard = \<lparr>dg_num_chunks = num_chunks, dg_active = False\<rparr>
      in if tc_ub ctx then (UndefinedBehaviour, tc_mem ctx, [])
         else case take_panic_payload (tc_panic ctx) of
           Some payload \<Rightarrow>
             (Unwound payload, tc_mem ctx,
              drop_successful num_chunks successful out @ drop_guard guard successful out)
         | None \<Rightarrow>
             (case assume_init out of
                Some vs \<Rightarrow> (Returned vs, tc_mem ctx, drop_guard guard successful out)
              | None \<Rightarrow> (UndefinedBehaviour, tc_mem ctx, [])))"

lemma drive_executor_collects:
  assumes "execute ex n (task_wrapper run) (fresh_context n mem) = (None, ctx)"
  shows "drive_executor ex n run mem = collect_results n ctx"
  using assms by (simp add: drive_executor_def collect_results_def fresh_context_def Let_def split: option.split)

lemma finished_slots:
  assumes inv: "recording_inv run n mem rs (\<lambda>_. Recorded) ctx"
  shows "tc_out ctx = map (slot_value rs) (usize_range n)"
    and "tc_successful ctx = map (\<lambda>i. slot_value rs i \<noteq> None) (usize_range n)"
    and "fst ` set rs = {i. i < n}"
    and "pm_data (tc_panic ctx) = None \<Longrightarrow> list_all is_done (map snd rs)"
proof -
  have d: "distinct (map fst rs)" and slots: "\<And>i. i < n \<Longrightarrow> slot_state rs ctx i Recorded"
    and sub: "fst ` set rs \<subseteq> {i. i < n}"
    using inv by (simp_all add: recording_inv_def)
  show "tc_out ctx = map (slot_value rs) (usize_range n)"
    by (rule slots_as_list) (use inv slots d in \<open>auto simp: recording_inv_def recorded_slot_value\<close>)
  show "tc_successful ctx = map (\<lambda>i. slot_value rs i \<noteq> None) (usize_range n)"
    by (rule slots_as_list) (use inv slots d in \<open>auto simp: recording_inv_def recorded_slot_value\<close>)
  show "fst ` set rs = {i. i < n}" using slots sub by (force simp: slot_state_def)
  assume none: "pm_data (tc_panic ctx) = None"
  have "is_done r" if r: "(i, r) \<in> set rs" for i r
  proof -
    have "i < n" using sub r by force
    then obtain r' where "(i, r') \<in> set rs" "the_done r' \<noteq> None"
      using slots [OF \<open>i < n\<close>] none by (auto simp: slot_state_def)
    then show ?thesis using eq_key_imp_eq_value [OF d r] by (cases r) fastforce+
  qed
  then show "list_all is_done (map snd rs)" by (auto simp: list_all_iff)
qed

lemma finished_collects:
  assumes inv: "recording_inv run n mem rs (\<lambda>_. Recorded) ctx"
  shows "drive_spec slot n run mem (collect_results n ctx)"
proof -
  note slots = finished_slots [OF inv]
  have d: "distinct (map fst rs)" and e: "exec_order run (map fst rs) mem = (rs, tc_mem ctx)"
    and ub: "\<not> tc_ub ctx" and raised: "\<And>p. pm_data (tc_panic ctx) = Some p \<Longrightarrow> Panicked p \<in> snd ` set rs"
    using inv by (simp_all add: recording_inv_def)
  show ?thesis
  proof (cases "pm_data (tc_panic ctx)")
    case (Some p)
    have "mset (drop_successful n (tc_successful ctx) (tc_out ctx)) = mset (drop_results (map snd rs))"
      unfolding slots(1,2) drop_successful_eq using mset_slot_values [OF d, of n] slots(3) by simp
    then show ?thesis unfolding drive_spec_def
      using Some d e ub raised slots(3)
      by (intro exI [of _ "map fst rs"]) (simp add: collect_results_def drop_guard_def)
  next
    case None
    have keys: "set (map fst rs) = {i. i < n}" using slots(3) by simp
    obtain vs where "map (slot_value rs) (usize_range n) = map Some vs"
      "map (map_of rs) (usize_range n) = map (Some \<circ> Done) vs"
      by (rule map_slot_value_done [OF refl d keys slots(4) [OF None]])
    then show ?thesis unfolding drive_spec_def
      using None d e ub keys slots(1) assume_init_Some [of "tc_out ctx" vs]
      by (intro exI [of _ "map fst rs"]) (simp add: collect_results_def drop_guard_def)
  qed
qed

section \<open>Property\<close>

text \<open>C4. However the workers of a registered scheduler interleave, step by step, between running
  the task, writing its result, setting its flag and taking the panic mutex: once each has made its
  steps, what \<open>drive\<close> collects meets the specification it meets when the wrappers run one after
  another. No uninitialised or out-of-range slot is exposed, results stand in index order, and on a
  panic each value already produced is dropped once.\<close>

theorem interleaved_recording:
  assumes "set steps \<subseteq> {i. i < n}" "\<And>i. i < n \<Longrightarrow> 3 \<le> count_list steps i"
    and "workers run steps ((\<lambda>_. NotStarted), fresh_context n mem) = (pcs, ctx)"
  shows "drive_spec slot n run mem (collect_results n ctx)"
proof -
  obtain rs where rs: "recording_inv run n mem rs pcs ctx"
    using recording_workers [OF recording_start assms(1,3)] by blast
  have "pcs i = Recorded" if "i < n" for i
    using all_recorded [OF assms(3)] assms(2) [OF that] .
  then have "recording_inv run n mem rs (\<lambda>_. Recorded) ctx"
    using rs by (simp add: recording_inv_def)
  then show ?thesis by (rule finished_collects)
qed

lemma below_three: "(i :: usize) < 3 \<longleftrightarrow> i \<in> {0, 1, 2}"
proof -
  have "unat i < 3 \<longleftrightarrow> unat i = 0 \<or> unat i = 1 \<or> unat i = 2" by arith
  then show ?thesis by (simp add: usize_eq_iff word_less_nat_alt)
qed

text \<open>Task 1 panics while task 2's value is written but not yet flagged; task 0 comes last.\<close>

theorem interleaved_recording_witness:
  "\<exists>pcs ctx. workers sample_run [2, 1, 2, 0, 1, 2, 0, 0, 1] ((\<lambda>_. NotStarted), fresh_context 3 0) = (pcs, ctx)
     \<and> drive_spec Null 3 sample_run 0 (collect_results 3 ctx)
     \<and> collect_results 3 ctx = (Unwound (UserPanic 7), 3, [2, 2])"
proof -
  let ?steps = "[2, 1, 2, 0, 1, 2, 0, 0, 1] :: usize list"
  obtain pcs ctx where w: "workers sample_run ?steps ((\<lambda>_. NotStarted), fresh_context 3 0) = (pcs, ctx)"
    by fastforce
  have "drive_spec Null 3 sample_run 0 (collect_results 3 ctx)"
    by (rule interleaved_recording [OF _ _ w]) (auto simp: below_three)
  moreover have "collect_results 3 (snd (workers sample_run ?steps ((\<lambda>_. NotStarted), fresh_context 3 0))) =
      (Unwound (UserPanic 7), 3, [2, 2])" by code_simp
  ultimately show ?thesis using w by auto
qed

end
