(* ===== verification/Atomics.thy ===== *)
theory Atomics
  imports Tokens "HOL-Library.Sublist"
begin

text \<open>
  Conditional atomics: \<^verbatim>\<open>src/atomic/\<close>. An atomic is the word it holds; an operation of
  \<open>core::sync::atomic\<close> is one indivisible step on it, and panics on an ordering it does not
  accept. A method that takes a permit is accepted for the carriers of \<^theory_text>\<open>Tokens\<close> that
  implement the trait it asks for; \<open>None\<close> is the compiler's rejection.

  Bit patterns are words of any width; \<open>is_signed\<close> tells the signed from the unsigned types, on
  which only \<open>fetch_max\<close> and \<open>fetch_min\<close> differ.
\<close>

unbundle bit_operations_syntax

section \<open>Orderings: \<^verbatim>\<open>atomic/order.rs\<close>\<close>

datatype ordering = OrdRelaxed | OrdRelease | OrdAcquire | OrdAcqRel | OrdSeqCst

datatype order_policy = Relaxed | AcqRel | SeqCst

fun policy_LOAD :: "order_policy \<Rightarrow> ordering" where
  "policy_LOAD Relaxed = OrdRelaxed"
| "policy_LOAD AcqRel = OrdAcquire"
| "policy_LOAD SeqCst = OrdSeqCst"

fun policy_STORE :: "order_policy \<Rightarrow> ordering" where
  "policy_STORE Relaxed = OrdRelaxed"
| "policy_STORE AcqRel = OrdRelease"
| "policy_STORE SeqCst = OrdSeqCst"

fun policy_RMW :: "order_policy \<Rightarrow> ordering" where
  "policy_RMW Relaxed = OrdRelaxed"
| "policy_RMW AcqRel = OrdAcqRel"
| "policy_RMW SeqCst = OrdSeqCst"

fun policy_FAILURE :: "order_policy \<Rightarrow> ordering" where
  "policy_FAILURE Relaxed = OrdRelaxed"
| "policy_FAILURE AcqRel = OrdAcquire"
| "policy_FAILURE SeqCst = OrdSeqCst"

datatype ordering_source = Runtime ordering | Policy order_policy

fun load_order :: "ordering_source \<Rightarrow> ordering" where
  "load_order (Runtime o') = o'"
| "load_order (Policy p) = policy_LOAD p"

fun store_order :: "ordering_source \<Rightarrow> ordering" where
  "store_order (Runtime o') = o'"
| "store_order (Policy p) = policy_STORE p"

fun rmw_order :: "ordering_source \<Rightarrow> ordering" where
  "rmw_order (Runtime o') = o'"
| "rmw_order (Policy p) = policy_RMW p"

fun failure_order :: "ordering_source \<Rightarrow> ordering" where
  "failure_order (Runtime o') = o'"
| "failure_order (Policy p) = policy_FAILURE p"

section \<open>The atomic primitives: \<^verbatim>\<open>atomic/traits.rs\<close>\<close>

text \<open>Orderings the standard library refuses: a load or a failed compare-exchange cannot release,
  a store cannot acquire.\<close>

definition load_accepts :: "ordering \<Rightarrow> bool" where
  "load_accepts o' \<longleftrightarrow> o' \<noteq> OrdRelease \<and> o' \<noteq> OrdAcqRel"

definition store_accepts :: "ordering \<Rightarrow> bool" where
  "store_accepts o' \<longleftrightarrow> o' \<noteq> OrdAcquire \<and> o' \<noteq> OrdAcqRel"

type_synonym ('v, 'r) atomic_op = "'v \<Rightarrow> 'r outcome \<times> 'v"

definition new_atomic :: "'v \<Rightarrow> 'v" where
  "new_atomic value = value"

definition atomic_load :: "ordering \<Rightarrow> ('v, 'v) atomic_op" where
  "atomic_load o' v = (if load_accepts o' then (Done v, v) else (Panicked InvalidOrdering, v))"

definition atomic_store :: "'v \<Rightarrow> ordering \<Rightarrow> ('v, unit) atomic_op" where
  "atomic_store new o' v = (if store_accepts o' then (Done (), new) else (Panicked InvalidOrdering, v))"

definition atomic_swap :: "'v \<Rightarrow> ordering \<Rightarrow> ('v, 'v) atomic_op" where
  "atomic_swap new o' v = (Done v, new)"

text \<open>\<open>Result\<close>: \<open>Inr\<close> is \<open>Ok\<close>, \<open>Inl\<close> is \<open>Err\<close>.\<close>

definition atomic_compare_exchange ::
    "'v \<Rightarrow> 'v \<Rightarrow> ordering \<Rightarrow> ordering \<Rightarrow> ('v, 'v + 'v) atomic_op" where
  "atomic_compare_exchange current new success failure v =
     (if \<not> load_accepts failure then (Panicked InvalidOrdering, v)
      else if v = current then (Done (Inr v), new) else (Done (Inl v), v))"

definition atomic_get_mut :: "('v \<Rightarrow> 'r \<times> 'v) \<Rightarrow> 'v \<Rightarrow> 'r \<times> 'v" where
  "atomic_get_mut f v = f v"

definition atomic_into_inner :: "'v \<Rightarrow> 'v" where
  "atomic_into_inner v = v"

text \<open>
  \<open>fetch_update\<close> of the standard library: load, then compute and compare-exchange until it
  succeeds or the function declines. Between two of its steps other threads may change
  the word, and the weak compare-exchange may fail for no reason: each entry of \<open>env\<close> is what
  the others do before the next attempt and whether that attempt fails spuriously.
\<close>

type_synonym 'v interference = "('v \<Rightarrow> 'v) \<times> bool"

fun fetch_update_loop ::
    "('v \<Rightarrow> 'v option) \<Rightarrow> 'v interference list \<Rightarrow> 'v \<Rightarrow> ('v + 'v) \<times> 'v" where
  "fetch_update_loop f [] prev =
     (case f prev of None \<Rightarrow> (Inl prev, prev) | Some new \<Rightarrow> (Inr prev, new))"
| "fetch_update_loop f ((others, spurious) # env) prev =
     (case f prev of
        None \<Rightarrow> (Inl prev, prev)
      | Some new \<Rightarrow>
          let v = others prev in
          if v = prev \<and> \<not> spurious then (Inr prev, new) else fetch_update_loop f env v)"

definition atomic_fetch_update ::
    "'v interference list \<Rightarrow> ordering \<Rightarrow> ordering \<Rightarrow> ('v \<Rightarrow> 'v option) \<Rightarrow> ('v, 'v + 'v) atomic_op" where
  "atomic_fetch_update env set_order fetch_order f v =
     (if \<not> load_accepts fetch_order then (Panicked InvalidOrdering, v)
      else let (r, v') = fetch_update_loop f env v in (Done r, v'))"

definition value_le :: "bool \<Rightarrow> 'w::len word \<Rightarrow> 'w word \<Rightarrow> bool" where
  "value_le is_signed a b \<longleftrightarrow> (if is_signed then sint a \<le> sint b else a \<le> b)"

definition atomic_fetch_add :: "'w::len word \<Rightarrow> ordering \<Rightarrow> ('w word, 'w word) atomic_op" where
  "atomic_fetch_add x o' v = (Done v, v + x)"

definition atomic_fetch_sub :: "'w::len word \<Rightarrow> ordering \<Rightarrow> ('w word, 'w word) atomic_op" where
  "atomic_fetch_sub x o' v = (Done v, v - x)"

definition atomic_fetch_and :: "'w::len word \<Rightarrow> ordering \<Rightarrow> ('w word, 'w word) atomic_op" where
  "atomic_fetch_and x o' v = (Done v, v AND x)"

definition atomic_fetch_or :: "'w::len word \<Rightarrow> ordering \<Rightarrow> ('w word, 'w word) atomic_op" where
  "atomic_fetch_or x o' v = (Done v, v OR x)"

definition atomic_fetch_xor :: "'w::len word \<Rightarrow> ordering \<Rightarrow> ('w word, 'w word) atomic_op" where
  "atomic_fetch_xor x o' v = (Done v, v XOR x)"

definition atomic_fetch_nand :: "'w::len word \<Rightarrow> ordering \<Rightarrow> ('w word, 'w word) atomic_op" where
  "atomic_fetch_nand x o' v = (Done v, NOT (v AND x))"

definition atomic_fetch_max :: "bool \<Rightarrow> 'w::len word \<Rightarrow> ordering \<Rightarrow> ('w word, 'w word) atomic_op" where
  "atomic_fetch_max is_signed x o' v = (Done v, if value_le is_signed v x then x else v)"

definition atomic_fetch_min :: "bool \<Rightarrow> 'w::len word \<Rightarrow> ordering \<Rightarrow> ('w word, 'w word) atomic_op" where
  "atomic_fetch_min is_signed x o' v = (Done v, if value_le is_signed v x then v else x)"

section \<open>\<open>BrandedAtomic\<close>: \<^verbatim>\<open>atomic/branded.rs\<close>\<close>

text \<open>
  The wrapper is \<open>repr(transparent)\<close>: branding an atomic in place, viewing it and taking it back
  leave the word as it is. \<open>as_atomic\<close> asks for a read permit; the unique-ownership accessors ask
  for none.
\<close>

definition branded_new :: "'v \<Rightarrow> 'v" where
  "branded_new value = new_atomic value"

definition branded_from_mut :: "'v \<Rightarrow> 'v" where
  "branded_from_mut atomic = atomic"

definition as_atomic :: "carrier \<Rightarrow> 'v \<Rightarrow> 'v option" where
  "as_atomic permit v = (if ReadPermit permit then Some v else None)"

definition as_atomic_mut :: "('v \<Rightarrow> 'r \<times> 'v) \<Rightarrow> 'v \<Rightarrow> 'r \<times> 'v" where
  "as_atomic_mut f v = f v"

definition into_atomic :: "'v \<Rightarrow> 'v" where
  "into_atomic v = v"

definition branded_get_mut :: "('v \<Rightarrow> 'r \<times> 'v) \<Rightarrow> 'v \<Rightarrow> 'r \<times> 'v" where
  "branded_get_mut f v = atomic_get_mut f v"

definition branded_into_inner :: "'v \<Rightarrow> 'v" where
  "branded_into_inner v = atomic_into_inner v"

text \<open>The exclusive phase: plain access, given a write permit.\<close>

definition with_exclusive :: "carrier \<Rightarrow> ('v \<Rightarrow> 'r \<times> 'v) \<Rightarrow> 'v \<Rightarrow> ('r \<times> 'v) option" where
  "with_exclusive permit f v = (if WritePermit permit then Some (f v) else None)"

definition load_exclusive :: "carrier \<Rightarrow> 'v \<Rightarrow> ('v \<times> 'v) option" where
  "load_exclusive permit v = with_exclusive permit (\<lambda>v. (v, v)) v"

definition store_exclusive :: "'v \<Rightarrow> carrier \<Rightarrow> 'v \<Rightarrow> (unit \<times> 'v) option" where
  "store_exclusive new permit v = with_exclusive permit (\<lambda>v. ((), new)) v"

text \<open>The shared phase: one body per operation, an ordering source, and a read permit.\<close>

definition load_ordered :: "ordering_source \<Rightarrow> ('v, 'v) atomic_op" where
  "load_ordered src v = atomic_load (load_order src) v"

definition store_ordered :: "'v \<Rightarrow> ordering_source \<Rightarrow> ('v, unit) atomic_op" where
  "store_ordered new src v = atomic_store new (store_order src) v"

definition swap_ordered :: "'v \<Rightarrow> ordering_source \<Rightarrow> ('v, 'v) atomic_op" where
  "swap_ordered new src v = atomic_swap new (rmw_order src) v"

definition compare_exchange_ordered ::
    "'v \<Rightarrow> 'v \<Rightarrow> ordering_source \<Rightarrow> ordering_source \<Rightarrow> ('v, 'v + 'v) atomic_op" where
  "compare_exchange_ordered current new success failure v =
     atomic_compare_exchange current new (rmw_order success) (failure_order failure) v"

definition fetch_update_ordered ::
    "'v interference list \<Rightarrow> ordering_source \<Rightarrow> ordering_source \<Rightarrow> ('v \<Rightarrow> 'v option) \<Rightarrow> ('v, 'v + 'v) atomic_op" where
  "fetch_update_ordered env set_order fetch_order f v =
     atomic_fetch_update env (rmw_order set_order) (failure_order fetch_order) f v"

definition gated :: "carrier \<Rightarrow> ('v, 'r) atomic_op \<Rightarrow> 'v \<Rightarrow> ('r outcome \<times> 'v) option" where
  "gated permit f v = (if ReadPermit permit then Some (f v) else None)"

text \<open>\<open>order_pair!\<close>: the runtime entry point and its \<open>_with\<close> twin, from one body.\<close>

definition order_pair_base ::
    "(ordering_source \<Rightarrow> ('v, 'r) atomic_op) \<Rightarrow> carrier \<Rightarrow> ordering \<Rightarrow> 'v \<Rightarrow> ('r outcome \<times> 'v) option" where
  "order_pair_base body permit order v = gated permit (body (Runtime order)) v"

definition order_pair_with ::
    "(ordering_source \<Rightarrow> ('v, 'r) atomic_op) \<Rightarrow> carrier \<Rightarrow> order_policy \<Rightarrow> 'v \<Rightarrow> ('r outcome \<times> 'v) option" where
  "order_pair_with body permit order v = gated permit (body (Policy order)) v"

text \<open>The two-ordering form of the macro.\<close>

definition order_pair2_base ::
    "(ordering_source \<Rightarrow> ordering_source \<Rightarrow> ('v, 'r) atomic_op) \<Rightarrow> carrier \<Rightarrow> ordering \<Rightarrow> ordering
       \<Rightarrow> 'v \<Rightarrow> ('r outcome \<times> 'v) option" where
  "order_pair2_base body permit a b v = gated permit (body (Runtime a) (Runtime b)) v"

definition order_pair2_with ::
    "(ordering_source \<Rightarrow> ordering_source \<Rightarrow> ('v, 'r) atomic_op) \<Rightarrow> carrier \<Rightarrow> order_policy
       \<Rightarrow> 'v \<Rightarrow> ('r outcome \<times> 'v) option" where
  "order_pair2_with body permit order v = gated permit (body (Policy order) (Policy order)) v"

definition branded_load :: "carrier \<Rightarrow> ordering \<Rightarrow> 'v \<Rightarrow> ('v outcome \<times> 'v) option" where
  "branded_load = order_pair_base (\<lambda>order. load_ordered order)"

definition branded_load_with :: "carrier \<Rightarrow> order_policy \<Rightarrow> 'v \<Rightarrow> ('v outcome \<times> 'v) option" where
  "branded_load_with = order_pair_with (\<lambda>order. load_ordered order)"

definition branded_store :: "'v \<Rightarrow> carrier \<Rightarrow> ordering \<Rightarrow> 'v \<Rightarrow> (unit outcome \<times> 'v) option" where
  "branded_store value = order_pair_base (\<lambda>order. store_ordered value order)"

definition branded_store_with :: "'v \<Rightarrow> carrier \<Rightarrow> order_policy \<Rightarrow> 'v \<Rightarrow> (unit outcome \<times> 'v) option" where
  "branded_store_with value = order_pair_with (\<lambda>order. store_ordered value order)"

definition branded_swap :: "'v \<Rightarrow> carrier \<Rightarrow> ordering \<Rightarrow> 'v \<Rightarrow> ('v outcome \<times> 'v) option" where
  "branded_swap value = order_pair_base (\<lambda>order. swap_ordered value order)"

definition branded_swap_with :: "'v \<Rightarrow> carrier \<Rightarrow> order_policy \<Rightarrow> 'v \<Rightarrow> ('v outcome \<times> 'v) option" where
  "branded_swap_with value = order_pair_with (\<lambda>order. swap_ordered value order)"

definition branded_compare_exchange ::
    "'v \<Rightarrow> 'v \<Rightarrow> carrier \<Rightarrow> ordering \<Rightarrow> ordering \<Rightarrow> 'v \<Rightarrow> (('v + 'v) outcome \<times> 'v) option" where
  "branded_compare_exchange current new =
     order_pair2_base (\<lambda>success failure. compare_exchange_ordered current new success failure)"

definition branded_compare_exchange_with ::
    "'v \<Rightarrow> 'v \<Rightarrow> carrier \<Rightarrow> order_policy \<Rightarrow> 'v \<Rightarrow> (('v + 'v) outcome \<times> 'v) option" where
  "branded_compare_exchange_with current new =
     order_pair2_with (\<lambda>success failure. compare_exchange_ordered current new success failure)"

definition branded_fetch_update ::
    "'v interference list \<Rightarrow> ('v \<Rightarrow> 'v option) \<Rightarrow> carrier \<Rightarrow> ordering \<Rightarrow> ordering \<Rightarrow> 'v
       \<Rightarrow> (('v + 'v) outcome \<times> 'v) option" where
  "branded_fetch_update env f =
     order_pair2_base (\<lambda>set_order fetch_order. fetch_update_ordered env set_order fetch_order f)"

definition branded_fetch_update_with ::
    "'v interference list \<Rightarrow> ('v \<Rightarrow> 'v option) \<Rightarrow> carrier \<Rightarrow> order_policy \<Rightarrow> 'v
       \<Rightarrow> (('v + 'v) outcome \<times> 'v) option" where
  "branded_fetch_update_with env f =
     order_pair2_with (\<lambda>set_order fetch_order. fetch_update_ordered env set_order fetch_order f)"

text \<open>Integer operations, \<^verbatim>\<open>atomic/branded/integer.rs\<close>.\<close>

definition branded_fetch_add :: "'w::len word \<Rightarrow> carrier \<Rightarrow> ordering \<Rightarrow> 'w word \<Rightarrow> ('w word outcome \<times> 'w word) option" where
  "branded_fetch_add value = order_pair_base (\<lambda>order. atomic_fetch_add value (rmw_order order))"

definition branded_fetch_add_with :: "'w::len word \<Rightarrow> carrier \<Rightarrow> order_policy \<Rightarrow> 'w word \<Rightarrow> ('w word outcome \<times> 'w word) option" where
  "branded_fetch_add_with value = order_pair_with (\<lambda>order. atomic_fetch_add value (rmw_order order))"

definition branded_fetch_sub :: "'w::len word \<Rightarrow> carrier \<Rightarrow> ordering \<Rightarrow> 'w word \<Rightarrow> ('w word outcome \<times> 'w word) option" where
  "branded_fetch_sub value = order_pair_base (\<lambda>order. atomic_fetch_sub value (rmw_order order))"

definition branded_fetch_sub_with :: "'w::len word \<Rightarrow> carrier \<Rightarrow> order_policy \<Rightarrow> 'w word \<Rightarrow> ('w word outcome \<times> 'w word) option" where
  "branded_fetch_sub_with value = order_pair_with (\<lambda>order. atomic_fetch_sub value (rmw_order order))"

definition branded_fetch_and :: "'w::len word \<Rightarrow> carrier \<Rightarrow> ordering \<Rightarrow> 'w word \<Rightarrow> ('w word outcome \<times> 'w word) option" where
  "branded_fetch_and value = order_pair_base (\<lambda>order. atomic_fetch_and value (rmw_order order))"

definition branded_fetch_and_with :: "'w::len word \<Rightarrow> carrier \<Rightarrow> order_policy \<Rightarrow> 'w word \<Rightarrow> ('w word outcome \<times> 'w word) option" where
  "branded_fetch_and_with value = order_pair_with (\<lambda>order. atomic_fetch_and value (rmw_order order))"

definition branded_fetch_or :: "'w::len word \<Rightarrow> carrier \<Rightarrow> ordering \<Rightarrow> 'w word \<Rightarrow> ('w word outcome \<times> 'w word) option" where
  "branded_fetch_or value = order_pair_base (\<lambda>order. atomic_fetch_or value (rmw_order order))"

definition branded_fetch_or_with :: "'w::len word \<Rightarrow> carrier \<Rightarrow> order_policy \<Rightarrow> 'w word \<Rightarrow> ('w word outcome \<times> 'w word) option" where
  "branded_fetch_or_with value = order_pair_with (\<lambda>order. atomic_fetch_or value (rmw_order order))"

definition branded_fetch_xor :: "'w::len word \<Rightarrow> carrier \<Rightarrow> ordering \<Rightarrow> 'w word \<Rightarrow> ('w word outcome \<times> 'w word) option" where
  "branded_fetch_xor value = order_pair_base (\<lambda>order. atomic_fetch_xor value (rmw_order order))"

definition branded_fetch_xor_with :: "'w::len word \<Rightarrow> carrier \<Rightarrow> order_policy \<Rightarrow> 'w word \<Rightarrow> ('w word outcome \<times> 'w word) option" where
  "branded_fetch_xor_with value = order_pair_with (\<lambda>order. atomic_fetch_xor value (rmw_order order))"

definition branded_fetch_nand :: "'w::len word \<Rightarrow> carrier \<Rightarrow> ordering \<Rightarrow> 'w word \<Rightarrow> ('w word outcome \<times> 'w word) option" where
  "branded_fetch_nand value = order_pair_base (\<lambda>order. atomic_fetch_nand value (rmw_order order))"

definition branded_fetch_nand_with :: "'w::len word \<Rightarrow> carrier \<Rightarrow> order_policy \<Rightarrow> 'w word \<Rightarrow> ('w word outcome \<times> 'w word) option" where
  "branded_fetch_nand_with value = order_pair_with (\<lambda>order. atomic_fetch_nand value (rmw_order order))"

definition branded_fetch_max :: "bool \<Rightarrow> 'w::len word \<Rightarrow> carrier \<Rightarrow> ordering \<Rightarrow> 'w word \<Rightarrow> ('w word outcome \<times> 'w word) option" where
  "branded_fetch_max is_signed value = order_pair_base (\<lambda>order. atomic_fetch_max is_signed value (rmw_order order))"

definition branded_fetch_max_with :: "bool \<Rightarrow> 'w::len word \<Rightarrow> carrier \<Rightarrow> order_policy \<Rightarrow> 'w word \<Rightarrow> ('w word outcome \<times> 'w word) option" where
  "branded_fetch_max_with is_signed value = order_pair_with (\<lambda>order. atomic_fetch_max is_signed value (rmw_order order))"

definition branded_fetch_min :: "bool \<Rightarrow> 'w::len word \<Rightarrow> carrier \<Rightarrow> ordering \<Rightarrow> 'w word \<Rightarrow> ('w word outcome \<times> 'w word) option" where
  "branded_fetch_min is_signed value = order_pair_base (\<lambda>order. atomic_fetch_min is_signed value (rmw_order order))"

definition branded_fetch_min_with :: "bool \<Rightarrow> 'w::len word \<Rightarrow> carrier \<Rightarrow> order_policy \<Rightarrow> 'w word \<Rightarrow> ('w word outcome \<times> 'w word) option" where
  "branded_fetch_min_with is_signed value = order_pair_with (\<lambda>order. atomic_fetch_min is_signed value (rmw_order order))"

section \<open>Bodies under an accepted ordering\<close>

text \<open>What the bodies rely on: the source resolves each role to an ordering the operation takes.\<close>

locale accepted_source =
  fixes source :: "'s \<Rightarrow> ordering_source"
  assumes load_ok: "load_accepts (load_order (source s))"
    and store_ok: "store_accepts (store_order (source s))"
    and failure_ok: "load_accepts (failure_order (source s))"
begin

lemma load_body: "load_ordered (source s) v = (Done v, v)"
  by (simp add: load_ordered_def atomic_load_def load_ok)

lemma store_body: "store_ordered x (source s) v = (Done (), x)"
  by (simp add: store_ordered_def atomic_store_def store_ok)

lemma compare_exchange_body:
  "compare_exchange_ordered cur new s' (source s) v =
     (if v = cur then (Done (Inr v), new) else (Done (Inl v), v))"
  by (simp add: compare_exchange_ordered_def atomic_compare_exchange_def failure_ok)

lemma fetch_update_body:
  "fetch_update_ordered env s' (source s) f v =
     (Done (fst (fetch_update_loop f env v)), snd (fetch_update_loop f env v))"
  by (simp add: fetch_update_ordered_def atomic_fetch_update_def failure_ok split_def Let_def)

end

interpretation policy: accepted_source Policy
proof
  fix p
  show "load_accepts (load_order (Policy p))" by (cases p) (simp_all add: load_accepts_def)
  show "store_accepts (store_order (Policy p))" by (cases p) (simp_all add: store_accepts_def)
  show "load_accepts (failure_order (Policy p))" by (cases p) (simp_all add: load_accepts_def)
qed

lemmas pair_defs = order_pair_base_def order_pair_with_def order_pair2_base_def order_pair2_with_def
  gated_def

lemmas method_defs = branded_load_def branded_load_with_def branded_store_def branded_store_with_def
  branded_swap_def branded_swap_with_def branded_compare_exchange_def
  branded_compare_exchange_with_def branded_fetch_update_def branded_fetch_update_with_def

lemmas integer_defs = branded_fetch_add_def branded_fetch_add_with_def branded_fetch_sub_def
  branded_fetch_sub_with_def branded_fetch_and_def branded_fetch_and_with_def
  branded_fetch_or_def branded_fetch_or_with_def branded_fetch_xor_def branded_fetch_xor_with_def
  branded_fetch_nand_def branded_fetch_nand_with_def branded_fetch_max_def
  branded_fetch_max_with_def branded_fetch_min_def branded_fetch_min_with_def
  atomic_fetch_add_def atomic_fetch_sub_def atomic_fetch_and_def atomic_fetch_or_def
  atomic_fetch_xor_def atomic_fetch_nand_def atomic_fetch_max_def atomic_fetch_min_def

lemmas exclusive_defs = with_exclusive_def load_exclusive_def store_exclusive_def

lemma carrier_write_reads: "WritePermit c \<Longrightarrow> ReadPermit c"
  by (cases c) (simp_all add: WritePermit_def ReadPermit_def)

section \<open>\<open>fetch_update\<close> under interference\<close>

text \<open>What the other threads did before the attempt that decided.\<close>

definition others_before :: "'v interference list \<Rightarrow> 'v \<Rightarrow> 'v" where
  "others_before env v = fold fst env v"

lemma others_before_simps [simp]:
  "others_before [] v = v"
  "others_before (e # env) v = others_before env (fst e v)"
  by (simp_all add: others_before_def)

lemma fetch_update_loop_decides:
  "\<exists>before. prefix before env \<and>
     (case f (others_before before v) of
        None \<Rightarrow> fetch_update_loop f env v = (Inl (others_before before v), others_before before v)
      | Some new \<Rightarrow> fetch_update_loop f env v = (Inr (others_before before v), new))"
proof (induction f env v rule: fetch_update_loop.induct)
  case (1 f prev)
  show ?case by (rule exI [of _ "[]"]) (auto split: option.split)
next
  case (2 f others spurious env prev)
  show ?case
  proof (cases "f prev")
    case None
    then show ?thesis by (intro exI [of _ "[]"]) simp
  next
    case (Some new)
    show ?thesis
    proof (cases "others prev = prev \<and> \<not> spurious")
      case True
      with Some show ?thesis by (intro exI [of _ "[(others, spurious)]"]) simp
    next
      case False
      from 2 [OF Some refl] False obtain before where "prefix before env"
        "case f (others_before before (others prev)) of
           None \<Rightarrow> fetch_update_loop f env (others prev)
                    = (Inl (others_before before (others prev)), others_before before (others prev))
         | Some new \<Rightarrow> fetch_update_loop f env (others prev)
                    = (Inr (others_before before (others prev)), new)"
        by auto
      with Some False show ?thesis
        by (intro exI [of _ "(others, spurious) # before"]) (auto simp: Let_def split: option.splits)
    qed
  qed
qed

section \<open>Properties\<close>

text \<open>C33. A method called with one of the sealed policies never panics, and does what the plain
  operation would do at one instant: for every policy and permit the load returns the word, the store
  replaces it, the swap does both, the compare-exchange replaces it exactly when it equals
  \<open>cur\<close> and returns the word it found either way. A run-time ordering that the policies could never
  produce panics and leaves the word alone: a load with \<open>Release\<close> or \<open>AcqRel\<close>, a store with
  \<open>Acquire\<close> or \<open>AcqRel\<close>, a compare-exchange whose failure ordering releases.\<close>

lemma policies_never_panic:
  "branded_load_with p pol v = Some (Done v, v)
   \<and> branded_store_with x p pol v = Some (Done (), x)
   \<and> branded_swap_with x p pol v = Some (Done v, x)
   \<and> branded_compare_exchange_with cur x p pol v
       = Some (if v = cur then (Done (Inr v), x) else (Done (Inl v), v))
   \<and> branded_load p o' v
       = Some (if o' \<in> {OrdRelease, OrdAcqRel} then Panicked InvalidOrdering else Done v, v)
   \<and> branded_store x p o' v
       = Some (if o' \<in> {OrdAcquire, OrdAcqRel} then (Panicked InvalidOrdering, v) else (Done (), x))
   \<and> branded_compare_exchange cur x p o'' o' v
       = Some (if o' \<in> {OrdRelease, OrdAcqRel} then (Panicked InvalidOrdering, v)
               else if v = cur then (Done (Inr v), x) else (Done (Inl v), v))"
proof -
  have runtime:
    "load_ordered (Runtime o') v = (if o' \<in> {OrdRelease, OrdAcqRel} then Panicked InvalidOrdering else Done v, v)"
    "store_ordered x (Runtime o') v
       = (if o' \<in> {OrdAcquire, OrdAcqRel} then (Panicked InvalidOrdering, v) else (Done (), x))"
    "compare_exchange_ordered cur x (Runtime o'') (Runtime o') v
       = (if o' \<in> {OrdRelease, OrdAcqRel} then (Panicked InvalidOrdering, v)
          else if v = cur then (Done (Inr v), x) else (Done (Inl v), v))"
    by (simp_all add: load_ordered_def atomic_load_def load_accepts_def store_ordered_def
        atomic_store_def store_accepts_def compare_exchange_ordered_def atomic_compare_exchange_def)
  show ?thesis
    by (simp only: method_defs pair_defs policy.load_body policy.store_body
        policy.compare_exchange_body runtime ReadPermit_all if_True swap_ordered_def atomic_swap_def
        simp_thms)
qed

text \<open>A read-modify-write performed plainly, in the exclusive phase.\<close>

definition exclusive_rmw :: "('v \<Rightarrow> 'v) \<Rightarrow> 'v \<Rightarrow> ('v outcome \<times> 'v) option" where
  "exclusive_rmw g v = map_option (\<lambda>(r, v'). (Done r, v')) (with_exclusive OwnerMut (\<lambda>v. (v, g v)) v)"

lemma exclusive_rmw_eq [simp]: "exclusive_rmw g v = Some (Done v, g v)"
  by (simp add: exclusive_rmw_def with_exclusive_def)

definition signed_max :: "'w::len word \<Rightarrow> 'w word \<Rightarrow> 'w word" where
  "signed_max x v = (if sint v \<le> sint x then x else v)"

lemma sint_signed_max: "sint (signed_max x v) = max (sint v) (sint x)"
  by (simp add: signed_max_def max_def)

definition signed_min :: "'w::len word \<Rightarrow> 'w word \<Rightarrow> 'w word" where
  "signed_min x v = (if sint v \<le> sint x then v else x)"

lemma sint_signed_min: "sint (signed_min x v) = min (sint v) (sint x)"
  by (simp add: signed_min_def min_def)


text \<open>C31. \<open>fetch_update\<close> is one indivisible step. Whatever finite sequence of interferences and
  spurious failures the loop meets, it returns; some prefix of the interference has taken effect
  when the deciding attempt reads the word, and the result, the final word and the decision to
  store are those of \<open>f\<close> applied once to that word. With the code's policies no ordering panics; with
  run-time orderings it panics exactly for a fetch ordering that releases.\<close>

lemma fetch_update_is_one_step:
  "(\<exists>before. prefix before env \<and>
      branded_fetch_update_with env f p pol v
        = (case f (others_before before v) of
             None \<Rightarrow> Some (Done (Inl (others_before before v)), others_before before v)
           | Some new \<Rightarrow> Some (Done (Inr (others_before before v)), new)))
   \<and> branded_fetch_update env f p o' o'' v
       = (if o'' \<in> {OrdRelease, OrdAcqRel} then Some (Panicked InvalidOrdering, v)
          else branded_fetch_update_with env f p pol v)"
proof
  from fetch_update_loop_decides [of env f v]
  show "\<exists>before. prefix before env \<and>
      branded_fetch_update_with env f p pol v
        = (case f (others_before before v) of
             None \<Rightarrow> Some (Done (Inl (others_before before v)), others_before before v)
           | Some new \<Rightarrow> Some (Done (Inr (others_before before v)), new))"
    by (auto simp: method_defs pair_defs policy.fetch_update_body split: option.splits)
  show "branded_fetch_update env f p o' o'' v
       = (if o'' \<in> {OrdRelease, OrdAcqRel} then Some (Panicked InvalidOrdering, v)
          else branded_fetch_update_with env f p pol v)"
    by (simp add: branded_fetch_update_def branded_fetch_update_with_def pair_defs
        policy.fetch_update_body fetch_update_ordered_def [where fetch_order = "Runtime o''"]
        atomic_fetch_update_def load_accepts_def split_def Let_def)
qed

text \<open>Threads sharing a counter: each entry of \<open>xs\<close> is one \<open>fetch_add\<close>, in the order in which
  they reach the word. The values they return, and the word they leave.\<close>

fun fetch_adds :: "(carrier \<times> ordering \<times> 'w::len word) list \<Rightarrow> 'w word \<Rightarrow> ('w word outcome list \<times> 'w word) option" where
  "fetch_adds [] v = Some ([], v)"
| "fetch_adds ((p, o', x) # xs) v =
     (case branded_fetch_add x p o' v of
        None \<Rightarrow> None
      | Some (r, v') \<Rightarrow> map_option (\<lambda>(rs, w). (r # rs, w)) (fetch_adds xs v'))"

lemma fetch_add_eq [simp]: "branded_fetch_add x p o' v = Some (Done v, v + x)"
  by (simp add: branded_fetch_add_def pair_defs atomic_fetch_add_def)

lemma fetch_adds_eq:
  "fetch_adds xs v = Some (map (\<lambda>k. Done (v + sum_list (map (snd \<circ> snd) (take k xs)))) [0..<length xs],
     v + sum_list (map (snd \<circ> snd) xs))"
proof (induction xs arbitrary: v)
  case (Cons a xs)
  obtain p o' x where a: "a = (p, o', x)" by (cases a)
  have "[0..<length (a # xs)] = 0 # map Suc [0..<length xs]"
    by (simp only: list.size upt_conv_Cons map_Suc_upt) (simp add: upt_conv_Cons del: upt_Suc)
  then show ?case by (simp add: a Cons comp_def add.assoc del: upt_Suc)
qed simp

lemma sum_list_ones: "sum_list (replicate n (1 :: 'w::len word)) = of_nat n"
  by (induction n) simp_all



end
