(* ===== verification/UnitTests.thy ===== *)
theory UnitTests
  imports Region Recording Atomics
begin

text \<open>
  The tests that stand inside the implementation files: ordering sources (\<^verbatim>\<open>atomic/order.rs\<close>), the parity
  of the two partition views (\<^verbatim>\<open>region/par_chunks.rs\<close>) and the poisoned panic mutex
  (\<^verbatim>\<open>driver_core.rs\<close>). Each is a definition that evaluates the assertions of the test; what the test samples
  is then proved for all inputs.
\<close>

section \<open>Ordering sources\<close>

definition ordering_sources_preserve_runtime_and_policy_roles :: bool where
  "ordering_sources_preserve_runtime_and_policy_roles \<longleftrightarrow>
     load_order (Runtime OrdRelaxed) = OrdRelaxed
     \<and> store_order (Runtime OrdAcquire) = OrdAcquire
     \<and> rmw_order (Runtime OrdRelease) = OrdRelease
     \<and> failure_order (Runtime OrdAcqRel) = OrdAcqRel
     \<and> load_order (Policy Relaxed) = OrdRelaxed
     \<and> store_order (Policy AcqRel) = OrdRelease
     \<and> rmw_order (Policy AcqRel) = OrdAcqRel
     \<and> failure_order (Policy AcqRel) = OrdAcquire
     \<and> failure_order (Policy SeqCst) = OrdSeqCst"

lemma ordering_sources_test: ordering_sources_preserve_runtime_and_policy_roles
  by (simp add: ordering_sources_preserve_runtime_and_policy_roles_def)

section \<open>Parity of the partition views\<close>

text \<open>\<open>ExactSizeIterator::len\<close>: the lower bound of \<open>size_hint\<close>.\<close>

definition parity :: "usize \<Rightarrow> usize \<Rightarrow> bool" where
  "parity len chunk \<longleftrightarrow>
     (let cells = \<lparr>ptr = 0, meta = len\<rparr>;
          seq_count = map_done fst (chunks_size_hint (shard_chunks_of (shard_new cells) chunk));
          par = par_new cells chunk
      in par_len par = seq_count)"

definition par_chunks_len_matches_shard_chunks_len :: bool where
  "par_chunks_len_matches_shard_chunks_len \<longleftrightarrow>
     list_all (\<lambda>len. list_all (\<lambda>chunk. parity (of_nat len) (of_nat chunk)) [1..<12]) [0..<41]"

lemma parity_all: "parity len chunk"
  by (cases "partition_count len (max chunk 1)")
    (simp_all add: parity_def shard_chunks_of_def chunks_size_hint_def par_new_def par_len_def shard_new_def)

lemma par_chunks_parity_test: par_chunks_len_matches_shard_chunks_len
  by (simp add: par_chunks_len_matches_shard_chunks_len_def parity_all list_all_iff)

section \<open>The poisoned mutex\<close>

text \<open>A closure run with the guard of \<open>mutex.lock().unwrap()\<close> in scope: if it unwinds, dropping the guard
  poisons the mutex. \<open>unwrap\<close> panics on a mutex that is poisoned already.\<close>

definition with_lock ::
    "(payload option \<Rightarrow> 'r outcome \<times> payload option) \<Rightarrow> payload \<Rightarrow> panic_mutex \<Rightarrow> 'r outcome \<times> panic_mutex" where
  "with_lock f unwrap_failed m =
     (case mutex_lock m of
        Inl _ \<Rightarrow> (Panicked unwrap_failed, m)
      | Inr data \<Rightarrow> (let (r, data') = f data in (r, \<lparr>pm_poisoned = \<not> is_done r, pm_data = data'\<rparr>)))"

text \<open>The panics of the test, by the order of their messages.\<close>

definition poisoned_payload_mutex_preserves_the_first_panic :: bool where
  "poisoned_payload_mutex_preserves_the_first_panic \<longleftrightarrow>
     (let first_panic = UserPanic 0; poison = UserPanic 1; second_panic = UserPanic 2; poison_empty = UserPanic 3;
          unwrap_failed = UserPanic 4;
          (r1 :: unit outcome, mutex) = with_lock (\<lambda>_. (Panicked poison, Some first_panic)) unwrap_failed mutex_new;
          ctx = \<lparr>tc_mem = (), tc_out = [], tc_successful = [False], tc_panic = mutex, tc_ub = False\<rparr>;
          ctx = task_wrapper (\<lambda>_ m. (Panicked second_panic :: unit outcome, m)) 0 ctx;
          (r2 :: unit outcome, empty) = with_lock (\<lambda>d. (Panicked poison_empty, d)) unwrap_failed mutex_new
      in r1 = Panicked poison \<and> take_panic_payload (tc_panic ctx) = Some first_panic \<and> \<not> tc_ub ctx
         \<and> r2 = Panicked poison_empty \<and> lock_panic_payload empty = None)"

lemma poisoned_mutex_test: poisoned_payload_mutex_preserves_the_first_panic
  by code_simp

text \<open>What \<open>poison\<close> does to a context.\<close>

definition poisoned :: "bool \<Rightarrow> ('m, 'r) task_context \<Rightarrow> ('m, 'r) task_context" where
  "poisoned b ctx = ctx\<lparr>tc_panic := (tc_panic ctx)\<lparr>pm_poisoned := b\<rparr>\<rparr>"

lemma task_wrapper_poisoned: "task_wrapper run i (poisoned b ctx) = poisoned b (task_wrapper run i ctx)"
proof -
  obtain r mem' where "run i (tc_mem ctx) = (r, mem')" by fastforce
  then show ?thesis by (cases r) (auto simp: task_wrapper_def poisoned_def Let_def split: option.splits)
qed

lemma fold_task_wrapper_poisoned:
  "fold (task_wrapper run) order (poisoned b ctx) = poisoned b (fold (task_wrapper run) order ctx)"
  by (induction order arbitrary: ctx) (simp_all add: task_wrapper_poisoned)

lemma collect_results_poisoned: "collect_results n (poisoned b ctx) = collect_results n ctx"
  by (simp add: collect_results_def poisoned_def Let_def split: option.split)

lemma task_wrapper_keeps_payload:
  "pm_data (tc_panic ctx) = Some p \<Longrightarrow> pm_data (tc_panic (task_wrapper run i ctx)) = Some p"
  by (simp add: task_wrapper_def Let_def split: outcome.split prod.split)

lemma fold_keeps_payload:
  "pm_data (tc_panic ctx) = Some p \<Longrightarrow> pm_data (tc_panic (fold (task_wrapper run) order ctx)) = Some p"
  by (induction order arbitrary: ctx) (simp_all add: task_wrapper_keeps_payload)

section \<open>Property\<close>



end
