(* ===== verification/AtomicTypes.thy ===== *)
theory AtomicTypes
  imports Atomics
begin

text \<open>
  The atomic types of the crate, \<^verbatim>\<open>impl_atomic_int!\<close> and \<^verbatim>\<open>impl_atomic_base!\<close> of
  \<^verbatim>\<open>atomic/traits.rs\<close>, and what the read-modify-write operations compute on the integers these
  types stand for. Bit patterns are words; a signed type reads them in two's complement.
\<close>

section \<open>The implementing types\<close>

datatype atomic_type =
    AtomicUsize | AtomicIsize | AtomicU32 | AtomicI32 | AtomicU64 | AtomicI64
  | AtomicU8 | AtomicI8 | AtomicU16 | AtomicI16 | AtomicBool

fun atomic_bits :: "atomic_type \<Rightarrow> nat" where
  "atomic_bits AtomicUsize = 64" | "atomic_bits AtomicIsize = 64"
| "atomic_bits AtomicU32 = 32" | "atomic_bits AtomicI32 = 32"
| "atomic_bits AtomicU64 = 64" | "atomic_bits AtomicI64 = 64"
| "atomic_bits AtomicU8 = 8" | "atomic_bits AtomicI8 = 8"
| "atomic_bits AtomicU16 = 16" | "atomic_bits AtomicI16 = 16"
| "atomic_bits AtomicBool = 8"

definition atomic_signed :: "atomic_type \<Rightarrow> bool" where
  "atomic_signed ty \<longleftrightarrow> ty \<in> {AtomicIsize, AtomicI32, AtomicI64, AtomicI8, AtomicI16}"

text \<open>\<open>AtomicBool\<close> has no integer operations.\<close>

definition implements_AtomicInt :: "atomic_type \<Rightarrow> bool" where
  "implements_AtomicInt ty \<longleftrightarrow> ty \<noteq> AtomicBool"

section \<open>Integers and bit patterns\<close>

definition int_value :: "bool \<Rightarrow> 'w::len word \<Rightarrow> int" where
  "int_value is_signed v = (if is_signed then sint v else uint v)"

definition type_min :: "atomic_type \<Rightarrow> int" where
  "type_min ty = (if atomic_signed ty then - (2 ^ (atomic_bits ty - 1)) else 0)"

definition type_max :: "atomic_type \<Rightarrow> int" where
  "type_max ty = (if atomic_signed ty then 2 ^ (atomic_bits ty - 1) - 1 else 2 ^ atomic_bits ty - 1)"

text \<open>Wrap-around into the range of the type.\<close>

definition wrap :: "atomic_type \<Rightarrow> int \<Rightarrow> int" where
  "wrap ty i = type_min ty + (i - type_min ty) mod 2 ^ atomic_bits ty"

datatype rmw_op = FetchAdd | FetchSub | FetchAnd | FetchOr | FetchXor | FetchNand | FetchMax | FetchMin

text \<open>What the operations mean on integers, and the methods that perform them.\<close>

fun rmw_value :: "atomic_type \<Rightarrow> rmw_op \<Rightarrow> int \<Rightarrow> int \<Rightarrow> int" where
  "rmw_value ty FetchAdd v x = wrap ty (v + x)"
| "rmw_value ty FetchSub v x = wrap ty (v - x)"
| "rmw_value ty FetchAnd v x = and v x"
| "rmw_value ty FetchOr v x = or v x"
| "rmw_value ty FetchXor v x = xor v x"
| "rmw_value ty FetchNand v x = wrap ty (not (and v x))"
| "rmw_value ty FetchMax v x = max v x"
| "rmw_value ty FetchMin v x = min v x"

fun branded_fetch ::
    "atomic_type \<Rightarrow> rmw_op \<Rightarrow> 'w::len word \<Rightarrow> carrier \<Rightarrow> ordering \<Rightarrow> 'w word
       \<Rightarrow> ('w word outcome \<times> 'w word) option" where
  "branded_fetch ty FetchAdd = branded_fetch_add"
| "branded_fetch ty FetchSub = branded_fetch_sub"
| "branded_fetch ty FetchAnd = branded_fetch_and"
| "branded_fetch ty FetchOr = branded_fetch_or"
| "branded_fetch ty FetchXor = branded_fetch_xor"
| "branded_fetch ty FetchNand = branded_fetch_nand"
| "branded_fetch ty FetchMax = branded_fetch_max (atomic_signed ty)"
| "branded_fetch ty FetchMin = branded_fetch_min (atomic_signed ty)"

section \<open>Ranges\<close>

lemma int_value_range:
  fixes v :: "'w::len word"
  assumes "LENGTH('w) = atomic_bits ty"
  shows "type_min ty \<le> int_value (atomic_signed ty) v" "int_value (atomic_signed ty) v \<le> type_max ty"
proof -
  have u: "0 \<le> uint v" "uint v < 2 ^ LENGTH('w)" by simp_all
  have s: "- (2 ^ (LENGTH('w) - 1)) \<le> sint v" "sint v < 2 ^ (LENGTH('w) - 1)"
    using sint_ge [of v] sint_lt [of v] by auto
  show "type_min ty \<le> int_value (atomic_signed ty) v" "int_value (atomic_signed ty) v \<le> type_max ty"
    using u s assms by (auto simp: type_min_def type_max_def int_value_def)
qed

lemma wrap_eq:
  fixes v :: "'w::len word"
  assumes "LENGTH('w) = atomic_bits ty"
  shows "wrap ty i = (if atomic_signed ty then signed_take_bit (LENGTH('w) - 1) i else take_bit LENGTH('w) i)"
proof -
  have "atomic_bits ty = Suc (atomic_bits ty - 1)" by (cases ty) auto
  then show ?thesis using assms
    by (auto simp: wrap_def type_min_def take_bit_eq_mod signed_take_bit_eq_take_bit_shift algebra_simps)
qed

lemma int_value_arith:
  fixes v x :: "'w::len word"
  assumes "LENGTH('w) = atomic_bits ty"
  defines "val \<equiv> int_value (atomic_signed ty) :: 'w word \<Rightarrow> int"
  shows "val (v + x) = wrap ty (val v + val x)" "val (v - x) = wrap ty (val v - val x)"
    "val (v AND x) = and (val v) (val x)" "val (v OR x) = or (val v) (val x)"
    "val (v XOR x) = xor (val v) (val x)" "val (NOT v) = wrap ty (not (val v))"
    "value_le (atomic_signed ty) v x \<longleftrightarrow> val v \<le> val x"
proof -
  have n: "sint (NOT v) = signed_take_bit (LENGTH('w) - 1) (not (sint v))"
  proof -
    have r: "- (2 ^ (LENGTH('w) - 1)) \<le> - sint v - 1" "- sint v - 1 < 2 ^ (LENGTH('w) - 1)"
      using sint_ge [of v] sint_lt [of v] by linarith+
    moreover have "(2 :: int) ^ (LENGTH('w) - 1) \<le> 2 ^ LENGTH('w)" by (simp add: power_increasing)
    ultimately have "- (2 ^ LENGTH('w)) \<le> - sint v - 1" "- sint v - 1 < 2 ^ LENGTH('w)" by linarith+
    with r show ?thesis by (simp add: signed_not_eq signed_take_bit_int_eq_self not_int_def)
  qed
  show "val (v + x) = wrap ty (val v + val x)" "val (v - x) = wrap ty (val v - val x)"
    "val (v AND x) = and (val v) (val x)" "val (v OR x) = or (val v) (val x)"
    "val (v XOR x) = xor (val v) (val x)" "val (NOT v) = wrap ty (not (val v))"
    "value_le (atomic_signed ty) v x \<longleftrightarrow> val v \<le> val x"
  unfolding val_def wrap_eq [OF assms(1)] int_value_def value_le_def
  by (simp_all add: sint_word_ariths uint_word_ariths take_bit_eq_mod unsigned_and_eq signed_and_eq
      unsigned_or_eq signed_or_eq unsigned_xor_eq signed_xor_eq unsigned_not_eq n word_le_def)
qed

section \<open>Properties\<close>

text \<open>C32. On every integer type of the crate the eight read-modify-write methods compute what their names
  say on the integers the type stands for: the value before the call is returned, sums and
  differences wrap around into the type's range, the bitwise operations act in two's complement on
  the signed types, and maximum and minimum compare signed or unsigned as the type does. No
  ordering panics and no result leaves the range.\<close>

theorem fetch_ops_on_integers:
  fixes v x :: "'w::len word"
  assumes "implements_AtomicInt ty" "LENGTH('w) = atomic_bits ty"
  shows "\<exists>v'. branded_fetch ty op x permit order v = Some (Done v, v')
    \<and> int_value (atomic_signed ty) v' =
        rmw_value ty op (int_value (atomic_signed ty) v) (int_value (atomic_signed ty) x)
    \<and> type_min ty \<le> int_value (atomic_signed ty) v' \<and> int_value (atomic_signed ty) v' \<le> type_max ty"
proof -
  note arith = int_value_arith [OF assms(2)] and range = int_value_range [OF assms(2)]
  show ?thesis
    by (cases op) (simp_all add: integer_defs pair_defs arith range max_def min_def del: bit.de_Morgan_conj)
qed

theorem fetch_ops_on_integers_witness:
  "(\<exists>v'. branded_fetch AtomicI8 FetchAdd (1 :: 8 word) SharedRead OrdRelaxed 127 = Some (Done 127, v')
      \<and> int_value True v' = -128)
   \<and> (\<exists>v'. branded_fetch AtomicI8 FetchMax (255 :: 8 word) SharedRead OrdSeqCst 3 = Some (Done 3, v')
      \<and> int_value True v' = 3)
   \<and> (\<exists>v'. branded_fetch AtomicU8 FetchMax (255 :: 8 word) SharedRead OrdSeqCst 3 = Some (Done 3, v')
      \<and> int_value False v' = 255)"
proof -
  have i: "implements_AtomicInt AtomicI8" "implements_AtomicInt AtomicU8"
    by (simp_all add: implements_AtomicInt_def)
  have l: "LENGTH(8) = atomic_bits AtomicI8" "LENGTH(8) = atomic_bits AtomicU8" by simp_all
  have s: "atomic_signed AtomicI8" "\<not> atomic_signed AtomicU8" by (simp_all add: atomic_signed_def)
  have v: "int_value True (127 :: 8 word) = 127" "int_value True (1 :: 8 word) = 1"
    "int_value True (255 :: 8 word) = -1" "int_value True (3 :: 8 word) = 3"
    "int_value False (255 :: 8 word) = 255" "int_value False (3 :: 8 word) = 3"
    by (simp_all add: int_value_def)
  show ?thesis
    using fetch_ops_on_integers [OF i(1) l(1), of FetchAdd 1 SharedRead OrdRelaxed 127]
      fetch_ops_on_integers [OF i(1) l(1), of FetchMax 255 SharedRead OrdSeqCst 3]
      fetch_ops_on_integers [OF i(2) l(2), of FetchMax 255 SharedRead OrdSeqCst 3]
    by (simp add: s v wrap_def type_min_def del: branded_fetch.simps) blast
qed

end
