(* ===== verification/AtomicPhases.thy ===== *)
theory AtomicPhases
  imports Cells
begin

text \<open>
  Calls on a \<open>BrandedAtomic\<close> that overlap in time, \<^verbatim>\<open>src/atomic/branded.rs\<close>. A call of the exclusive phase
  holds a plain \<open>&mut\<close> to the value, a call of the shared phase uses atomic instructions; the permit
  each takes is a loan of the token machine and is live while the call runs. Methods that take
  \<open>&mut self\<close> need no permit: the borrow checker keeps every other reference to the atomic away.
  \<open>Debug\<close> takes \<open>&self\<close> and no permit, and loads the value. The machine has one step for the
  beginning and one for the end of each call, so that calls of several threads overlap freely.
\<close>

section \<open>Calls in progress\<close>

text \<open>\<open>ph_calls k\<close> is the atomic that the call holding view \<open>k\<close> works on, and whether plainly.\<close>

record phases =
  ph_world :: world
  ph_calls :: "nat \<rightharpoonup> cell_id \<times> bool"
  ph_owned :: "cell_id list"
  ph_formats :: "(cell_id \<times> thread) list"

definition phases_start :: phases where
  "phases_start = \<lparr>ph_world = empty_world, ph_calls = (\<lambda>_. None), ph_owned = [], ph_formats = []\<rparr>"

definition calls_on :: "cell_id \<Rightarrow> phases \<Rightarrow> nat list" where
  "calls_on c s = filter (\<lambda>k. case ph_calls s k of Some (c', _) \<Rightarrow> c' = c | None \<Rightarrow> False) [0..<w_fresh (ph_world s)]"

definition formats_of :: "cell_id \<Rightarrow> phases \<Rightarrow> (cell_id \<times> thread) list" where
  "formats_of c s = filter (\<lambda>(c', _). c' = c) (ph_formats s)"

text \<open>A call that takes \<open>&self\<close> and a permit.\<close>

definition begin_call :: "bool \<Rightarrow> cell_id \<Rightarrow> nat \<Rightarrow> phases \<Rightarrow> rejection + phases" where
  "begin_call plain c p s =
     (if c \<in> set (ph_owned s) then Inl AlreadyMutablyBorrowed
      else case borrow_cells plain [c] p (ph_world s) of
        Inl e \<Rightarrow> Inl e
      | Inr w \<Rightarrow> Inr (s\<lparr>ph_world := w, ph_calls := (ph_calls s)(w_fresh (ph_world s) \<mapsto> (c, plain))\<rparr>))"

text \<open>\<open>with_exclusive\<close>, and \<open>load_exclusive\<close> and \<open>store_exclusive\<close> through it: a write permit and a plain
  \<open>&mut\<close> for the closure.\<close>

definition begin_exclusive :: "cell_id \<Rightarrow> nat \<Rightarrow> phases \<Rightarrow> rejection + phases" where
  "begin_exclusive c p s = begin_call True c p s"

text \<open>\<open>as_atomic\<close>, whose reference lives as long as the permit, and the methods of the shared phase: a read
  permit and atomic instructions.\<close>

definition begin_shared :: "cell_id \<Rightarrow> nat \<Rightarrow> phases \<Rightarrow> rejection + phases" where
  "begin_shared c p s = begin_call False c p s"

definition end_call :: "nat \<Rightarrow> phases \<Rightarrow> rejection + phases" where
  "end_call k s =
     (if ph_calls s k = None then Inl NoSuchView
      else case token_step (DropView k) (ph_world s) of
        Inl e \<Rightarrow> Inl e
      | Inr w \<Rightarrow> Inr (s\<lparr>ph_world := w, ph_calls := (ph_calls s)(k := None)\<rparr>))"

text \<open>\<open>get_mut\<close>, \<open>as_atomic_mut\<close>: plain access through \<open>&mut self\<close>.\<close>

definition begin_owned :: "cell_id \<Rightarrow> phases \<Rightarrow> rejection + phases" where
  "begin_owned c s =
     (if w_cells (ph_world s) c = None then Inl NoSuchToken
      else if c \<in> set (ph_owned s) then Inl AlreadyMutablyBorrowed
      else if calls_on c s \<noteq> [] \<or> formats_of c s \<noteq> [] then Inl AlreadyBorrowed
      else Inr (s\<lparr>ph_owned := c # ph_owned s\<rparr>))"

definition end_owned :: "cell_id \<Rightarrow> phases \<Rightarrow> rejection + phases" where
  "end_owned c s =
     (if c \<in> set (ph_owned s) then Inr (s\<lparr>ph_owned := remove1 c (ph_owned s)\<rparr>) else Inl NoSuchView)"

text \<open>\<open>Debug::fmt\<close>: \<open>&self\<close> is all it takes.\<close>

definition begin_format :: "cell_id \<Rightarrow> thread \<Rightarrow> phases \<Rightarrow> rejection + phases" where
  "begin_format c t s =
     (if w_cells (ph_world s) c = None then Inl NoSuchToken
      else if c \<in> set (ph_owned s) then Inl AlreadyMutablyBorrowed
      else Inr (s\<lparr>ph_formats := (c, t) # ph_formats s\<rparr>))"

definition end_format :: "cell_id \<Rightarrow> thread \<Rightarrow> phases \<Rightarrow> rejection + phases" where
  "end_format c t s =
     (if (c, t) \<in> set (ph_formats s) then Inr (s\<lparr>ph_formats := remove1 (c, t) (ph_formats s)\<rparr>) else Inl NoSuchView)"

text \<open>Tokens and permits move as in the token machine. An atomic has no views but those of its calls, and
  it does not outlive its scope.\<close>

fun phase_token :: "op \<Rightarrow> phases \<Rightarrow> rejection + phases" where
  "phase_token (Borrow cs p) s = Inl NoSuchView"
| "phase_token (BorrowMutCells cs p) s = Inl NoSuchView"
| "phase_token (DropView k) s = Inl NoSuchView"
| "phase_token op s =
     (case op of
        CloseScope b \<Rightarrow>
          (if list_ex (\<lambda>c. w_cells (ph_world s) c = Some b) (ph_owned s @ map fst (ph_formats s)) then Inl EscapesScope
           else map_sum id (\<lambda>w. s\<lparr>ph_world := w\<rparr>) (token_step op (ph_world s)))
      | _ \<Rightarrow> map_sum id (\<lambda>w. s\<lparr>ph_world := w\<rparr>) (token_step op (ph_world s)))"

datatype phase_op =
    Token op
  | BeginExclusive cell_id nat
  | BeginShared cell_id nat
  | EndCall nat
  | BeginOwned cell_id
  | EndOwned cell_id
  | BeginFormat cell_id thread
  | EndFormat cell_id thread

fun phase_step :: "phase_op \<Rightarrow> phases \<Rightarrow> rejection + phases" where
  "phase_step (Token op) s = phase_token op s"
| "phase_step (BeginExclusive c p) s = begin_exclusive c p s"
| "phase_step (BeginShared c p) s = begin_shared c p s"
| "phase_step (EndCall k) s = end_call k s"
| "phase_step (BeginOwned c) s = begin_owned c s"
| "phase_step (EndOwned c) s = end_owned c s"
| "phase_step (BeginFormat c t) s = begin_format c t s"
| "phase_step (EndFormat c t) s = end_format c t s"

fun run_phases :: "phase_op list \<Rightarrow> phases \<Rightarrow> rejection + phases" where
  "run_phases [] s = Inr s"
| "run_phases (op # ops) s = (case phase_step op s of Inl e \<Rightarrow> Inl e | Inr s' \<Rightarrow> run_phases ops s')"

section \<open>Conflicting accesses\<close>

text \<open>The accesses to an atomic in progress: \<open>True\<close> where it is plain.\<close>

definition accesses_to :: "cell_id \<Rightarrow> phases \<Rightarrow> bool list" where
  "accesses_to c s =
     map (\<lambda>k. snd (the (ph_calls s k))) (calls_on c s)
     @ map (\<lambda>_. True) (filter (\<lambda>c'. c' = c) (ph_owned s))
     @ map (\<lambda>_. False) (formats_of c s)"

text \<open>Two accesses at a time, one of them plain: the plain \<open>&mut\<close> is aliased, and if it writes the
  accesses race.\<close>

definition racy :: "cell_id \<Rightarrow> phases \<Rightarrow> bool" where
  "racy c s \<longleftrightarrow> 2 \<le> length (accesses_to c s) \<and> True \<in> set (accesses_to c s)"

section \<open>The invariant\<close>

definition phases_inv :: "phases \<Rightarrow> bool" where
  "phases_inv s \<longleftrightarrow>
     reachable (ph_world s)
     \<and> (\<forall>k c plain. ph_calls s k = Some (c, plain) \<longrightarrow>
          (\<exists>v. w_views (ph_world s) k = Some v \<and> vw_cells v = [c] \<and> vw_mut v = plain))
     \<and> (\<forall>c \<in> set (ph_owned s). (\<forall>k plain. ph_calls s k \<noteq> Some (c, plain)) \<and> formats_of c s = [])
     \<and> distinct (ph_owned s)"

lemma phases_start_inv: "phases_inv phases_start"
  by (simp add: phases_inv_def phases_start_def start)

lemma phases_invD:
  assumes "phases_inv s"
  shows "reachable (ph_world s)" "token_inv (ph_world s)"
    and "ph_calls s k = Some (c, plain) \<Longrightarrow>
      \<exists>v. w_views (ph_world s) k = Some v \<and> vw_cells v = [c] \<and> vw_mut v = plain"
    and "c \<in> set (ph_owned s) \<Longrightarrow> ph_calls s k \<noteq> Some (c, plain)"
    and "c \<in> set (ph_owned s) \<Longrightarrow> formats_of c s = []" "distinct (ph_owned s)"
  using assms by (auto simp: phases_inv_def reachable_inv)

lemma calls_on_mem:
  assumes "phases_inv s"
  shows "k \<in> set (calls_on c s) \<longleftrightarrow> (\<exists>plain. ph_calls s k = Some (c, plain))"
proof -
  have "k < w_fresh (ph_world s)" if "ph_calls s k = Some (c, plain)" for plain
    using phases_invD(3) [OF assms that] viewD [OF token_invD(2) [OF phases_invD(2) [OF assms]]] by metis
  then show ?thesis by (force simp: calls_on_def split: option.splits prod.splits)
qed

lemma call_branded:
  assumes "phases_inv s" "ph_calls s k = Some (c, plain)"
  shows "\<exists>b. w_cells (ph_world s) c = Some b"
proof -
  obtain v where v: "w_views (ph_world s) k = Some v" "vw_cells v = [c]"
    using phases_invD(3) [OF assms] by blast
  show ?thesis by (rule viewD [OF token_invD(2) [OF phases_invD(2) [OF assms(1)]] v(1)]) (simp add: v(2))
qed

text \<open>A step of the token machine that drops no view leaves the calls in progress alone.\<close>

lemma token_step_phases:
  assumes "phases_inv s" "token_step op (ph_world s) = Inr w" "\<And>k. op \<noteq> DropView k"
  shows "phases_inv (s\<lparr>ph_world := w\<rparr>)"
proof -
  have "\<exists>v. w_views w k = Some v \<and> vw_cells v = [c] \<and> vw_mut v = plain" if "ph_calls s k = Some (c, plain)" for k c plain
    using phases_invD(3) [OF assms(1) that] token_step_view [OF phases_invD(2) [OF assms(1)] assms(2) _ assms(3)] by blast
  then show ?thesis
    using assms(1) more [OF phases_invD(1) [OF assms(1)] assms(2)] by (simp add: phases_inv_def formats_of_def)
qed

lemma phase_token_inv: "phases_inv s \<Longrightarrow> phase_token op s = Inr s' \<Longrightarrow> phases_inv s'"
  by (cases "(op, s)" rule: phase_token.cases)
    (auto simp del: token_step.simps split: if_splits sum.splits elim!: token_step_phases
      simp: map_sum_def)

lemma begin_call_inv:
  assumes inv: "phases_inv s" and step: "begin_call plain c p s = Inr s'"
  shows "phases_inv s'"
proof -
  let ?w = "ph_world s"
  obtain w where w: "borrow_cells plain [c] p ?w = Inr w" and c: "c \<notin> set (ph_owned s)"
    and s': "s' = s\<lparr>ph_world := w, ph_calls := (ph_calls s)(w_fresh ?w \<mapsto> (c, plain))\<rparr>"
    using step by (auto simp: begin_call_def split: if_splits sum.splits)
  have t: "token_step (if plain then BorrowMutCells [c] p else Borrow [c] p) ?w = Inr w" using w by (cases plain) simp_all
  have view: "w = add_view \<lparr>vw_cells = [c], vw_permit = p, vw_mut = plain\<rparr> ?w"
    using w by (auto simp: borrow_cells_def split: option.splits if_splits)
  have "phases_inv (s\<lparr>ph_world := w\<rparr>)" by (rule token_step_phases [OF inv t]) simp
  moreover have "ph_calls s (w_fresh ?w) = None \<and> w_views w (w_fresh ?w) =
      Some \<lparr>vw_cells = [c], vw_permit = p, vw_mut = plain\<rparr>"
    using phases_invD(3) [OF inv, of "w_fresh ?w"] fresh_unused(2) [OF token_invD(2) [OF phases_invD(2) [OF inv]]]
    by (cases "ph_calls s (w_fresh ?w)") (auto simp: view add_view_def)
  ultimately show ?thesis using c by (auto simp: phases_inv_def s' formats_of_def)
qed

lemma end_call_inv:
  assumes inv: "phases_inv s" and step: "end_call k s = Inr s'"
  shows "phases_inv s'"
proof -
  obtain w where w: "token_step (DropView k) (ph_world s) = Inr w"
    and s': "s' = s\<lparr>ph_world := w, ph_calls := (ph_calls s)(k := None)\<rparr>"
    using step by (auto simp: end_call_def simp del: token_step.simps split: if_splits sum.splits)
  have "w_views w = (w_views (ph_world s))(k := None)" using w by (auto split: if_splits)
  then show ?thesis
    using inv more [OF phases_invD(1) [OF inv] w] by (auto simp: phases_inv_def s' formats_of_def)
qed

lemma begin_owned_inv:
  assumes inv: "phases_inv s" and step: "begin_owned c s = Inr s'"
  shows "phases_inv s'"
proof -
  have free: "calls_on c s = []" "formats_of c s = []" "c \<notin> set (ph_owned s)"
    and s': "s' = s\<lparr>ph_owned := c # ph_owned s\<rparr>"
    using step by (auto simp: begin_owned_def split: if_splits)
  have "ph_calls s k \<noteq> Some (c, plain)" for k plain using calls_on_mem [OF inv, of k c] free(1) by auto
  then show ?thesis using inv free by (simp add: phases_inv_def s' formats_of_def)
qed

lemma phase_step_inv:
  assumes inv: "phases_inv s" and step: "phase_step op s = Inr s'"
  shows "phases_inv s'"
proof (cases op)
  case (EndOwned c)
  then show ?thesis using inv step
    by (auto simp: end_owned_def phases_inv_def formats_of_def split: if_splits dest: notin_set_remove1)
next
  case (BeginFormat c t)
  then show ?thesis using inv step
    by (auto simp: begin_format_def phases_inv_def formats_of_def split: if_splits)
next
  case (EndFormat c t)
  then show ?thesis using inv step
    by (fastforce simp: end_format_def phases_inv_def formats_of_def filter_empty_conv split: if_splits
        dest: set_remove1_subset [THEN subsetD])
qed (use inv step in \<open>auto simp: begin_exclusive_def begin_shared_def
    intro: phase_token_inv begin_call_inv end_call_inv begin_owned_inv\<close>)

lemma run_phases_inv: "phases_inv s \<Longrightarrow> run_phases ops s = Inr s' \<Longrightarrow> phases_inv s'"
  by (induction ops arbitrary: s) (auto split: sum.splits intro: phase_step_inv)

text \<open>Permits separate the calls they gate.\<close>

lemma calls_exclude:
  assumes inv: "phases_inv s" and "ph_calls s k = Some (c, True)" "ph_calls s k' = Some (c, plain)"
  shows "k = k'"
proof -
  obtain v v' where v: "w_views (ph_world s) k = Some v" "vw_cells v = [c]" "vw_mut v"
    and v': "w_views (ph_world s) k' = Some v'" "vw_cells v' = [c]"
    using phases_invD(3) [OF inv assms(2)] phases_invD(3) [OF inv assms(3)] by auto
  obtain b where b: "w_cells (ph_world s) c = Some b"
    using call_branded [OF inv assms(2)] by blast
  show ?thesis using live_views_xor [OF phases_invD(1) [OF inv] v(1,3) _ b v'(1) _ b] v(2) v'(2) by simp
qed

lemma distinct_calls_on: "distinct (calls_on c s)"
  by (simp add: calls_on_def)

lemma single_if_distinct: "distinct xs \<Longrightarrow> (\<And>x. x \<in> set xs \<Longrightarrow> x = a) \<Longrightarrow> length xs \<le> 1"
  by (cases xs; cases "tl xs") auto

lemma gated_not_racy:
  assumes inv: "phases_inv s" and none: "formats_of c s = []"
  shows "\<not> racy c s"
proof
  assume r: "racy c s"
  have acc: "accesses_to c s = map (\<lambda>k. snd (the (ph_calls s k))) (calls_on c s)
      @ map (\<lambda>_. True) (filter (\<lambda>c'. c' = c) (ph_owned s))"
    by (simp add: accesses_to_def none)
  show False
  proof (cases "c \<in> set (ph_owned s)")
    case True
    then have "calls_on c s = []" using calls_on_mem [OF inv] phases_invD(4) [OF inv] by (metis ex_in_conv set_empty)
    moreover have "length (filter (\<lambda>c'. c' = c) (ph_owned s)) \<le> 1"
      by (rule single_if_distinct [where a = c]) (use phases_invD(6) [OF inv] in auto)
    ultimately show False using r by (simp add: racy_def acc)
  next
    case False
    then have "filter (\<lambda>c'. c' = c) (ph_owned s) = []" by (auto simp: filter_empty_conv)
    then obtain k where k: "k \<in> set (calls_on c s)" "snd (the (ph_calls s k))" and len: "2 \<le> length (calls_on c s)"
      using r by (auto simp: racy_def acc)
    then have "ph_calls s k = Some (c, True)" using calls_on_mem [OF inv, of k c] by auto
    then have "k' = k" if "k' \<in> set (calls_on c s)" for k'
      using that calls_on_mem [OF inv, of k' c] calls_exclude [OF inv] by metis
    then have "length (calls_on c s) \<le> 1" by (rule single_if_distinct [OF distinct_calls_on])
    then show False using len by simp
  qed
qed

section \<open>Properties\<close>

text \<open>C11. The phases of a branded atomic, for every program of threads that open scopes, borrow, share and
  send tokens, and call the methods of the atomics so that the calls overlap in any way. Whenever a
  plain access to an atomic is in progress together with another access to it, a \<open>Debug\<close>
  formatting of that atomic is in progress: the calls gated by a permit, and those
  that take the atomic by \<open>&mut self\<close>, never conflict.\<close>

theorem gated_calls_never_race:
  assumes "run_phases ops phases_start = Inr s" "racy c s"
  shows "\<exists>t. (c, t) \<in> set (ph_formats s)"
proof -
  have "formats_of c s \<noteq> []"
    using gated_not_racy [OF run_phases_inv [OF phases_start_inv assms(1)]] assms(2) by blast
  then show ?thesis by (auto simp: formats_of_def filter_empty_conv)
qed

definition formatting_program :: "phase_op list" where
  "formatting_program =
     [Token (OpenScope ExclusiveFamily 0), Token (NewCell 7 0), Token (BorrowMut 0 0),
      BeginExclusive 7 0, BeginFormat 7 1]"

lemma formatting_program_run:
  "case run_phases formatting_program phases_start of Inl _ \<Rightarrow> False
   | Inr s \<Rightarrow> racy 7 s \<and> ph_formats s = [(7, 1)] \<and> accesses_to 7 s = [True, False]"
  by code_simp

theorem gated_calls_never_race_witness:
  "\<exists>s. run_phases formatting_program phases_start = Inr s \<and> racy 7 s \<and> (\<exists>t. (7, t) \<in> set (ph_formats s))"
proof (cases "run_phases formatting_program phases_start")
  case (Inr s)
  then have "racy 7 s" using formatting_program_run by simp
  then show ?thesis using gated_calls_never_race [OF Inr] Inr by blast
qed (use formatting_program_run in simp)

text \<open>C12. Formatting is not gated. In every reachable state in which a call of the exclusive phase of an
  atomic holds its plain \<open>&mut\<close>, any thread can begin to format that atomic with \<open>Debug\<close>, and the
  state it reaches has two conflicting accesses.\<close>

theorem formatting_races:
  assumes "run_phases ops phases_start = Inr s" "ph_calls s k = Some (c, True)"
  shows "\<exists>s'. phase_step (BeginFormat c t) s = Inr s' \<and> racy c s'"
proof -
  note inv = run_phases_inv [OF phases_start_inv assms(1)]
  have cell: "w_cells (ph_world s) c \<noteq> None" using call_branded [OF inv assms(2)] by auto
  have own: "c \<notin> set (ph_owned s)" using phases_invD(4) [OF inv] assms(2) by blast
  have k: "k \<in> set (calls_on c s)" using calls_on_mem [OF inv] assms(2) by blast
  then have "True \<in> set (map (\<lambda>k. snd (the (ph_calls s k))) (calls_on c s))" using assms(2) by force
  moreover have "1 \<le> length (calls_on c s)" using length_pos_if_in_set [OF k] by linarith
  moreover have "accesses_to c (s\<lparr>ph_formats := (c, t) # ph_formats s\<rparr>) =
      map (\<lambda>k. snd (the (ph_calls s k))) (calls_on c s) @ map (\<lambda>_. True) (filter (\<lambda>c'. c' = c) (ph_owned s))
      @ False # map (\<lambda>_. False) (formats_of c s)"
    by (simp add: accesses_to_def calls_on_def formats_of_def)
  ultimately have "racy c (s\<lparr>ph_formats := (c, t) # ph_formats s\<rparr>)" unfolding racy_def by simp
  then show ?thesis using cell own by (simp add: begin_format_def)
qed

theorem formatting_races_witness:
  "\<exists>s s'. run_phases (butlast formatting_program) phases_start = Inr s \<and> ph_calls s 1 = Some (7, True)
     \<and> phase_step (BeginFormat 7 1) s = Inr s' \<and> racy 7 s'"
proof -
  have run: "case run_phases (butlast formatting_program) phases_start of Inl _ \<Rightarrow> False
      | Inr s \<Rightarrow> ph_calls s 1 = Some (7, True)" by code_simp
  then obtain s where s: "run_phases (butlast formatting_program) phases_start = Inr s" "ph_calls s 1 = Some (7, True)"
    by (cases "run_phases (butlast formatting_program) phases_start") simp_all
  then show ?thesis using formatting_races [OF s] by blast
qed

end
