(* ===== verification/Reentrant.thy ===== *)
theory Reentrant
  imports Tokens
begin

text \<open>
  Re-entrancy gates: \<^verbatim>\<open>src/reentrant/\<close>. Both gates are one \<open>!Sync\<close> flag and the guard \<open>Reset\<close>
  that arms and clears it; a gate is a record that both cells extend, so \<open>Reset\<close> is written once.
  The closure given to \<open>enter\<close> is any action on the whole cell: it may enter again, panic, or catch
  a panic. Two ghost fields record what the flag is there for: how many closures hold the
  exclusive borrow now, and whether two ever held it at the same time.
\<close>

section \<open>The flag and its guard: \<^verbatim>\<open>reset.rs\<close>\<close>

datatype reentered = Reentered

record gate =
  g_active :: bool
  g_running :: nat
  g_overlap :: bool

type_synonym ('s, 'r) action = "'s \<Rightarrow> 'r outcome \<times> 's"

definition reset_acquire :: "'x gate_scheme \<Rightarrow> reentered + 'x gate_scheme" where
  "reset_acquire s = (if g_active s then Inl Reentered else Inr (s\<lparr>g_active := True\<rparr>))"

definition reset_drop :: "'x gate_scheme \<Rightarrow> 'x gate_scheme" where
  "reset_drop s = s\<lparr>g_active := False\<rparr>"

text \<open>Ghost bookkeeping: the closure holds its exclusive borrow from the call to its end, by return
  or by unwinding.\<close>

definition hold :: "('x gate_scheme, 'r) action \<Rightarrow> ('x gate_scheme, 'r) action" where
  "hold f s =
     (let (r, s') = f (s\<lparr>g_running := Suc (g_running s), g_overlap := g_overlap s \<or> g_running s \<noteq> 0\<rparr>)
      in (r, s'\<lparr>g_running := g_running s' - 1\<rparr>))"

section \<open>\<open>GuardedCell\<close>: \<^verbatim>\<open>guarded.rs\<close>\<close>

record 'v guarded_cell = gate +
  gc_value :: 'v

definition guarded_new :: "'v \<Rightarrow> 'v guarded_cell" where
  "guarded_new v = \<lparr>g_active = False, g_running = 0, g_overlap = False, gc_value = v\<rparr>"

definition guarded_into_inner :: "'v guarded_cell \<Rightarrow> 'v" where
  "guarded_into_inner s = gc_value s"

definition guarded_is_active :: "'v guarded_cell \<Rightarrow> bool" where
  "guarded_is_active s = g_active s"

definition guarded_enter ::
    "('v guarded_cell, 'r) action \<Rightarrow> ('v guarded_cell, reentered + 'r) action" where
  "guarded_enter f s =
     (case reset_acquire s of
        Inl e \<Rightarrow> (Done (Inl e), s)
      | Inr s \<Rightarrow> (let (r, s) = hold f s in (map_done Inr r, reset_drop s)))"

definition enter_unguarded ::
    "('v guarded_cell, 'r) action \<Rightarrow> ('v guarded_cell, reentered + 'r) action" where
  "enter_unguarded f s =
     (if g_active s then (Done (Inl Reentered), s)
      else let (r, s) = hold f s in (map_done Inr r, s))"

definition guarded_get_mut :: "('v \<Rightarrow> 'r \<times> 'v) \<Rightarrow> 'v guarded_cell \<Rightarrow> 'r \<times> 'v guarded_cell" where
  "guarded_get_mut f s = (let (r, v) = f (gc_value s) in (r, s\<lparr>gc_value := v\<rparr>))"

section \<open>\<open>ReentrancyCell\<close>: \<^verbatim>\<open>gate.rs\<close>\<close>

text \<open>The gate and the token machine of the thread that owns it.\<close>

record gated_world = gate +
  gw_world :: world

definition gate_new :: "world \<Rightarrow> gated_world" where
  "gate_new w = \<lparr>g_active = False, g_running = 0, g_overlap = False, gw_world = w\<rparr>"

definition gate_is_active :: "gated_world \<Rightarrow> bool" where
  "gate_is_active s = g_active s"

definition minting :: "thread \<Rightarrow> (brand \<Rightarrow> (gated_world, 'r) action) \<Rightarrow> (gated_world, 'r) action" where
  "minting t f s =
     with_fresh_token ExclusiveFamily t (\<lambda>token w. f token (s\<lparr>gw_world := w\<rparr>)) (gw_world s)"

definition gate_enter ::
    "thread \<Rightarrow> (brand \<Rightarrow> (gated_world, 'r) action) \<Rightarrow> (gated_world, reentered + 'r) action" where
  "gate_enter t f s =
     (case reset_acquire s of
        Inl e \<Rightarrow> (Done (Inl e), s)
      | Inr s \<Rightarrow> (let (r, s) = hold (minting t f) s in (map_done Inr r, reset_drop s)))"

section \<open>What both gates promise\<close>

definition gate_ok :: "'x gate_scheme \<Rightarrow> bool" where
  "gate_ok s \<longleftrightarrow> g_running s = of_bool (g_active s) \<and> \<not> g_overlap s"

definition keeps_gate :: "('x gate_scheme, 'r) action \<Rightarrow> bool" where
  "keeps_gate f \<longleftrightarrow>
     (\<forall>s. gate_ok s \<longrightarrow> gate_ok (snd (f s)) \<and> g_active (snd (f s)) = g_active s)"

locale reentrancy_gate =
  fixes enter :: "'f \<Rightarrow> ('x gate_scheme, reentered + 'r) action"
    and body :: "'f \<Rightarrow> ('x gate_scheme, 'r) action"
  assumes refuses: "g_active s \<Longrightarrow> enter f s = (Done (Inl Reentered), s)"
    and admits: "\<not> g_active s \<Longrightarrow>
      enter f s = (map_done Inr (fst (hold (body f) (s\<lparr>g_active := True\<rparr>))),
                   (snd (hold (body f) (s\<lparr>g_active := True\<rparr>)))\<lparr>g_active := False\<rparr>)"
begin

lemma enter_keeps: "keeps_gate (body f) \<Longrightarrow> keeps_gate (enter f)"
  unfolding keeps_gate_def
proof (intro allI impI)
  fix s :: "'x gate_scheme"
  assume f: "\<forall>s. gate_ok s \<longrightarrow> gate_ok (snd (body f s)) \<and> g_active (snd (body f s)) = g_active s"
    and s: "gate_ok s"
  show "gate_ok (snd (enter f s)) \<and> g_active (snd (enter f s)) = g_active s"
  proof (cases "g_active s")
    case True
    with s show ?thesis by (simp add: refuses)
  next
    case False
    let ?s = "s\<lparr>g_active := True, g_running := Suc 0, g_overlap := False\<rparr>"
    have "gate_ok ?s" by (simp add: gate_ok_def)
    with f have "gate_ok (snd (body f ?s))" "g_active (snd (body f ?s))" by auto
    with False s show ?thesis
      by (simp add: admits hold_def gate_ok_def split_def Let_def)
  qed
qed

lemma enter_clears: "g_active (snd (enter f s)) \<Longrightarrow> g_active s"
  by (cases "g_active s") (simp_all add: admits)

end

interpretation guarded: reentrancy_gate guarded_enter "\<lambda>f. f"
  by unfold_locales
    (simp_all add: guarded_enter_def reset_acquire_def reset_drop_def split_def Let_def)

interpretation brand_gate: reentrancy_gate "gate_enter t" "minting t" for t
  by unfold_locales
    (simp_all add: gate_enter_def reset_acquire_def reset_drop_def split_def Let_def)

section \<open>Programs over a guarded cell\<close>

text \<open>
  What a thread can do with a shared reference to the cell and the borrow it may hold: look at and
  change the value, enter (again) and go on with the result, panic, or catch a panic.
\<close>

datatype ('v, 'r) client =
    Return 'r
  | Unwind payload
  | Touch "'v \<Rightarrow> 'v" "('v, 'r) client"
  | Look "'v \<Rightarrow> ('v, 'r) client"
  | EnterCell "('v, 'r) client" "reentered + 'r \<Rightarrow> ('v, 'r) client"
  | Catch "('v, 'r) client" "'r outcome \<Rightarrow> ('v, 'r) client"

primrec run_client :: "('v, 'r) client \<Rightarrow> ('v guarded_cell, 'r) action" where
  "run_client (Return x) = (\<lambda>s. (Done x, s))"
| "run_client (Unwind p) = (\<lambda>s. (Panicked p, s))"
| "run_client (Touch g c) = (\<lambda>s. run_client c (s\<lparr>gc_value := g (gc_value s)\<rparr>))"
| "run_client (Look k) = (\<lambda>s. run_client (k (gc_value s)) s)"
| "run_client (EnterCell b k) = (\<lambda>s.
     let (r, s) = guarded_enter (run_client b) s in
     case r of Done x \<Rightarrow> run_client (k x) s | Panicked p \<Rightarrow> (Panicked p, s))"
| "run_client (Catch b k) = (\<lambda>s. let (r, s) = run_client b s in run_client (k r) s)"

lemma gate_ok_value [simp]: "gate_ok (s\<lparr>gc_value := v\<rparr>) = gate_ok s"
  by (simp add: gate_ok_def)

lemma keeps_gateD:
  assumes "keeps_gate f" "gate_ok s"
  shows "gate_ok (snd (f s))" "g_active (snd (f s)) = g_active s"
  using assms by (auto simp: keeps_gate_def)

lemma run_client_keeps: "keeps_gate (run_client p)"
proof (induction p)
  case (Touch g c)
  then show ?case by (simp add: keeps_gate_def)
next
  case (Look k)
  then show ?case by (simp add: keeps_gate_def)
next
  case (EnterCell b k)
  note b = guarded.enter_keeps [OF EnterCell.IH(1)]
  show ?case
    unfolding keeps_gate_def
  proof (intro allI impI)
    fix s :: "'a guarded_cell"
    assume "gate_ok s"
    note s = keeps_gateD [OF b this]
    note k = keeps_gateD [OF EnterCell.IH(2) s(1)]
    from s k show "gate_ok (snd (run_client (EnterCell b k) s))
        \<and> g_active (snd (run_client (EnterCell b k) s)) = g_active s"
      by (cases "fst (guarded_enter (run_client b) s)") (simp_all add: split_def Let_def)
  qed
next
  case (Catch b k)
  show ?case
    unfolding keeps_gate_def
  proof (intro allI impI)
    fix s :: "'a guarded_cell"
    assume "gate_ok s"
    note s = keeps_gateD [OF Catch.IH(1) this]
    note k = keeps_gateD [OF Catch.IH(2) s(1)]
    from s k show "gate_ok (snd (run_client (Catch b k) s))
        \<and> g_active (snd (run_client (Catch b k) s)) = g_active s"
      by (simp add: split_def Let_def)
  qed
qed (simp_all add: keeps_gate_def)

lemma g_armed_order:
  "s\<lparr>g_active := a, g_running := n, g_overlap := q\<rparr> = s\<lparr>g_running := n, g_overlap := q, g_active := a\<rparr>"
  by (cases s) simp

lemma g_idle: "\<not> g_active s \<Longrightarrow> s\<lparr>g_running := n, g_active := False\<rparr> = s\<lparr>g_running := n\<rparr>"
  by (cases s) simp

section \<open>Properties\<close>

text \<open>C9. A guarded cell never hands out its value twice. Whatever a program does with the cell
  (nested entries, panics, caught panics, in any order), no two closures ever hold the exclusive
  borrow at once, and when it ends, by returning or by unwinding, the flag is clear again: the next
  \<open>enter\<close> runs its closure on the value that was left.\<close>

lemma guarded_cell_never_aliases:
  "let s = snd (run_client p (guarded_new v)) in
     \<not> g_overlap s \<and> g_running s = 0 \<and> \<not> guarded_is_active s
     \<and> fst (guarded_enter (\<lambda>s. (Done (gc_value s), s)) s) = Done (Inr (guarded_into_inner s))"
proof -
  have "gate_ok (guarded_new v)" by (simp add: gate_ok_def guarded_new_def)
  note s = keeps_gateD [OF run_client_keeps this, of p]
  from s have "\<not> g_active (snd (run_client p (guarded_new v)))" by (simp add: guarded_new_def)
  with s(1) show ?thesis
    by (simp add: Let_def gate_ok_def guarded_is_active_def guarded_into_inner_def
        guarded.admits hold_def)
qed

text \<open>\<open>GuardedCell::enter\<close> on every branch. On an idle cell the closure runs on the value with
  the flag set; its result or its panic is passed on, what it wrote stays, and the flag is clear
  afterwards. On an active cell nothing runs and nothing changes, so a nested \<open>enter\<close> of a running
  closure gets \<open>Reentered\<close> and the outer one goes on.\<close>

lemma guarded_enter_branches:
  "guarded_enter (\<lambda>s. (r (gc_value s), s\<lparr>gc_value := g (gc_value s)\<rparr>)) (guarded_new v)
     = (map_done Inr (r v), guarded_new (g v))
   \<and> guarded_enter f (s\<lparr>g_active := True\<rparr>) = (Done (Inl Reentered), s\<lparr>g_active := True\<rparr>)
   \<and> guarded_enter (\<lambda>s. guarded_enter f (s\<lparr>gc_value := g (gc_value s)\<rparr>)) (guarded_new v)
     = (Done (Inr (Inl Reentered)), guarded_new (g v))"
  by (simp add: guarded.admits guarded.refuses guarded_new_def hold_def)

text \<open>\<open>enter_unguarded\<close> is \<open>enter\<close> without the two flag writes. For a closure that keeps its
  contract (the flag is nothing to it: it neither reads nor writes it, as any nested entry would)
  both have the same result and leave the same cell, on an idle cell as on an active one. The
  contract is needed: a closure that enters inside it gets a second exclusive borrow.\<close>

lemma enter_unguarded_agrees:
  fixes f :: "('v guarded_cell, 'r) action"
  assumes "\<And>s b. f (s\<lparr>g_active := b\<rparr>) = (fst (f s), (snd (f s))\<lparr>g_active := b\<rparr>)"
  shows "enter_unguarded f s = guarded_enter f s
    \<and> g_overlap (snd (enter_unguarded (\<lambda>s. guarded_enter (\<lambda>s. (Done (gc_value s), s)) s) (guarded_new v)))"
proof
  show "enter_unguarded f s = guarded_enter f s"
  proof (cases "g_active s")
    case True
    then show ?thesis by (simp add: enter_unguarded_def guarded.refuses)
  next
    case False
    let ?s = "s\<lparr>g_running := Suc (g_running s), g_overlap := g_overlap s \<or> g_running s \<noteq> 0\<rparr>"
    from False have "?s\<lparr>g_active := False\<rparr> = ?s" by (cases s) simp
    with assms [of False ?s] have "f ?s = (fst (f ?s), (snd (f ?s))\<lparr>g_active := False\<rparr>)"
      by (simp only:)
    from arg_cong [OF this, of "\<lambda>x. g_active (snd x)"]
    have idle: "\<not> g_active (snd (f ?s))" by simp
    have "f (s\<lparr>g_active := True, g_running := Suc (g_running s), g_overlap := g_overlap s \<or> g_running s \<noteq> 0\<rparr>)
        = (fst (f ?s), (snd (f ?s))\<lparr>g_active := True\<rparr>)"
      using assms [of True ?s] by (simp only: g_armed_order)
    with False idle show ?thesis
      by (simp add: enter_unguarded_def guarded.admits hold_def split_def Let_def g_idle)
  qed
  show "g_overlap (snd (enter_unguarded (\<lambda>s. guarded_enter (\<lambda>s. (Done (gc_value s), s)) s) (guarded_new v)))"
    by (simp add: enter_unguarded_def guarded.admits hold_def guarded_new_def)
qed

lemma enter_unguarded_agrees_witness:
  "enter_unguarded (\<lambda>s. (Done (gc_value s), s\<lparr>gc_value := gc_value s + 1\<rparr>)) (guarded_new (41 :: int))
     = guarded_enter (\<lambda>s. (Done (gc_value s), s\<lparr>gc_value := gc_value s + 1\<rparr>)) (guarded_new 41)"
  by (rule conjunct1 [OF enter_unguarded_agrees]) simp

text \<open>C40. \<open>ReentrancyCell::enter\<close> mints a new brand each time it admits a closure. In every
  reachable state of the token machine the brand it hands out has no other token, no permit and
  no cell, its token is an exclusive one of the calling thread, and an entry nested in the
  closure is refused; the flag is clear afterwards, also when the closure panics.\<close>

lemma gate_enter_is_fresh:
  assumes "reachable w"
  shows "\<exists>b w'. (\<forall>f. gate_enter t f (gate_new w)
          = (let (r, s) = f b \<lparr>g_active = True, g_running = 1, g_overlap = False, gw_world = w'\<rparr>
             in (map_done Inr r, s\<lparr>g_running := g_running s - 1, g_active := False\<rparr>)))
        \<and> w_owners w b = None \<and> permits_of b w = [] \<and> (\<forall>c. w_cells w c \<noteq> Some b)
        \<and> w_owners w' = (w_owners w)(b \<mapsto> \<lparr>ow_family = ExclusiveFamily, ow_thread = t\<rparr>)
        \<and> gate_enter t (\<lambda>b. gate_enter t h) (gate_new w)
            = (Done (Inr (Inl Reentered)), gate_new w')"
proof -
  let ?b = "w_brand w"
  let ?w = "w\<lparr>w_brand := Suc ?b,
      w_owners := (w_owners w)(?b \<mapsto> \<lparr>ow_family = ExclusiveFamily, ow_thread = t\<rparr>)\<rparr>"
  let ?s = "\<lparr>g_active = True, g_running = 1, g_overlap = False, gw_world = ?w\<rparr>"
  note inv = reachable_inv [OF assms]
  have enter: "gate_enter t f (gate_new w)
      = (let (r, s) = f ?b ?s in (map_done Inr r, s\<lparr>g_running := g_running s - 1, g_active := False\<rparr>))" for f
    by (simp add: brand_gate.admits gate_new_def hold_def minting_def with_fresh_token_def
        with_fresh_brand_def mint_def split_def Let_def)
  have "w_owners w ?b = None" by (rule brand_unused(1) [OF inv order_refl])
  moreover have "permits_of ?b w = []"
    using brand_unused(2) [OF inv order_refl] permits_of_mem [OF token_invD(1) [OF inv]]
    by (metis equals0D set_empty all_not_in_conv)
  moreover have "w_cells w c \<noteq> Some ?b" for c
    using brand_unused(1) [OF inv order_refl] token_invD(3) [OF inv] unfolding brand_inv_def by blast
  moreover have "gate_enter t (\<lambda>b. gate_enter t h) (gate_new w) = (Done (Inr (Inl Reentered)), gate_new ?w)"
    unfolding enter by (simp add: brand_gate.refuses gate_new_def)
  ultimately show ?thesis
    using enter by (intro exI [of _ ?b] exI [of _ ?w] conjI allI) simp_all
qed

lemma gate_enter_is_fresh_witness:
  "reachable one_writer
   \<and> (\<exists>s. gate_enter 0 (\<lambda>b. gate_enter 0 (\<lambda>b s. (Done b, s))) (gate_new one_writer)
        = (Done (Inr (Inl Reentered)), s))"
proof -
  have r: "reachable one_writer" by (rule run_ops_reachable [OF start one_writer_run])
  show ?thesis using gate_enter_is_fresh [OF r, of 0 "\<lambda>b s. (Done b, s)"] r by blast
qed

end
