(* ===== verification/Examples.thy ===== *)
theory Examples
  imports Cells Atomics Reentrant
begin

text \<open>
  The programs under \<^verbatim>\<open>examples/\<close>: the probes of \<^verbatim>\<open>codegen.rs\<close>, which pair a branded access
  with the raw access it has to compile to, and the two programs of the book. Printing is left out;
  \<open>u64\<close> is a word and its \<open>sum()\<close> and \<open>+=\<close> wrap, as in the release build the probes are meant for.
\<close>

type_synonym u64 = "64 word"

section \<open>The probes: \<^verbatim>\<open>codegen.rs\<close>\<close>

definition melinoe_write :: "melinoe_cell \<Rightarrow> u64 \<Rightarrow> u64 list \<Rightarrow> u64 list" where
  "melinoe_write cell v mem = mut_assign (cell_borrow_mut cell) v mem"

text \<open>\<open>*p.get() = v\<close> for an \<open>UnsafeCell\<close> at address \<open>p\<close>.\<close>

definition raw_write :: "nat \<Rightarrow> u64 \<Rightarrow> u64 list \<Rightarrow> u64 list" where
  "raw_write p v mem = pl_put (unsafe_cell_get p) v mem"

definition melinoe_read :: "melinoe_cell \<Rightarrow> u64 list \<Rightarrow> u64" where
  "melinoe_read cell mem = ref_deref (cell_borrow cell) mem"

definition melinoe_slice_sum :: "slice_ref \<Rightarrow> u64 list \<Rightarrow> u64" where
  "melinoe_slice_sum cells mem = sum_list (borrow_slice cells mem)"

definition raw_slice_sum :: "u64 list \<Rightarrow> u64" where
  "raw_slice_sum s = sum_list s"

definition melinoe_cow_borrow_sum :: "slice_ref \<Rightarrow> u64 list \<Rightarrow> u64" where
  "melinoe_cow_borrow_sum cells mem = sum_list (cow_elements (borrow_cow (\<lambda>x. x) cells mem))"

definition branded_atomic_plain_store :: "u64 \<Rightarrow> u64 \<Rightarrow> (unit \<times> u64) option" where
  "branded_atomic_plain_store v a = store_exclusive v OwnerMut a"

definition branded_atomic_fetch_add :: "u64 \<Rightarrow> u64 \<Rightarrow> (u64 outcome \<times> u64) option" where
  "branded_atomic_fetch_add v a = branded_fetch_add v SharedRead OrdRelaxed a"

definition branded_atomic_fetch_add_relaxed :: "u64 \<Rightarrow> u64 \<Rightarrow> (u64 outcome \<times> u64) option" where
  "branded_atomic_fetch_add_relaxed v a = branded_fetch_add_with v SharedRead Relaxed a"

definition branded_atomic_interop_fetch_add :: "u64 \<Rightarrow> u64 \<Rightarrow> (u64 outcome \<times> u64) option" where
  "branded_atomic_interop_fetch_add v a = map_option (atomic_fetch_add v OrdRelaxed) (as_atomic SharedRead a)"

definition raw_atomic_fetch_add :: "u64 \<Rightarrow> u64 \<Rightarrow> u64 outcome \<times> u64" where
  "raw_atomic_fetch_add v a = atomic_fetch_add v OrdRelaxed a"

definition probe_guarded_get_mut :: "u64 guarded_cell \<Rightarrow> u64 \<times> u64 guarded_cell" where
  "probe_guarded_get_mut cell = guarded_get_mut (\<lambda>v. let v = v + 1 in (v, v)) cell"

section \<open>The book: \<^verbatim>\<open>book_branded_cell.rs\<close>\<close>

text \<open>Each scope twice: what it computes, and what it borrows. \<open>access_mut b c k\<close> is \<open>cell.borrow_mut(&mut
  token)\<close> for one statement, the permit and the view having the next identities \<open>k\<close> and \<open>k + 1\<close>.
  A compound assignment of integers evaluates its right-hand side first.\<close>

definition access_mut :: "brand \<Rightarrow> cell_id \<Rightarrow> nat \<Rightarrow> op list" where
  "access_mut b c k = [BorrowMut b 0, BorrowMutCells [c] k, DropView (k + 1), DropPermit k]"

definition counter_scope :: "u64 \<times> u64" where
  "counter_scope =
     (let (counter, mem) = cell_new 0 [];
          (st, mem) = cell_new 7 mem;
          mem = mut_assign (cell_borrow_mut counter)
                  (mut_deref (cell_borrow_mut counter) mem + mut_deref (cell_borrow_mut st) mem) mem;
          mem = mut_assign (cell_borrow_mut counter)
                  (mut_deref (cell_borrow_mut counter) mem + mut_deref (cell_borrow_mut st) mem) mem
      in (ref_deref (cell_borrow counter) mem, ref_deref (cell_borrow st) mem))"

definition counter_borrows :: "op list" where
  "counter_borrows =
     [OpenScope ExclusiveFamily 0, NewCell 0 0, NewCell 1 0]
     @ access_mut 0 1 0 @ access_mut 0 0 2 @ access_mut 0 1 4 @ access_mut 0 0 6
     @ [Share 0 0, CopyPermit 8, Borrow [0] 8, Borrow [1] 9, DropView 10, DropView 11, DropPermit 8, DropPermit 9,
        CloseScope 0]"

definition pair_scope :: "32 word \<times> 32 word" where
  "pair_scope =
     (let (pair, mem) = cell_new (0, 0) [];
          (left, right) = mut_map_split (cell_borrow_mut pair) (\<lambda>t. (place_comp fst_place t, place_comp snd_place t));
          mem = mut_assign left 42 mem;
          mem = mut_assign right 99 mem
      in ref_deref (cell_borrow pair) mem)"

definition pair_borrows :: "op list" where
  "pair_borrows =
     [OpenScope ExclusiveFamily 0, NewCell 0 0] @ access_mut 0 0 0
     @ [Share 0 0, Borrow [0] 2, DropView 3, DropPermit 2, CloseScope 0]"

definition nested_scopes :: "32 word \<times> 32 word" where
  "nested_scopes =
     (let (a, mem) = cell_new 100 [];
          (b, mem) = cell_new 200 mem;
          mem = mut_assign (cell_borrow_mut a) (mut_deref (cell_borrow_mut a) mem + 1) mem;
          mem = mut_assign (cell_borrow_mut b) (mut_deref (cell_borrow_mut b) mem + 1) mem
      in (ref_deref (cell_borrow a) mem, ref_deref (cell_borrow b) mem))"

definition nested_borrows :: "op list" where
  "nested_borrows =
     [OpenScope ExclusiveFamily 0, OpenScope ExclusiveFamily 0, NewCell 0 0, NewCell 1 1]
     @ access_mut 0 0 0 @ access_mut 1 1 2
     @ [Share 0 0, Share 1 0, Borrow [0] 4, Borrow [1] 5, DropView 6, DropView 7, DropPermit 4, DropPermit 5,
        CloseScope 1, CloseScope 0]"

section \<open>The book: \<^verbatim>\<open>book_conditional_atomics.rs\<close>\<close>

text \<open>The value after each of the observed operations; \<open>None\<close> where a permit would not do.\<close>

definition plain_store_scope :: "u64 outcome option" where
  "plain_store_scope =
     Option.bind (store_exclusive 42 OwnerMut (branded_new 0)) (\<lambda>(_, counter).
     map_option fst (branded_load_with SharedRead Relaxed counter))"

definition fetch_add_scope :: "u64 outcome list option" where
  "fetch_add_scope =
     Option.bind (store_exclusive 100 OwnerMut (branded_new 100)) (\<lambda>(_, counter).
     Option.bind (branded_fetch_add_with 5 SharedRead Relaxed counter) (\<lambda>(prev, counter).
     Option.bind (branded_load_with SharedRead Relaxed counter) (\<lambda>(now1, counter).
     Option.bind (branded_fetch_add_with 10 SharedRead AcqRel counter) (\<lambda>(prev2, counter).
     map_option (\<lambda>(now2, _). [prev, now1, prev2, now2]) (branded_load_with SharedRead Relaxed counter)))))"

definition counter_increment_interop :: "u64 \<Rightarrow> u64 \<Rightarrow> (u64 outcome \<times> u64) option" where
  "counter_increment_interop delta a = map_option (atomic_fetch_add delta OrdRelaxed) (as_atomic SharedRead a)"

definition interop_scope :: "u64 outcome option" where
  "interop_scope =
     Option.bind (counter_increment_interop 7 (branded_new 0)) (\<lambda>(_, a).
     map_option fst (branded_load_with SharedRead Relaxed a))"

text \<open>What the first two scopes borrow: \<open>&mut token\<close> for a statement, then a shared read token that is
  copied. An atomic has no views: its methods use the permit and return. (The third lends its
  \<open>&mut token\<close> to the callee, which shares it again; reborrows of a live permit are not operations
  of the token machine.)\<close>

definition atomic_scope_borrows :: "op list" where
  "atomic_scope_borrows =
     [OpenScope ExclusiveFamily 0, BorrowMut 0 0, DropPermit 0, Share 0 0, CopyPermit 1, DropPermit 2, DropPermit 1,
      CloseScope 0]"

section \<open>Properties\<close>

text \<open>Every branded probe is its raw counterpart: a branded write and read are the plain store and
  load of the word at the cell's address, a slice view and a borrowed \<open>Cow\<close> sum what the plain slice
  sums, the exclusive phase of a branded atomic stores without reading, all three shared
  forms of \<open>fetch_add\<close> are the raw one, and \<open>get_mut\<close> on a guarded cell leaves its flag alone.\<close>

theorem probes_match_raw:
  "melinoe_write cell v mem = raw_write (mc_value cell) v mem
   \<and> melinoe_read cell mem = mem ! mc_value cell
   \<and> melinoe_slice_sum cells mem = raw_slice_sum (slice_read cells mem)
   \<and> melinoe_cow_borrow_sum cells mem = raw_slice_sum (slice_read cells mem)
   \<and> branded_atomic_plain_store v a = Some ((), v)
   \<and> branded_atomic_fetch_add v a = Some (raw_atomic_fetch_add v a)
   \<and> branded_atomic_fetch_add_relaxed v a = Some (raw_atomic_fetch_add v a)
   \<and> branded_atomic_interop_fetch_add v a = Some (raw_atomic_fetch_add v a)
   \<and> probe_guarded_get_mut g = (gc_value g + 1, g\<lparr>gc_value := gc_value g + 1\<rparr>)"
  by (simp add: melinoe_write_def raw_write_def melinoe_read_def melinoe_slice_sum_def raw_slice_sum_def
      melinoe_cow_borrow_sum_def branded_atomic_plain_store_def branded_atomic_fetch_add_def
      branded_atomic_fetch_add_relaxed_def branded_atomic_interop_fetch_add_def raw_atomic_fetch_add_def
      probe_guarded_get_mut_def guarded_get_mut_def guard_defs cell_borrow_def cell_borrow_mut_def
      unsafe_cell_get_def borrow_slice_def slice_as_unsafe_cell_def slice_read_def borrow_cow_def cow_defs
      exclusive_defs integer_defs pair_defs as_atomic_def Let_def)

definition accepted :: "op list \<Rightarrow> bool" where
  "accepted ops \<longleftrightarrow> (case run_ops ops empty_world of Inl _ \<Rightarrow> False | Inr _ \<Rightarrow> True)"

lemma book_borrows: "accepted counter_borrows" "accepted pair_borrows" "accepted nested_borrows" "accepted atomic_scope_borrows"
  by code_simp+

text \<open>The book's programs: every statement of their scopes is accepted by the compiler's rules, each
  scope can be left, and the assertions they make about the values hold.\<close>

theorem book_assertions:
  "counter_scope = (14, 7) \<and> pair_scope = (42, 99) \<and> nested_scopes = (101, 201)
   \<and> plain_store_scope = Some (Done 42)
   \<and> fetch_add_scope = Some [Done 100, Done 105, Done 105, Done 115]
   \<and> interop_scope = Some (Done 7)
   \<and> accepted counter_borrows \<and> accepted pair_borrows \<and> accepted nested_borrows \<and> accepted atomic_scope_borrows"
proof -
  have "counter_scope = (14, 7)" "pair_scope = (42, 99)" "nested_scopes = (101, 201)"
    by (simp_all add: counter_scope_def pair_scope_def nested_scopes_def cell_new_def guard_defs cell_borrow_def
        cell_borrow_mut_def unsafe_cell_get_def place_comp_def fst_place_def snd_place_def)
  moreover have "plain_store_scope = Some (Done 42)" "fetch_add_scope = Some [Done 100, Done 105, Done 105, Done 115]"
    "interop_scope = Some (Done 7)"
    by (simp_all add: plain_store_scope_def fetch_add_scope_def interop_scope_def counter_increment_interop_def
        branded_new_def new_atomic_def exclusive_defs integer_defs method_defs pair_defs policy.load_body as_atomic_def)
  ultimately show ?thesis using book_borrows by simp
qed

end
