(* ===== verification/ThreadCached.thy ===== *)
theory ThreadCached
  imports Tokens
begin

text \<open>
  Per-thread caches: the module \<open>thread_cached!\<close> expands to, \<^verbatim>\<open>src/thread_cached.rs\<close>. The
  thread-local static is a function of the thread; the nightly and the stable storage hold the same
  \<open>Cell<Option<T>>\<close> and their accessors have one body. The initialiser is an action of its own: it
  may use the cache before it returns, and it may panic.
\<close>

section \<open>Storage and accessors\<close>

type_synonym 'v cache = "thread \<Rightarrow> 'v option"

definition VALUE :: "'v cache" where
  "VALUE = (\<lambda>_. None)"

definition get_or_init ::
    "thread \<Rightarrow> ('v cache \<Rightarrow> 'v outcome \<times> 'v cache) \<Rightarrow> 'v cache \<Rightarrow> 'v outcome \<times> 'v cache" where
  "get_or_init t init s =
     (case s t of
        Some value \<Rightarrow> (Done value, s)
      | None \<Rightarrow>
          (let (r, s) = init s in
           case r of
             Panicked p \<Rightarrow> (Panicked p, s)
           | Done value \<Rightarrow> (Done value, s(t \<mapsto> value))))"

definition cache_set :: "thread \<Rightarrow> 'v \<Rightarrow> 'v cache \<Rightarrow> 'v cache" where
  "cache_set t value s = s(t \<mapsto> value)"

definition cache_get :: "thread \<Rightarrow> 'v cache \<Rightarrow> 'v option" where
  "cache_get t s = s t"

definition cache_clear :: "thread \<Rightarrow> 'v cache \<Rightarrow> 'v cache" where
  "cache_clear t s = s(t := None)"

lemmas cache_defs = get_or_init_def cache_set_def cache_get_def cache_clear_def

section \<open>Threads using one cache\<close>

text \<open>
  A call of an accessor on a thread, and what it returned. An initialiser is its own list
  of calls, made on the same thread, followed by its value or its panic.
\<close>

datatype 'v call =
    GetOrInit "'v call list" "'v outcome"
  | SetTo 'v
  | Get
  | Clear

datatype 'v answer = Value "'v outcome" | Cached "'v option" | Unit

text \<open>A panic of an initialiser is caught by the caller: the thread goes on with its next call.\<close>

fun do_call :: "thread \<Rightarrow> 'v call \<Rightarrow> 'v cache \<Rightarrow> 'v answer \<times> 'v cache"
  and do_calls :: "thread \<Rightarrow> 'v call list \<Rightarrow> 'v cache \<Rightarrow> 'v cache" where
  "do_call t (GetOrInit cs r) s =
     (let (r', s') = get_or_init t (\<lambda>s. (r, do_calls t cs s)) s in (Value r', s'))"
| "do_call t (SetTo v) s = (Unit, cache_set t v s)"
| "do_call t Get s = (Cached (cache_get t s), s)"
| "do_call t Clear s = (Unit, cache_clear t s)"
| "do_calls t [] s = s"
| "do_calls t (c # cs) s = do_calls t cs (snd (do_call t c s))"

fun run_calls :: "(thread \<times> 'v call) list \<Rightarrow> 'v cache \<Rightarrow> (thread \<times> 'v answer) list \<times> 'v cache" where
  "run_calls [] s = ([], s)"
| "run_calls ((t, c) # cs) s =
     (let (a, s) = do_call t c s; (as, s) = run_calls cs s in ((t, a) # as, s))"

text \<open>A call reads and writes the slot of its own thread only.\<close>

lemma call_local:
  "t' \<noteq> t \<longrightarrow> snd (do_call t c s) t' = s t'"
  "t' \<noteq> t \<longrightarrow> do_calls t cs s t' = s t'"
  by (induction t c s and t cs s rule: do_call_do_calls.induct)
    (auto simp: cache_defs split_def Let_def split: option.splits outcome.splits)

lemma call_own:
  "s t = s' t \<longrightarrow> fst (do_call t c s) = fst (do_call t c s') \<and> snd (do_call t c s) t = snd (do_call t c s') t"
  "s t = s' t \<longrightarrow> do_calls t cs s t = do_calls t cs s' t"
proof (induction t c s and t cs s arbitrary: s' and s' rule: do_call_do_calls.induct)
  case (1 t cs r s)
  show ?case
  proof
    assume eq: "s t = s' t"
    then have "do_calls t cs s t = do_calls t cs s' t" using 1 by blast
    then show "fst (do_call t (GetOrInit cs r) s) = fst (do_call t (GetOrInit cs r) s')
        \<and> snd (do_call t (GetOrInit cs r) s) t = snd (do_call t (GetOrInit cs r) s') t"
      using eq by (cases "s' t"; cases r) (simp_all add: cache_defs)
  qed
next
  case (6 t c cs s)
  show ?case
  proof
    assume "s t = s' t"
    with 6(1) have "snd (do_call t c s) t = snd (do_call t c s') t" by blast
    with 6(2) have "do_calls t cs (snd (do_call t c s)) t = do_calls t cs (snd (do_call t c s')) t" by blast
    then show "do_calls t (c # cs) s t = do_calls t (c # cs) s' t" by (simp only: do_calls.simps)
  qed
qed (simp_all add: cache_defs)

definition on_thread :: "thread \<Rightarrow> (thread \<times> 'x) list \<Rightarrow> (thread \<times> 'x) list" where
  "on_thread t xs = filter (\<lambda>x. fst x = t) xs"

lemma run_calls_projects:
  "s t = s' t \<Longrightarrow>
     on_thread t (fst (run_calls cs s)) = fst (run_calls (on_thread t cs) s')
     \<and> snd (run_calls cs s) t = snd (run_calls (on_thread t cs) s') t"
proof (induction cs arbitrary: s s')
  case (Cons tc cs)
  obtain t' c where tc: "tc = (t', c)" by (cases tc)
  show ?case
  proof (cases "t' = t")
    case True
    have "snd (do_call t c s) t = snd (do_call t c s') t" "fst (do_call t c s) = fst (do_call t c s')"
      using call_own(1) [of s t s' c] Cons.prems by simp_all
    with True Cons.IH [of "snd (do_call t c s)" "snd (do_call t c s')"] show ?thesis
      by (simp add: tc on_thread_def split_def Let_def)
  next
    case False
    have "snd (do_call t' c s) t = s t" using call_local(1) [of t t' c s] False by auto
    with False Cons.prems Cons.IH [of "snd (do_call t' c s)" s'] show ?thesis
      by (simp add: tc on_thread_def split_def Let_def)
  qed
qed (simp add: on_thread_def)

section \<open>Properties\<close>

text \<open>The cache is per thread. In any interleaving of the calls of any threads, the
  answers a thread gets, and what its slot holds in the end, are those of its own calls run
  alone: no other thread's calls, and no other thread's initialisers, can be observed.\<close>

lemma cache_is_thread_confined:
  "on_thread t (fst (run_calls cs VALUE)) = fst (run_calls (on_thread t cs) VALUE)
   \<and> snd (run_calls cs VALUE) t = snd (run_calls (on_thread t cs) VALUE) t"
  by (rule run_calls_projects) simp

text \<open>Calls that leave the slot of their thread as it is once it holds a value.\<close>

fun keeps_cached :: "'v call \<Rightarrow> bool" where
  "keeps_cached (GetOrInit _ _) = True"
| "keeps_cached Get = True"
| "keeps_cached _ = False"

lemma keeps_cached_run:
  "s t = Some v \<Longrightarrow> list_all (\<lambda>(t', c). t' = t \<longrightarrow> keeps_cached c) cs \<Longrightarrow> snd (run_calls cs s) t = Some v"
proof (induction cs arbitrary: s)
  case (Cons tc cs)
  obtain t' c where tc: "tc = (t', c)" by (cases tc)
  have "snd (do_call t' c s) t = Some v"
  proof (cases "t' = t")
    case True
    with Cons.prems tc show ?thesis by (cases c) (simp_all add: cache_defs split_def)
  next
    case False
    with Cons.prems(1) call_local(1) [of t t' c s] show ?thesis by auto
  qed
  with Cons tc show ?case by (simp add: split_def Let_def)
qed simp

text \<open>C30. \<open>get_or_init\<close> computes once. On an empty slot it runs the initialiser and caches its
  value, whatever the initialiser itself left in the slot; an initialiser that panics leaves what it left.
  From then on, until the thread itself sets or clears the cache, \<open>get\<close> and \<open>get_or_init\<close>
  answer that value without running any initialiser, whatever the other threads do.\<close>

lemma get_or_init_caches:
  assumes "cache_get t s = None" "init s = (r, s1)"
    and "list_all (\<lambda>(t', c). t' = t \<longrightarrow> keeps_cached c) cs"
  shows "get_or_init t init s = (r, case r of Done v \<Rightarrow> cache_set t v s1 | Panicked _ \<Rightarrow> s1)
    \<and> (\<forall>v init'. r = Done v \<longrightarrow>
         (let s2 = snd (run_calls cs (snd (get_or_init t init s))) in
            cache_get t s2 = Some v \<and> get_or_init t init' s2 = (Done v, s2)))"
proof -
  have first: "get_or_init t init s = (r, case r of Done v \<Rightarrow> cache_set t v s1 | Panicked _ \<Rightarrow> s1)"
    using assms(1,2) by (cases r) (simp_all add: cache_defs)
  moreover have "cache_get t s2 = Some v \<and> get_or_init t init' s2 = (Done v, s2)"
    if "r = Done v" "s2 = snd (run_calls cs (snd (get_or_init t init s)))" for v init' s2
    using keeps_cached_run [OF _ assms(3), of "cache_set t v s1" v] that first
    by (simp add: cache_defs)
  ultimately show ?thesis by (simp add: Let_def)
qed

lemma get_or_init_caches_witness:
  "let s2 = snd (run_calls [(1, SetTo 5), (0, GetOrInit [] (Done 9)), (1, Clear)]
                 (snd (get_or_init 0 (\<lambda>s. (Done (7 :: nat), s)) VALUE)))
   in cache_get 0 s2 = Some 7 \<and> get_or_init 0 (\<lambda>s. (Panicked (UserPanic 1), s)) s2 = (Done 7, s2)"
proof -
  have "cache_get 0 (VALUE :: nat cache) = None" by (simp add: VALUE_def cache_get_def)
  moreover have "(\<lambda>s. (Done (7 :: nat), s)) VALUE = (Done 7, VALUE)" by simp
  ultimately show ?thesis
    by (rule get_or_init_caches [THEN conjunct2, rule_format]) simp_all
qed

end
