(* ===== verification/Handoff.thy ===== *)
theory Handoff
  imports Tokens
begin

text \<open>
  \<open>scope_exclusive\<close> of \<^verbatim>\<open>src/sync/scoped/mod.rs\<close>: a branded computation on a freshly
  spawned worker thread, over the token machine. What the operating system answers to the
  spawn, a new thread or a failure that \<open>Scope::spawn\<close> panics with, is an argument.
\<close>

section \<open>The scope\<close>

text \<open>A computation ends with a value or unwinds with a payload; \<open>join\<close> returns either.\<close>

type_synonym ('e, 'r) computation = "world \<Rightarrow> ('e + 'r) \<times> world"

fun resume_or_return :: "'e + 'r \<Rightarrow> 'e + 'r" where
  "resume_or_return (Inr r) = Inr r"
| "resume_or_return (Inl payload) = Inl payload"

definition scope_exclusive :: "'e + thread \<Rightarrow> (brand \<Rightarrow> ('e, 'r) computation) \<Rightarrow> ('e, 'r) computation" where
  "scope_exclusive spawned f w =
     (case spawned of
        Inl e \<Rightarrow> (Inl e, w)
      | Inr worker \<Rightarrow>
          let (joined, w') = with_fresh_token SyncRegionFamily worker f w in (resume_or_return joined, w'))"

section \<open>The worker owns the brand\<close>

text \<open>Only \<open>SendToken\<close> moves an owner, and a closed scope's brand is not opened again.\<close>

definition held_by :: "thread \<Rightarrow> brand \<Rightarrow> world \<Rightarrow> bool" where
  "held_by t b w \<longleftrightarrow> b < w_brand w \<and> (case w_owners w b of None \<Rightarrow> True | Some ow \<Rightarrow> ow_thread ow = t)"

fun sends_token :: "brand \<Rightarrow> op \<Rightarrow> bool" where
  "sends_token b (SendToken b' t) \<longleftrightarrow> b' = b"
| "sends_token b op \<longleftrightarrow> False"

lemma held_by_step:
  assumes "held_by t b w" "token_step op w = Inr w'" "\<not> sends_token b op"
  shows "held_by t b w'"
  using assms
  by (cases op) (auto simp: held_by_def token_eval Let_def add_permit_def add_view_def
      split: option.splits if_splits)

lemma held_by_run:
  "held_by t b w \<Longrightarrow> run_ops ops w = Inr w' \<Longrightarrow> \<not> list_ex (sends_token b) ops \<Longrightarrow> held_by t b w'"
proof (induction ops arbitrary: w)
  case (Cons op ops)
  then obtain w1 where "token_step op w = Inr w1" "run_ops ops w1 = Inr w'" by (auto split: sum.splits)
  then show ?case using Cons held_by_step [of t b w op w1] by auto
qed simp

lemma held_by_excludes: "held_by t b w \<Longrightarrow> t' \<noteq> t \<Longrightarrow> \<exists>e. borrow_token c b t' w = Inl e"
  by (auto simp: held_by_def borrow_token_def split: option.splits)

lemma scope_exclusive_runs:
  obtains w1 where "\<And>f :: brand \<Rightarrow> ('e, 'r) computation. scope_exclusive (Inr worker) f w = f (w_brand w) w1"
    "w_owners w1 = (w_owners w)(w_brand w \<mapsto> \<lparr>ow_family = SyncRegionFamily, ow_thread = worker\<rparr>)"
    "held_by worker (w_brand w) w1" "w1 = with_fresh_token SyncRegionFamily worker (\<lambda>b w. w) w"
proof -
  have id: "resume_or_return x = x" for x :: "'e + 'r" by (cases x) auto
  show thesis
    by (rule that [of "with_fresh_token SyncRegionFamily worker (\<lambda>b w. w) w"])
      (simp_all add: scope_exclusive_def with_fresh_token_def with_fresh_brand_def mint_def Let_def id
        held_by_def)
qed



end
