(* ===== verification/Doctests.thy ===== *)
theory Doctests
  imports Examples PartitionMap ThreadCached Handoff
begin

text \<open>
  The programs in the crate's documentation, which \<open>cargo test\<close> compiles and runs: those of the crate root
  \<^verbatim>\<open>lib.rs\<close> and of the modules. As in \<open>Examples\<close>, a program appears as what it computes and, where its
  point is what may be borrowed, as the operations it asks of the token machine. The partition
  programs are instances of a general fact: a loop over the cells of its shard that knows the shard's start
  cannot tell how the region was cut.
\<close>

section \<open>Loops over a shard\<close>

text \<open>\<open>for (j, slot) in shard.iter_mut().enumerate() { *slot = h(start + j, *slot) }\<close>\<close>

definition enumerate_slots :: "(usize \<Rightarrow> 'a \<Rightarrow> 'a) \<Rightarrow> usize \<Rightarrow> 'a list \<Rightarrow> 'a list" where
  "enumerate_slots h start xs = map (\<lambda>j. h (start + of_nat j) (xs ! j)) [0..<length xs]"

lemma length_enumerate_slots [simp]: "length (enumerate_slots h start xs) = length xs"
  by (simp add: enumerate_slots_def)

lemma enumerate_slots_append:
  "enumerate_slots h start (xs @ ys) = enumerate_slots h start xs @ enumerate_slots h (start + of_nat (length xs)) ys"
  by (rule nth_equalityI) (auto simp: enumerate_slots_def nth_append algebra_simps)

lemma enumerate_slots_chunks:
  assumes "0 < c"
  shows "concat (in_chunks (enumerate_slots h) c start xs) = enumerate_slots h (of_nat start) xs"
  using assms
proof (induction "enumerate_slots h" c start xs rule: in_chunks.induct)
  case (1 c start xs)
  show ?case
  proof (cases "xs = []")
    case True
    then show ?thesis by (simp add: in_chunks.simps enumerate_slots_def)
  next
    case False
    have "enumerate_slots h (of_nat start) xs = enumerate_slots h (of_nat start) (take c xs @ drop c xs)" by simp
    also have "\<dots> = enumerate_slots h (of_nat start) (take c xs) @ enumerate_slots h (of_nat (start + c)) (drop c xs)"
      unfolding enumerate_slots_append by (cases "length xs \<le> c") (simp_all add: enumerate_slots_def)
    finally show ?thesis using 1 False by (subst in_chunks.simps) simp
  qed
qed

lemma enumerate_slots_range:
  assumes "length xs = unat n"
  shows "enumerate_slots h 0 xs = map (\<lambda>i. h i (xs ! unat i)) (usize_range n)"
proof (rule nth_equalityI)
  fix k assume k: "k < length (enumerate_slots h 0 xs)"
  then have "unat (of_nat k :: usize) = k" using assms by (auto intro: unat_of_nat_below [of _ n])
  then show "enumerate_slots h 0 xs ! k = map (\<lambda>i. h i (xs ! unat i)) (usize_range n) ! k"
    using k assms by (simp add: enumerate_slots_def)
qed (simp add: assms)

lemma indexwise_partition:
  assumes "slice_in cells mem" "unat (meta cells) \<le> isize_max"
    and "\<And>s xs. f s xs = (Done (), enumerate_slots h s xs)"
    and "slot_sound slot" "scheduler_returns slot" "\<And>n. schedule_of n (sched n)"
  shows "fst (partition_for_each_with slot sched avail cells plan f mem) = Returned []
    \<and> fst (snd (partition_for_each_with slot sched avail cells plan f mem)) =
      slice_write cells (map (\<lambda>i. h i (mem ! (ptr cells + unat i))) (usize_range (meta cells))) mem"
proof -
  obtain c where c: "chunk_len_for avail plan (meta cells) = Done c"
    and r: "fst (partition_for_each_with slot sched avail cells plan f mem) = Returned []"
      "fst (snd (partition_for_each_with slot sched avail cells plan f mem)) =
        slice_write cells (concat (in_chunks (enumerate_slots h) (unat c) 0 (slice_read cells mem))) mem"
    using partition_for_each_is_sequential [where f = f and g = "enumerate_slots h" and sched = sched,
        OF assms(1,2) length_enumerate_slots assms(3-6)] by blast
  have "0 < unat c" using c chunk_len_for_Done by (metis outcome.inject(1) unat_gt_0)
  moreover have eq: "map (\<lambda>i. h i (slice_read cells mem ! unat i)) (usize_range (meta cells)) =
      map (\<lambda>i. h i (mem ! (ptr cells + unat i))) (usize_range (meta cells))"
    using assms(1) by (intro map_cong refl)
      (simp add: slice_read_def slice_in_def nth_window word_less_nat_alt)
  moreover have "enumerate_slots h 0 (slice_read cells mem) =
      map (\<lambda>i. h i (slice_read cells mem ! unat i)) (usize_range (meta cells))"
    by (rule enumerate_slots_range) (simp add: assms(1))
  ultimately show ?thesis using r enumerate_slots_chunks [of "unat c" h 0] unfolding eq [symmetric] by simp
qed

text \<open>C21. A parallel loop that visits its shard cell by cell cannot see the partition. If the closure of
  \<open>partition_for_each_with\<close> replaces every cell by a function of the cell's index in the region (the
  shard's start plus the position in the shard) and of its old value, then for every plan,
  executor, schedule and reported parallelism the call returns, every cell of the region holds that
  function of its index and old value, and nothing outside the region has changed.\<close>

theorem partition_is_indexwise:
  assumes "slice_in cells mem" "unat (meta cells) \<le> isize_max"
    and "\<And>s xs. f s xs = (Done (), enumerate_slots h s xs)"
    and "slot_sound slot" "scheduler_returns slot" "\<And>n. schedule_of n (sched n)"
  shows "fst (partition_for_each_with slot sched avail cells plan f mem) = Returned []
    \<and> fst (snd (partition_for_each_with slot sched avail cells plan f mem)) =
      slice_write cells (map (\<lambda>i. h i (mem ! (ptr cells + unat i))) (usize_range (meta cells))) mem"
  using assms by (rule indexwise_partition)

definition number_shard :: "(usize, unit) shard_fn" where
  "number_shard start xs = (Done (), enumerate_slots (\<lambda>i _. i) start xs)"

lemma no_executor:
  "slot_sound (Null :: ('a, 'r) slot_ptr)" "scheduler_returns (Null :: ('a, 'r) slot_ptr)"
  by (simp_all add: slot_sound_def scheduler_returns_def slot_defs)

theorem partition_is_indexwise_witness:
  "slice_in \<lparr>ptr = 1, meta = 3\<rparr> [9, 9, 9, 9, 9 :: usize]
   \<and> fst (snd (partition_for_each_with Null usize_range None \<lparr>ptr = 1, meta = 3\<rparr> (plan_chunk_size 2) number_shard
        [9, 9, 9, 9, 9])) = [9, 0, 1, 2, 9]"
proof -
  have a: "slice_in \<lparr>ptr = 1, meta = 3\<rparr> [9, 9, 9, 9, 9 :: usize]" by (simp add: slice_in_def)
  have b: "unat (meta \<lparr>ptr = 1, meta = 3\<rparr>) \<le> isize_max" by (simp add: isize_max_def)
  have range: "usize_range 3 = [0, 1, 2]" by (simp add: usize_range_def upt_rec)
  show ?thesis
    using a partition_is_indexwise [OF a b number_shard_def no_executor schedule_of_range,
        where avail = None and plan = "plan_chunk_size 2"]
    by (simp add: range slice_write_def overwrite_def)
qed

section \<open>The crate root: \<^verbatim>\<open>lib.rs\<close>\<close>

type_synonym i32 = "32 word"

definition quick_start :: i32 where
  "quick_start =
     (let (a, mem) = cell_new 1 [];
          (b, mem) = cell_new 2 mem;
          mem = mut_assign (cell_borrow_mut a) (mut_deref (cell_borrow_mut a) mem + 10) mem
      in ref_deref (cell_borrow a) mem + ref_deref (cell_borrow b) mem)"

definition quick_start_borrows :: "op list" where
  "quick_start_borrows =
     [OpenScope ExclusiveFamily 0, NewCell 0 0, NewCell 1 0] @ access_mut 0 0 0
     @ [Share 0 0, CopyPermit 2, Borrow [0] 2, Borrow [1] 3, DropView 4, DropView 5, DropPermit 2, DropPermit 3,
        CloseScope 0]"

definition split_writers :: "i32 \<times> i32" where
  "split_writers =
     (let (cell, mem) = cell_new (0, 0) [];
          (a, b) = mut_map_split (cell_borrow_mut cell) (\<lambda>t. (place_comp fst_place t, place_comp snd_place t));
          mem = mut_assign a 1 mem;
          mem = mut_assign b 2 mem
      in ref_deref (cell_borrow cell) mem)"

definition retain_choice :: "(8 word) cow \<times> (8 word) cow" where
  "retain_choice =
     (let mem = [0, 1, 2, 3]; cells = \<lparr>ptr = 0, meta = 4\<rparr>
      in (borrow_cow_with (\<lambda>x. x) cells Borrowed mem, borrow_cow_with (\<lambda>x. x) cells Retained mem))"

definition phase_counter :: "(u64 outcome \<times> u64 outcome) option" where
  "phase_counter =
     Option.bind (store_exclusive 10 OwnerMut (branded_new 0)) (\<lambda>(_, counter).
     Option.bind (branded_fetch_add_with 5 SharedRead Relaxed counter) (\<lambda>(prev, counter).
     map_option (\<lambda>(now, _). (prev, now)) (branded_load_with SharedRead Relaxed counter)))"

text \<open>For any number of cells and any plan; the documentation has eight cells and chunks of two.\<close>

definition numbered_cells ::
    "(usize, unit) slot_ptr \<Rightarrow> scheduling \<Rightarrow> nonzero_usize option \<Rightarrow> partition_plan \<Rightarrow> usize \<Rightarrow> usize list" where
  "numbered_cells slot sched avail plan n =
     (let mem = replicate (unat n) 0;
          cells = \<lparr>ptr = 0, meta = n\<rparr>;
          (_, mem, _) = partition_for_each_with slot sched avail cells plan number_shard mem
      in map (\<lambda>i. ref_deref (cell_borrow \<lparr>mc_value = unat i\<rparr>) mem) (usize_range n))"

text \<open>The two programs that must not compile.\<close>

definition aliasing_attempt :: "op list" where
  "aliasing_attempt =
     [OpenScope ExclusiveFamily 0, NewCell 0 0, BorrowMut 0 0, BorrowMutCells [0] 0, BorrowRef 0 0, Borrow [0] 2]"

definition foreign_token_attempt :: "op list" where
  "foreign_token_attempt =
     [OpenScope ExclusiveFamily 0, NewCell 0 0, BorrowRef 0 0, Borrow [0] 0, DropView 1, DropPermit 0,
      OpenScope ExclusiveFamily 0, BorrowRef 1 0, Borrow [0] 2]"

section \<open>The modules\<close>

text \<open>\<^verbatim>\<open>token/brand.rs\<close>\<close>

definition doubled :: "32 word" where
  "doubled =
     (let (cell, mem) = cell_new 21 [];
          mem = mut_assign (cell_borrow_mut cell) (mut_deref (cell_borrow_mut cell) mem * 2) mem
      in ref_deref (cell_borrow cell) mem)"

definition two_writers :: u64 where
  "two_writers =
     (let (a, mem) = cell_new 10 [];
          (b, mem) = cell_new 32 mem;
          ma = cell_borrow_mut a;
          mb = cell_borrow_mut b;
          mem = mut_assign ma (mut_deref ma mem + mut_deref mb mem) mem
      in ref_deref (cell_borrow a) mem)"

definition two_writers_borrows :: "op list" where
  "two_writers_borrows =
     [OpenScope ExclusiveFamily 0, OpenScope ExclusiveFamily 0, NewCell 0 0, NewCell 1 1,
      BorrowMut 0 0, BorrowMutCells [0] 0, BorrowMut 1 0, BorrowMutCells [1] 2,
      DropView 1, DropPermit 0, DropView 3, DropPermit 2,
      BorrowRef 0 0, Borrow [0] 4, DropView 5, DropPermit 4, CloseScope 1, CloseScope 0]"

text \<open>\<^verbatim>\<open>sync/tokens/\<close>\<close>

definition region_sum :: i32 where
  "region_sum = sum_list (map (\<lambda>c. ref_deref (cell_borrow c) [1, 2, 3]) [\<lparr>mc_value = 0\<rparr>, \<lparr>mc_value = 1\<rparr>, \<lparr>mc_value = 2\<rparr>])"

definition thread_local_total :: usize where
  "thread_local_total =
     (let (counter, mem) = cell_new 0 [];
          mem = ((\<lambda>mem. mut_assign (cell_borrow_mut counter) (mut_deref (cell_borrow_mut counter) mem + 1) mem) ^^ 5) mem
      in ref_deref (cell_borrow counter) mem)"

text \<open>\<^verbatim>\<open>cell/reference.rs\<close>\<close>

record header =
  hd_tag :: "32 word"
  hd_len :: "32 word"

definition len_field :: "(header, 32 word) place" where
  "len_field = \<lparr>pl_get = hd_len, pl_put = (\<lambda>v h. h\<lparr>hd_len := v\<rparr>)\<rparr>"

definition header_length :: "32 word" where
  "header_length =
     (let (cell, mem) = cell_new \<lparr>hd_tag = 7, hd_len = 42\<rparr> [];
          len = ref_map (cell_borrow cell) (place_comp len_field)
      in ref_deref len mem)"

definition header_updated :: header where
  "header_updated =
     (let (cell, mem) = cell_new \<lparr>hd_tag = 7, hd_len = 0\<rparr> [];
          len = mut_map (cell_borrow_mut cell) (place_comp len_field);
          mem = mut_assign len 42 mem
      in ref_deref (cell_borrow cell) mem)"

text \<open>\<^verbatim>\<open>region/mod.rs\<close>, \<^verbatim>\<open>region/par_chunks.rs\<close>\<close>

definition lifecycle :: "32 word list outcome" where
  "lifecycle =
     bind_outcome (shard_split_at (shard_new \<lparr>ptr = 0, meta = 6\<rparr>) 3) (\<lambda>(lo, hi).
       let mem = replicate 6 0;
           lo = shard_as_mut_slice lo; hi = shard_as_mut_slice hi;
           mem = slice_write lo (enumerate_slots (\<lambda>j _. ucast j) 0 (slice_read lo mem)) mem;
           mem = slice_write hi (enumerate_slots (\<lambda>j _. 100 + ucast j) 0 (slice_read hi mem)) mem
       in Done (map (\<lambda>k. ref_deref (cell_borrow \<lparr>mc_value = k\<rparr>) mem) [0..<6]))"

definition indexed_chunks :: "usize outcome \<times> usize list" where
  "indexed_chunks =
     (let mem = replicate 6 0;
          par = shard_par_chunks (shard_new \<lparr>ptr = 0, meta = 6\<rparr>) 2;
          c0 = shard_as_mut_slice (get_unchecked_chunk par 0);
          c2 = shard_as_mut_slice (get_unchecked_chunk par 2);
          mem = slice_write c0 (map (\<lambda>_. 10) (slice_read c0 mem)) mem;
          mem = slice_write c2 (map (\<lambda>_. 20) (slice_read c2 mem)) mem
      in (par_len par, map (\<lambda>k. ref_deref (cell_borrow \<lparr>mc_value = k\<rparr>) mem) [0..<6]))"

text \<open>\<^verbatim>\<open>reentrant/\<close>\<close>

definition guarded_example :: "(reentered + u64) outcome \<times> (reentered + (reentered + unit)) outcome" where
  "guarded_example =
     (let (first, cache) = guarded_enter (\<lambda>s. let n = gc_value s + 41 in (Done n, s\<lparr>gc_value := n\<rparr>)) (guarded_new 0);
          (again, _) = guarded_enter (guarded_enter (\<lambda>s. (Done (), s))) cache
      in (first, again))"

definition gate_example :: "(reentered + (u64 \<times> (reentered + unit) outcome)) outcome" where
  "gate_example =
     fst (gate_enter 0 (\<lambda>token s.
       let (slot, mem) = cell_new 0 [];
           mem = mut_assign (cell_borrow_mut slot) 7 mem;
           (inner, s) = gate_enter 0 (\<lambda>_ s. (Done (), s)) s
       in (Done (ref_deref (cell_borrow slot) mem, inner), s)) (gate_new empty_world))"

text \<open>\<^verbatim>\<open>thread_cached.rs\<close>: what each assertion of the example observes.\<close>

definition cached_shard :: "thread \<Rightarrow> i32 outcome \<times> i32 option \<times> i32 option \<times> i32 outcome" where
  "cached_shard t =
     (let (first, s) = get_or_init t (\<lambda>s. (Done 7, s)) VALUE;
          s = cache_set t 11 s;
          held = cache_get t s;
          s = cache_clear t s;
          cleared = cache_get t s;
          (again, s) = get_or_init t (\<lambda>s. (Done 13, s)) s
      in (first, held, cleared, again))"

text \<open>\<^verbatim>\<open>sync/scoped/mod.rs\<close>\<close>

definition handoff_example :: "'e + thread \<Rightarrow> world \<Rightarrow> ('e + u64) \<times> world" where
  "handoff_example spawned w =
     scope_exclusive spawned (\<lambda>token w.
       let (cell, mem) = cell_new 10 [];
           mem = mut_assign (cell_borrow_mut cell) (mut_deref (cell_borrow_mut cell) mem + 32) mem
       in (Inr (ref_deref (cell_borrow cell) mem), w)) w"

text \<open>\<^verbatim>\<open>sync/scoped/partition/map.rs\<close>: number the cells and report the length of each shard.\<close>

definition number_and_count :: "(usize, usize) shard_fn" where
  "number_and_count start xs = (Done (of_nat (length xs)), enumerate_slots (\<lambda>i _. i) start xs)"

definition counted_cells ::
    "(usize, usize) slot_ptr \<Rightarrow> scheduling \<Rightarrow> nonzero_usize option \<Rightarrow> usize \<Rightarrow> usize \<Rightarrow> usize exit \<times> usize list" where
  "counted_cells slot sched avail parts n =
     (let mem = replicate (unat n) 0;
          cells = \<lparr>ptr = 0, meta = n\<rparr>;
          (written, mem, _) = partition_map slot sched avail cells parts number_and_count mem
      in (written, map (\<lambda>i. ref_deref (cell_borrow \<lparr>mc_value = unat i\<rparr>) mem) (usize_range n)))"

section \<open>The documented assertions\<close>

lemma whole_region: "slice_in \<lparr>ptr = 0, meta = n\<rparr> (replicate (unat n) x)" "slice_read \<lparr>ptr = 0, meta = n\<rparr> (replicate (unat n) x) = replicate (unat n) x"
  by (simp_all add: slice_in_def slice_read_def window_def)

lemma write_whole_region: "length ys = unat n \<Longrightarrow> slice_write \<lparr>ptr = 0, meta = n\<rparr> ys (replicate (unat n) x) = ys"
  by (simp add: slice_write_def overwrite_def)

lemma read_back_numbers: "map (\<lambda>i. ref_deref (cell_borrow \<lparr>mc_value = unat i\<rparr>) (usize_range n)) (usize_range n) = usize_range n"
proof (rule nth_equalityI)
  fix k assume k: "k < length (map (\<lambda>i. ref_deref (cell_borrow \<lparr>mc_value = unat i\<rparr>) (usize_range n)) (usize_range n))"
  then have "unat (of_nat k :: usize) = k" by (auto intro: unat_of_nat_below [of _ n])
  then show "map (\<lambda>i. ref_deref (cell_borrow \<lparr>mc_value = unat i\<rparr>) (usize_range n)) (usize_range n) ! k = usize_range n ! k"
    using k by (simp add: cell_borrow_def guard_defs unsafe_cell_get_def)
qed simp

text \<open>Every cell holds its index, however the region is cut.\<close>

lemma numbered_cells_eq:
  assumes "unat n \<le> isize_max" "slot_sound slot" "scheduler_returns slot" "\<And>n. schedule_of n (sched n)"
  shows "numbered_cells slot sched avail plan n = usize_range n"
proof -
  have "fst (snd (partition_for_each_with slot sched avail \<lparr>ptr = 0, meta = n\<rparr> plan number_shard (replicate (unat n) 0)))
      = usize_range n"
    using indexwise_partition [where cells = "\<lparr>ptr = 0, meta = n\<rparr>" and h = "\<lambda>i _. i" and f = number_shard and sched = sched,
        OF whole_region(1) _ number_shard_def assms(2-4)] assms(1)
    by (simp add: write_whole_region)
  then show ?thesis by (simp add: numbered_cells_def Let_def case_prod_beta read_back_numbers)
qed

lemma sum_chunk_lengths:
  assumes "0 < c"
  shows "sum_list (in_chunks (\<lambda>s xs. of_nat (length xs) :: usize) c start xs) = of_nat (length xs)"
  using assms
proof (induction "\<lambda>(s :: usize) (xs :: 'a list). of_nat (length xs) :: usize" c start xs rule: in_chunks.induct)
  case (1 c start xs)
  have "of_nat (length xs) = (of_nat (length (take c xs) + length (drop c xs)) :: usize)"
    by (metis append_take_drop_id length_append)
  also have "\<dots> = of_nat (length (take c xs)) + of_nat (length (drop c xs))" by (rule of_nat_add)
  finally have split: "of_nat (length xs) = (of_nat (length (take c xs)) + of_nat (length (drop c xs)) :: usize)" .
  show ?case
  proof (cases "xs = []")
    case True
    then show ?thesis by (simp add: in_chunks.simps)
  next
    case False
    then have "sum_list (in_chunks (\<lambda>s xs. of_nat (length xs) :: usize) c (start + c) (drop c xs)) = of_nat (length (drop c xs))"
      using 1 by blast
    then show ?thesis using False 1(2) unfolding split by (subst in_chunks.simps) (simp del: length_take length_drop)
  qed
qed

lemma counted_cells_eq:
  assumes "unat n \<le> isize_max" "slot_sound slot" "scheduler_returns slot" "\<And>n. schedule_of n (sched n)"
  shows "\<exists>written. counted_cells slot sched avail parts n = (Returned written, usize_range n) \<and> sum_list written = n"
proof -
  let ?cells = "\<lparr>ptr = 0, meta = n\<rparr>" and ?mem = "replicate (unat n) (0 :: usize)"
  obtain c where c: "plan_resolve avail (plan_parts parts) n = Done c" "1 \<le> unat c" by (rule plan_resolve_Done)
  let ?rs = "in_chunks number_and_count (unat c) 0 ?mem"
  have k: "keeps_length (number_and_count s)" for s by (simp add: keeps_length_def number_and_count_def)
  have col: "collected ?rs (positions ?cells) ?mem
      (partition_map_with slot sched avail ?cells (plan_parts parts) number_and_count ?mem)"
    using partition_map_with_collected [where f = number_and_count and sched = sched and cells = ?cells,
        OF whole_region(1) _ k assms(2,4,3)] assms(1) c(1) by (simp add: whole_region(2))
  have fsts: "map fst ?rs = map Done (in_chunks (\<lambda>s xs. of_nat (length xs)) (unat c) 0 ?mem)"
    by (simp add: map_in_chunks number_and_count_def)
  have snds: "concat (map snd ?rs) = usize_range n"
    using enumerate_slots_chunks [of "unat c" "\<lambda>i _. i" 0 ?mem] enumerate_slots_range [of ?mem n "\<lambda>i _. i"] c(2)
    by (simp add: map_in_chunks number_and_count_def)
  have "partition_map_with slot sched avail ?cells (plan_parts parts) number_and_count ?mem =
      (Returned (in_chunks (\<lambda>s xs. of_nat (length xs)) (unat c) 0 ?mem), usize_range n, [])"
    unfolding collected_done [OF col fsts] snds
    using scatter_positions [of ?cells ?mem "usize_range n"] whole_region(1) [of n 0]
    by (simp add: write_whole_region)
  then show ?thesis
    using sum_chunk_lengths [of "unat c" 0 ?mem] c(2)
    by (simp add: counted_cells_def partition_map_def Let_def read_back_numbers)
qed

lemma documented_values:
  "quick_start = 13" "split_writers = (1, 2)" "\<not> cow_is_owned (fst retain_choice)" "cow_is_owned (snd retain_choice)"
  "phase_counter = Some (Done 10, Done 15)"
  "doubled = 42" "two_writers = 42" "region_sum = 6" "thread_local_total = 5"
  "header_length = 42" "header_updated = \<lparr>hd_tag = 7, hd_len = 42\<rparr>"
  by (simp_all add: quick_start_def split_writers_def retain_choice_def phase_counter_def doubled_def two_writers_def
      region_sum_def thread_local_total_def header_length_def header_updated_def len_field_def eval_nat_numeral
      cell_new_def guard_defs cell_borrow_def cell_borrow_mut_def unsafe_cell_get_def place_comp_def
      fst_place_def snd_place_def cow_defs branded_new_def new_atomic_def exclusive_defs integer_defs method_defs
      pair_defs policy.load_body Let_def)

lemma documented_regions:
  "lifecycle = Done [0, 1, 2, 100, 101, 102]" "indexed_chunks = (Done 3, [10, 10, 0, 0, 20, 20])"
  by code_simp+

lemma documented_gates:
  "guarded_example = (Done (Inr 41), Done (Inr (Inl Reentered)))" "gate_example = Done (Inr (7, Done (Inl Reentered)))"
  by code_simp+

lemma documented_cache: "cached_shard t = (Done 7, Some 11, None, Done 13)"
  by (simp add: cached_shard_def cache_defs VALUE_def)

lemma documented_borrows: "accepted quick_start_borrows" "accepted two_writers_borrows"
  by code_simp+

lemma documented_rejections:
  "run_ops aliasing_attempt empty_world = Inl AlreadyMutablyBorrowed"
  "run_ops foreign_token_attempt empty_world = Inl BrandMismatch"
  by (simp_all add: aliasing_attempt_def foreign_token_attempt_def token_eval Let_def)

lemma documented_handoff: "fst (handoff_example (Inr worker) w) = Inr 42"
  by (simp add: handoff_example_def scope_exclusive_def with_fresh_token_def with_fresh_brand_def mint_def Let_def
      cell_new_def guard_defs cell_borrow_def cell_borrow_mut_def unsafe_cell_get_def)



end
