(* ===== verification/Formatting.thy ===== *)
theory Formatting
  imports Cells Atomics Reentrant
begin

text \<open>
  What the crate's hand-written \<open>Debug\<close> and \<open>Display\<close> implementations print, with the builders of \<open>core::fmt\<close>
  they use, in the plain form \<open>{:?}\<close> and the alternate form \<open>{:#?}\<close>. Width and precision flags are left
  out. The value behind a guard and the value of an atomic print themselves: that printer is an argument.
\<close>

section \<open>The builders of \<open>core::fmt\<close>\<close>

type_synonym formatter = bool

text \<open>\<open>True\<close> is the alternate form.\<close>

fun decimal :: "nat \<Rightarrow> string" where
  "decimal n = (if n < 10 then [char_of (48 + n)] else decimal (n div 10) @ [char_of (48 + n mod 10)])"

declare decimal.simps [simp del]

definition usize_fmt :: "usize \<Rightarrow> string" where
  "usize_fmt n = decimal (unat n)"

definition newline :: char where
  "newline = CHR 0x0A"

text \<open>\<open>PadAdapter\<close>: nested lines are indented.\<close>

definition padded :: "string \<Rightarrow> string" where
  "padded s = ''    '' @ concat (map (\<lambda>c. if c = newline then newline # ''    '' else [c]) s)"

fun separated :: "string \<Rightarrow> string list \<Rightarrow> string" where
  "separated sep [] = []"
| "separated sep [x] = x"
| "separated sep (x # xs) = x @ sep @ separated sep xs"

definition debug_field :: "string \<times> string \<Rightarrow> string" where
  "debug_field f = fst f @ '': '' @ snd f"

definition debug_struct :: "formatter \<Rightarrow> string \<Rightarrow> (string \<times> string) list \<Rightarrow> string" where
  "debug_struct alt name fs =
     (if fs = [] then name
      else if alt then name @ '' {'' @ [newline]
        @ concat (map (\<lambda>f. padded (debug_field f) @ '','' @ [newline]) fs) @ ''}''
      else name @ '' { '' @ separated '', '' (map debug_field fs) @ '' }'')"

definition debug_struct_non_exhaustive :: "formatter \<Rightarrow> string \<Rightarrow> (string \<times> string) list \<Rightarrow> string" where
  "debug_struct_non_exhaustive alt name fs =
     (if fs = [] then name @ '' { .. }''
      else if alt then name @ '' {'' @ [newline]
        @ concat (map (\<lambda>f. padded (debug_field f) @ '','' @ [newline]) fs) @ padded ''..'' @ [newline] @ ''}''
      else name @ '' { '' @ separated '', '' (map debug_field fs) @ '', .. }'')"

text \<open>A tuple struct of one field.\<close>

definition debug_tuple :: "formatter \<Rightarrow> string \<Rightarrow> string \<Rightarrow> string" where
  "debug_tuple alt name v =
     (if alt then name @ ''('' @ [newline] @ padded v @ '','' @ [newline] @ '')'' else name @ ''('' @ v @ '')'')"

section \<open>Tokens, cells and guards\<close>

text \<open>The \<open>debug\<close> literal of each invocation of \<open>brand_owner_token!\<close>.\<close>

fun token_fmt :: "family \<Rightarrow> string" where
  "token_fmt ExclusiveFamily = ''ExclusiveToken<'' @ [CHR 0x27] @ ''brand>''"
| "token_fmt SyncRegionFamily = ''SyncRegionToken<'' @ [CHR 0x27] @ ''brand>''"
| "token_fmt ThreadLocalFamily = ''ThreadLocalToken<'' @ [CHR 0x27] @ ''brand>''"

definition shared_token_fmt :: string where
  "shared_token_fmt = ''SharedReadToken<'' @ [CHR 0x27] @ ''a, '' @ [CHR 0x27] @ ''brand>''"

definition cell_fmt :: "formatter \<Rightarrow> melinoe_cell \<Rightarrow> 'a list \<Rightarrow> string" where
  "cell_fmt alt c mem = debug_struct_non_exhaustive alt ''MelinoeCell'' []"

definition ref_fmt :: "('a \<Rightarrow> string) \<Rightarrow> ('m, 'a) melinoe_ref \<Rightarrow> 'm \<Rightarrow> string" where
  "ref_fmt value_fmt g m = value_fmt (pl_get (mr_value g) m)"

definition mut_fmt :: "('a \<Rightarrow> string) \<Rightarrow> ('m, 'a) melinoe_mut \<Rightarrow> 'm \<Rightarrow> string" where
  "mut_fmt value_fmt g m = value_fmt (pl_get (mm_value g) m)"

text \<open>The standard atomics print what a relaxed load returns.\<close>

definition atomic_fmt :: "formatter \<Rightarrow> ('v \<Rightarrow> string) \<Rightarrow> 'v \<Rightarrow> string outcome" where
  "atomic_fmt alt value_fmt a =
     map_done (\<lambda>v. debug_tuple alt ''BrandedAtomic'' (value_fmt v)) (fst (atomic_load OrdRelaxed a))"

section \<open>Regions\<close>

definition shard_fmt :: "formatter \<Rightarrow> writer_shard \<Rightarrow> string" where
  "shard_fmt alt sh = debug_struct_non_exhaustive alt ''WriterShard'' [(''len'', usize_fmt (meta (sh_cells sh)))]"

definition chunks_fmt :: "formatter \<Rightarrow> shard_chunks \<Rightarrow> string" where
  "chunks_fmt alt it =
     (let remaining = (case sc_rest it of None \<Rightarrow> 0 | Some s \<Rightarrow> shard_len (shard_new s))
      in debug_struct alt ''ShardChunks'' [(''remaining'', usize_fmt remaining), (''chunk'', usize_fmt (sc_chunk it))])"

definition par_fmt :: "formatter \<Rightarrow> par_chunks \<Rightarrow> string outcome" where
  "par_fmt alt p =
     map_done (\<lambda>partitions. debug_struct alt ''ParChunks''
       [(''len'', usize_fmt (pc_len p)), (''chunk'', usize_fmt (pc_chunk p)), (''partitions'', usize_fmt partitions)])
       (par_len p)"

section \<open>Errors\<close>

fun reentered_display :: "reentered \<Rightarrow> string" where
  "reentered_display Reentered = ''re-entrant ReentrancyCell::enter (gate already held on this thread)''"

section \<open>Reading the text back\<close>

definition is_digit :: "char \<Rightarrow> bool" where
  "is_digit c \<longleftrightarrow> 48 \<le> (of_char c :: nat) \<and> (of_char c :: nat) \<le> 57"

definition read_decimal :: "string \<Rightarrow> nat" where
  "read_decimal s = foldl (\<lambda>n c. 10 * n + (of_char c - 48)) 0 (takeWhile is_digit s)"

lemma of_char_digit: "d < 10 \<Longrightarrow> (of_char (char_of (48 + d) :: char) :: nat) = 48 + d"
  by (simp add: of_char_of)

lemma digit_char: "(d :: nat) < 10 \<Longrightarrow> is_digit (char_of (48 + d))"
  by (simp add: is_digit_def of_char_digit)

lemma decimal_digits: "list_all is_digit (decimal n)"
proof (induction n rule: decimal.induct)
  case (1 n)
  then show ?case by (subst decimal.simps) (simp add: digit_char)
qed

lemma foldl_decimal: "foldl (\<lambda>n c. 10 * n + (of_char c - 48)) 0 (decimal n) = (n :: nat)"
proof (induction n rule: decimal.induct)
  case (1 n)
  then show ?case by (subst decimal.simps) (simp add: of_char_digit)
qed

lemma read_decimal_append:
  assumes "rest = [] \<or> \<not> is_digit (hd rest)"
  shows "read_decimal (decimal n @ rest) = n"
proof -
  have "takeWhile is_digit (decimal n @ rest) = decimal n"
    using assms decimal_digits [of n] by (cases rest) (auto simp: list_all_iff takeWhile_append)
  then show ?thesis by (simp add: read_decimal_def foldl_decimal)
qed

text \<open>The numbers that follow the colons of a text.\<close>

fun numbers :: "string \<Rightarrow> nat list" where
  "numbers [] = []"
| "numbers (c # s) = (if c = CHR '':'' then read_decimal (drop 1 s) # numbers s else numbers s)"

lemma numbers_skip: "CHR '':'' \<notin> set xs \<Longrightarrow> numbers (xs @ s) = numbers s"
  by (induction xs) auto

lemma no_colon: "CHR '':'' \<notin> set (decimal n)"
  using decimal_digits [of n] by (auto simp: list_all_iff is_digit_def)

lemma padded_plain: "newline \<notin> set s \<Longrightarrow> padded s = ''    '' @ s"
proof -
  assume "newline \<notin> set s"
  then have "concat (map (\<lambda>c. if c = newline then newline # ''    '' else [c]) s) = s" by (induction s) auto
  then show ?thesis by (simp add: padded_def)
qed

lemma no_newline: "newline \<notin> set (decimal n)"
  using decimal_digits [of n] by (auto simp: list_all_iff is_digit_def newline_def)

lemma numbers_field:
  assumes "CHR '':'' \<notin> set name" "\<not> is_digit (hd rest)" "rest \<noteq> []"
  shows "numbers (debug_field (name, usize_fmt n) @ rest) = unat n # numbers rest"
  using assms by (simp add: debug_field_def usize_fmt_def numbers_skip no_colon read_decimal_append)

lemma newline_free [simp]: "newline \<noteq> CHR '':''" "\<not> is_digit newline" "\<not> is_digit (CHR '','')" "\<not> is_digit (CHR '' '')"
  by (simp_all add: newline_def is_digit_def)

lemma padded_field:
  "newline \<notin> set name \<Longrightarrow> padded (debug_field (name, usize_fmt n)) = ''    '' @ debug_field (name, usize_fmt n)"
  by (rule padded_plain) (simp add: debug_field_def usize_fmt_def no_newline, simp add: newline_def)

text \<open>Both forms report the fields in order.\<close>

definition field_name :: "string \<Rightarrow> bool" where
  "field_name name \<longleftrightarrow> CHR '':'' \<notin> set name \<and> newline \<notin> set name"

lemma numbers_alternate:
  assumes "list_all field_name (map fst fs)" 
  shows "numbers (concat (map (\<lambda>f. padded (debug_field f) @ '','' @ [newline]) (map (map_prod id usize_fmt) fs)) @ rest)
    = map (unat \<circ> snd) fs @ numbers rest"
  using assms
  by (induction fs) (auto simp: field_name_def padded_field numbers_field)

lemma numbers_separated:
  assumes "list_all field_name (map fst fs)" "rest \<noteq> []" "\<not> is_digit (hd rest)"
  shows "numbers (separated '', '' (map debug_field (map (map_prod id usize_fmt) fs)) @ rest)
    = map (unat \<circ> snd) fs @ numbers rest"
  using assms(1)
proof (induction fs rule: induct_list012)
  case (3 f g fs)
  then show ?case by (cases f; cases g) (simp add: field_name_def numbers_field)
qed (use assms(2,3) in \<open>auto simp: field_name_def numbers_field\<close>)

lemma numbers_debug_struct:
  assumes "list_all field_name (map fst fs)" "CHR '':'' \<notin> set name"
  shows "numbers (debug_struct alt name (map (map_prod id usize_fmt) fs)) = map (unat \<circ> snd) fs"
    and "numbers (debug_struct_non_exhaustive alt name (map (map_prod id usize_fmt) fs)) = map (unat \<circ> snd) fs"
proof -
  have "numbers name = []" using numbers_skip [of name "[]"] assms(2) by simp
  moreover have "padded ''..'' = ''    ..''" by (simp add: padded_def newline_def)
  ultimately show "numbers (debug_struct alt name (map (map_prod id usize_fmt) fs)) = map (unat \<circ> snd) fs"
    and "numbers (debug_struct_non_exhaustive alt name (map (map_prod id usize_fmt) fs)) = map (unat \<circ> snd) fs"
    using assms(2) numbers_alternate [OF assms(1), of "''}''"] numbers_separated [OF assms(1), of "'' }''"]
      numbers_alternate [OF assms(1), of "''    ..'' @ [newline] @ ''}''"] numbers_separated [OF assms(1), of "'', .. }''"]
    by (simp_all add: debug_struct_def debug_struct_non_exhaustive_def numbers_skip del: map_map)
qed

lemma numbers_chunks_fmt:
  "numbers (chunks_fmt alt it) = [case sc_rest it of None \<Rightarrow> 0 | Some s \<Rightarrow> unat (meta s), unat (sc_chunk it)]"
  using numbers_debug_struct(1)
    [of "[(''remaining'', case sc_rest it of None \<Rightarrow> 0 | Some s \<Rightarrow> meta s), (''chunk'', sc_chunk it)]" "''ShardChunks''" alt]
  by (simp add: chunks_fmt_def shard_defs field_name_def newline_def split: option.splits)

lemma numbers_par_fmt:
  assumes "par_fmt alt p = Done out" "par_len p = Done n"
  shows "numbers out = [unat (pc_len p), unat (pc_chunk p), unat n]"
  using assms numbers_debug_struct(1)
    [of "[(''len'', pc_len p), (''chunk'', pc_chunk p), (''partitions'', n)]" "''ParChunks''" alt]
  by (auto simp: par_fmt_def field_name_def newline_def)

lemma numbers_shard_fmt: "numbers (shard_fmt alt sh) = [unat (shard_len sh)]"
  using numbers_debug_struct(2) [of "[(''len'', meta (sh_cells sh))]" "''WriterShard''" alt]
  by (simp add: shard_fmt_def shard_defs field_name_def newline_def)

lemma sum_tile_lengths:
  assumes "0 < c"
  shows "sum_list (map (\<lambda>i. min c (m - i * c)) [0..<ceil_div m c]) = m"
  using assms
proof (induction m rule: less_induct)
  case (less m)
  show ?case
  proof (cases "m = 0")
    case False
    then have "ceil_div m c = Suc (ceil_div (m - c) c)" using ceil_div_step [of m c] less.prems by simp
    moreover have "sum_list (map (\<lambda>i. min c (m - c - i * c)) [0..<ceil_div (m - c) c]) = m - c"
      using less.IH [of "m - c"] less.prems False by simp
    ultimately show ?thesis by (simp add: map_upt_Suc del: upt_Suc)
  qed (simp add: ceil_div_0 less.prems)
qed

text \<open>What a chunk iterator reports as remaining is what it yields.\<close>

lemma remaining_is_yielded:
  assumes "sc_chunk it \<noteq> 0"
  shows "\<exists>shs. chunks_collect it = Some shs
    \<and> (case sc_rest it of None \<Rightarrow> 0 | Some s \<Rightarrow> unat (meta s)) = sum_list (map (unat \<circ> shard_len) shs)"
proof (cases "sc_rest it")
  case None
  then show ?thesis by (simp add: chunks_collect.simps chunks_next_def)
next
  case (Some s)
  have c: "0 < unat (sc_chunk it)" using assms by (simp add: unat_gt_0)
  have "unat (shard_len (tile_shard b (unat (meta s)) c i)) = min c (unat (meta s) - i * c)" for b c i
  proof -
    have "min c (unat (meta s) - i * c) < 2 ^ 64" using unat_usize_bound [of "meta s"] by linarith
    then show ?thesis by (simp add: shard_len_def tile_shard_def unat_of_nat_usize)
  qed
  then show ?thesis
    using chunks_collect_tiles [OF Some assms] sum_tile_lengths [OF c, of "unat (meta s)"] Some
    by (simp add: comp_def)
qed

text \<open>What \<open>Debug\<close> prints of a region is true of it: read back, in either form, the numbers of a chunk
  iterator are the cells it is still to yield and its chunk size, those of the indexed view its length,
  chunk size and number of partitions, that of a shard its length.\<close>

theorem debug_reports_the_partition:
  assumes "sc_chunk it \<noteq> 0" "pc_chunk p \<noteq> 0"
  shows "(\<exists>shs. chunks_collect it = Some shs
      \<and> numbers (chunks_fmt alt it) = [sum_list (map (unat \<circ> shard_len) shs), unat (sc_chunk it)])
    \<and> (\<exists>out. par_fmt alt p = Done out \<and> numbers out = [unat (pc_len p), unat (pc_chunk p), par_count p])
    \<and> numbers (shard_fmt alt sh) = [unat (shard_len sh)]"
proof (intro conjI)
  show "\<exists>shs. chunks_collect it = Some shs
      \<and> numbers (chunks_fmt alt it) = [sum_list (map (unat \<circ> shard_len) shs), unat (sc_chunk it)]"
    using remaining_is_yielded [OF assms(1)] by (simp add: numbers_chunks_fmt)
  note n = par_len_count [OF assms(2)]
  obtain out where "par_fmt alt p = Done out" using n(1) by (simp add: par_fmt_def)
  then show "\<exists>out. par_fmt alt p = Done out \<and> numbers out = [unat (pc_len p), unat (pc_chunk p), par_count p]"
    using numbers_par_fmt [OF _ n(1)] n(3) by auto
qed (rule numbers_shard_fmt)

text \<open>The printed forms.\<close>

lemma printed:
  "chunks_fmt False \<lparr>sc_rest = Some \<lparr>ptr = 0, meta = 12\<rparr>, sc_chunk = 5\<rparr> = ''ShardChunks { remaining: 12, chunk: 5 }''"
  "par_fmt False (par_new \<lparr>ptr = 0, meta = 12\<rparr> 5) = Done ''ParChunks { len: 12, chunk: 5, partitions: 3 }''"
  "shard_fmt False (shard_new \<lparr>ptr = 0, meta = 12\<rparr>) = ''WriterShard { len: 12, .. }''"
  by code_simp+

end
