(* ===== verification/Layout.thy ===== *)
theory Layout
  imports Tokens
begin

text \<open>
  The crate's types as types: their size, alignment and niche, and whether they are \<open>Send\<close> and
  \<open>Sync\<close>. A type is built from Rust's own type formers; each struct of the crate is a definition
  with its fields in order and its \<open>unsafe impl\<close>s. Layouts are those Rust guarantees: a struct
  whose fields are all zero-sized markers but one has the layout of that one, any other has a layout
  nobody may rely on. Pointers have 64 bits.
\<close>

section \<open>Rust types\<close>

record posture =
  po_size :: nat
  po_align_log :: nat
  po_niche :: bool
  po_send :: bool
  po_sync :: bool

text \<open>
  \<open>Opaque\<close> is any other sized type; an alignment is a power of two. A struct has its fields, and what its explicit
  \<open>Send\<close> and \<open>Sync\<close> impls say: without one the compiler derives the trait from the fields.
\<close>

datatype ty =
    Opaque posture
  | FnPtr
  | RawPtrOf ty
  | RefOf ty
  | RefMutOf ty
  | SliceOf ty
  | PhantomOf ty
  | UnsafeCellOf ty
  | CellOf ty
  | OptionOf ty
  | Struct "ty list" "bool option" "bool option"

fun is_slice :: "ty \<Rightarrow> bool" where
  "is_slice (SliceOf t) = True"
| "is_slice t = False"

definition pointer_size :: "ty \<Rightarrow> nat" where
  "pointer_size t = (if is_slice t then 16 else 8)"

fun align_of :: "ty \<Rightarrow> nat" where
  "align_of (Opaque p) = 2 ^ po_align_log p"
| "align_of FnPtr = 8"
| "align_of (RawPtrOf t) = 8"
| "align_of (RefOf t) = 8"
| "align_of (RefMutOf t) = 8"
| "align_of (SliceOf t) = align_of t"
| "align_of (PhantomOf t) = 1"
| "align_of (UnsafeCellOf t) = align_of t"
| "align_of (CellOf t) = align_of t"
| "align_of (OptionOf t) = align_of t"
| "align_of (Struct ts _ _) = fold max (map align_of ts) 1"

text \<open>Bit patterns an \<open>Option\<close> may use for \<open>None\<close>; interior mutability hides them.\<close>

fun has_niche :: "ty \<Rightarrow> bool" where
  "has_niche (Opaque p) = po_niche p"
| "has_niche FnPtr = True"
| "has_niche (RawPtrOf t) = False"
| "has_niche (RefOf t) = True"
| "has_niche (RefMutOf t) = True"
| "has_niche (SliceOf t) = False"
| "has_niche (PhantomOf t) = False"
| "has_niche (UnsafeCellOf t) = False"
| "has_niche (CellOf t) = False"
| "has_niche (OptionOf t) = False"
| "has_niche (Struct ts _ _) = list_ex id (map has_niche ts)"

text \<open>A zero-sized marker: size zero, alignment one. \<open>None\<close> is a size nobody may rely on.\<close>

definition is_marker :: "nat option \<times> nat \<Rightarrow> bool" where
  "is_marker sa \<longleftrightarrow> sa = (Some 0, 1)"

definition struct_size :: "(nat option \<times> nat) list \<Rightarrow> nat option" where
  "struct_size fs =
     (case filter (\<lambda>sa. \<not> is_marker sa) fs of
        [] \<Rightarrow> Some 0
      | [sa] \<Rightarrow> fst sa
      | _ \<Rightarrow> None)"

fun size_of :: "ty \<Rightarrow> nat option" where
  "size_of (Opaque p) = Some (po_size p)"
| "size_of FnPtr = Some 8"
| "size_of (RawPtrOf t) = Some (pointer_size t)"
| "size_of (RefOf t) = Some (pointer_size t)"
| "size_of (RefMutOf t) = Some (pointer_size t)"
| "size_of (SliceOf t) = None"
| "size_of (PhantomOf t) = Some 0"
| "size_of (UnsafeCellOf t) = size_of t"
| "size_of (CellOf t) = size_of t"
| "size_of (OptionOf t) = (if has_niche t then size_of t else None)"
| "size_of (Struct ts _ _) = struct_size (map (\<lambda>t. (size_of t, align_of t)) ts)"

text \<open>The auto traits: \<open>&T: Send\<close> iff \<open>T: Sync\<close>, and a struct without an impl has a trait when all
  its fields do.\<close>

fun send :: "ty \<Rightarrow> bool" and sync :: "ty \<Rightarrow> bool" where
  "send (Opaque p) = po_send p"
| "send FnPtr = True"
| "send (RawPtrOf t) = False"
| "send (RefOf t) = sync t"
| "send (RefMutOf t) = send t"
| "send (SliceOf t) = send t"
| "send (PhantomOf t) = send t"
| "send (UnsafeCellOf t) = send t"
| "send (CellOf t) = send t"
| "send (OptionOf t) = send t"
| "send (Struct ts s _) = (case s of Some b \<Rightarrow> b | None \<Rightarrow> list_all id (map send ts))"
| "sync (Opaque p) = po_sync p"
| "sync FnPtr = True"
| "sync (RawPtrOf t) = False"
| "sync (RefOf t) = sync t"
| "sync (RefMutOf t) = sync t"
| "sync (SliceOf t) = sync t"
| "sync (PhantomOf t) = sync t"
| "sync (UnsafeCellOf t) = False"
| "sync (CellOf t) = False"
| "sync (OptionOf t) = sync t"
| "sync (Struct ts _ y) = (case y of Some b \<Rightarrow> b | None \<Rightarrow> list_all id (map sync ts))"

text \<open>A struct with neither impl.\<close>

abbreviation plain :: "ty list \<Rightarrow> ty" where
  "plain ts \<equiv> Struct ts None None"

text \<open>The primitive types the assertions name; an integer has \<open>2 ^ k\<close> bytes.\<close>

definition int_ty :: "nat \<Rightarrow> ty" where
  "int_ty k = Opaque \<lparr>po_size = 2 ^ k, po_align_log = k, po_niche = False, po_send = True, po_sync = True\<rparr>"

definition bool_ty :: ty where
  "bool_ty = Opaque \<lparr>po_size = 1, po_align_log = 0, po_niche = True, po_send = True, po_sync = True\<rparr>"

definition unit_ty :: ty where
  "unit_ty = plain []"

definition bytes_ty :: "nat \<Rightarrow> ty" where
  "bytes_ty n = Opaque \<lparr>po_size = n, po_align_log = 0, po_niche = False, po_send = True, po_sync = True\<rparr>"

text \<open>A standard atomic of \<open>2 ^ k\<close> bytes: the layout of its value, no niche, \<open>Send\<close> and \<open>Sync\<close>.\<close>

definition atomic_ty :: "nat \<Rightarrow> ty" where
  "atomic_ty k = Opaque \<lparr>po_size = 2 ^ k, po_align_log = k, po_niche = False, po_send = True, po_sync = True\<rparr>"

section \<open>The structs of the crate\<close>

text \<open>Brands and tokens: \<^verbatim>\<open>token/brand.rs\<close>, \<^verbatim>\<open>token/shared.rs\<close>.\<close>

definition InvariantLifetime :: ty where
  "InvariantLifetime = PhantomOf FnPtr"

definition BorrowWindow :: ty where
  "BorrowWindow = PhantomOf (RefOf unit_ty)"

definition BrandMarker :: "ty \<Rightarrow> ty" where
  "BrandMarker extra = plain [InvariantLifetime, extra]"

definition FreshBrand :: ty where
  "FreshBrand = plain [InvariantLifetime]"

text \<open>The \<open>marker_extra\<close> types of the macro invocations.\<close>

fun extra_ty :: "marker_extra \<Rightarrow> ty" where
  "extra_ty UnitExtra = unit_ty"
| "extra_ty RawPointerExtra = PhantomOf (RawPtrOf unit_ty)"

definition owner_token :: "family \<Rightarrow> ty" where
  "owner_token fam = plain [BrandMarker (extra_ty (family_extra fam))]"

definition SharedReadToken :: ty where
  "SharedReadToken = plain [BrandMarker BorrowWindow]"

text \<open>The sealed traits over types: \<^verbatim>\<open>token/capability.rs\<close>. \<open>brand_owner\<close> are the types the macro
  implements \<open>BrandOwner\<close> for.\<close>

definition brand_owner :: "ty \<Rightarrow> bool" where
  "brand_owner t \<longleftrightarrow> t \<in> {owner_token ExclusiveFamily, owner_token SyncRegionFamily, owner_token ThreadLocalFamily}"

fun read_permit_ty :: "ty \<Rightarrow> bool" where
  "read_permit_ty (RefOf t) = brand_owner t"
| "read_permit_ty (RefMutOf t) = brand_owner t"
| "read_permit_ty t = (t = SharedReadToken)"

fun write_permit_ty :: "ty \<Rightarrow> bool" where
  "write_permit_ty (RefMutOf t) = brand_owner t"
| "write_permit_ty t = False"

text \<open>The type of each carrier of the token machine.\<close>

fun carrier_ty :: "family \<Rightarrow> carrier \<Rightarrow> ty" where
  "carrier_ty fam OwnerRef = RefOf (owner_token fam)"
| "carrier_ty fam OwnerMut = RefMutOf (owner_token fam)"
| "carrier_ty fam SharedRead = SharedReadToken"

text \<open>Cells and guards: \<^verbatim>\<open>cell/\<close>.\<close>

definition cell_send :: "ty \<Rightarrow> bool" where
  "cell_send t \<longleftrightarrow> send t"

definition cell_sync :: "ty \<Rightarrow> bool" where
  "cell_sync t \<longleftrightarrow> send t \<and> sync t"

definition MelinoeCell :: "ty \<Rightarrow> ty" where
  "MelinoeCell t = Struct [InvariantLifetime, UnsafeCellOf t] (Some (cell_send t)) (Some (cell_sync t))"

definition MelinoeRef :: "ty \<Rightarrow> ty" where
  "MelinoeRef t = plain [RefOf t, InvariantLifetime]"

definition MelinoeMut :: "ty \<Rightarrow> ty" where
  "MelinoeMut t = plain [RefMutOf t, InvariantLifetime]"

definition Borrowed_ty :: ty where
  "Borrowed_ty = plain []"

definition Retained_ty :: ty where
  "Retained_ty = plain []"

text \<open>Regions: \<^verbatim>\<open>region/\<close>, and the deque's raw slices.\<close>

definition WriterShard :: "ty \<Rightarrow> ty" where
  "WriterShard t = plain [RefMutOf (SliceOf (MelinoeCell t))]"

definition ShardChunks :: "ty \<Rightarrow> ty" where
  "ShardChunks t = plain [OptionOf (RefMutOf (SliceOf (MelinoeCell t))), int_ty 3]"

definition par_chunks_send :: "ty \<Rightarrow> bool" where
  "par_chunks_send t \<longleftrightarrow> send t"

definition par_chunks_sync :: "ty \<Rightarrow> bool" where
  "par_chunks_sync t \<longleftrightarrow> send t"

definition ParChunks :: "ty \<Rightarrow> ty" where
  "ParChunks t = Struct [RawPtrOf (MelinoeCell t), int_ty 3, int_ty 3, PhantomOf (RefMutOf (SliceOf (MelinoeCell t)))]
     (Some (par_chunks_send t)) (Some (par_chunks_sync t))"

definition deque_slices_sync :: "ty \<Rightarrow> bool" where
  "deque_slices_sync t \<longleftrightarrow> send t"

definition DequeMutSlices :: "ty \<Rightarrow> ty" where
  "DequeMutSlices t = Struct [RawPtrOf (MelinoeCell t), int_ty 3, RawPtrOf (MelinoeCell t), int_ty 3,
      PhantomOf (RefMutOf (SliceOf (MelinoeCell t)))] None (Some (deque_slices_sync t))"

text \<open>Atomics, ordering policies, gates.\<close>

definition BrandedAtomic :: "ty \<Rightarrow> ty" where
  "BrandedAtomic a = plain [a, InvariantLifetime]"

definition policy_ty :: ty where
  "policy_ty = plain []"

definition ReentrancyCell :: ty where
  "ReentrancyCell = plain [CellOf bool_ty]"

definition guarded_send :: "ty \<Rightarrow> bool" where
  "guarded_send t \<longleftrightarrow> send t"

definition GuardedCell :: "ty \<Rightarrow> ty" where
  "GuardedCell t = Struct [CellOf bool_ty, UnsafeCellOf t] (Some (guarded_send t)) None"

text \<open>The registered scheduler: \<^verbatim>\<open>sync/scoped/partition/executor.rs\<close>, with its own assertion.\<close>

definition ExecutorFn :: ty where
  "ExecutorFn = FnPtr"

definition Executor_ty :: ty where
  "Executor_ty = plain [ExecutorFn]"

definition executor_assertion :: bool where
  "executor_assertion \<longleftrightarrow> size_of Executor_ty = size_of ExecutorFn"

text \<open>What \<^verbatim>\<open>static_assertions.rs\<close> asks the compiler to check, in order.\<close>

definition static_assertions :: "bool list" where
  "static_assertions =
     [size_of (owner_token ExclusiveFamily) = Some 0,
      size_of SharedReadToken = Some 0,
      size_of (owner_token ThreadLocalFamily) = Some 0,
      size_of (owner_token SyncRegionFamily) = Some 0,
      size_of (MelinoeCell (int_ty 3)) = size_of (int_ty 3),
      align_of (MelinoeCell (int_ty 3)) = align_of (int_ty 3),
      size_of (MelinoeCell (bytes_ty 37)) = Some 37,
      size_of (MelinoeCell unit_ty) = Some 0,
      size_of (MelinoeRef (int_ty 3)) = size_of (RefOf (int_ty 3)),
      size_of (MelinoeMut (int_ty 3)) = size_of (RefMutOf (int_ty 3)),
      size_of (OptionOf (MelinoeRef (int_ty 3))) = size_of (RefOf (int_ty 3)),
      size_of (OptionOf (MelinoeMut (int_ty 3))) = size_of (RefMutOf (int_ty 3)),
      size_of (MelinoeRef (int_ty 0)) = size_of (RefOf (int_ty 0)),
      size_of (MelinoeMut (int_ty 0)) = size_of (RefMutOf (int_ty 0)),
      size_of (WriterShard (int_ty 3)) = size_of (RefMutOf (SliceOf (MelinoeCell (int_ty 3))))]
     @ concat (map (\<lambda>n. [size_of (BrandedAtomic (atomic_ty n)) = size_of (atomic_ty n),
                         align_of (BrandedAtomic (atomic_ty n)) = align_of (atomic_ty n)]) [3, 3, 0, 0, 1])
     @ concat (map (\<lambda>p. [size_of p = Some 0, align_of p = 1])
         [policy_ty, policy_ty, policy_ty, Borrowed_ty, Retained_ty])"


lemmas impl_defs [simp] = cell_send_def cell_sync_def par_chunks_send_def par_chunks_sync_def
  deque_slices_sync_def guarded_send_def

section \<open>Zero cost\<close>

lemma align_pos [simp]: "0 < align_of t"
proof (induction t)
  case (Struct ts s y)
  have "0 < m \<Longrightarrow> 0 < fold max xs m" for xs :: "nat list" and m
    by (induction xs arbitrary: m) auto
  then show ?case by simp
qed simp_all

lemma align_ge_one [simp]: "max (Suc 0) (align_of t) = align_of t" "max (align_of t) (Suc 0) = align_of t"
  using align_pos [of t] by linarith+

lemma struct_size_simps [simp]:
  "struct_size [] = Some 0"
  "struct_size [sa] = fst sa"
  "struct_size [(Some 0, Suc 0), sa] = fst sa"
  "struct_size [sa, (Some 0, Suc 0)] = fst sa"
  by (auto simp: struct_size_def is_marker_def)

lemma markers_sized [simp]:
  "size_of InvariantLifetime = Some 0" "align_of InvariantLifetime = 1" "size_of unit_ty = Some 0"
  "align_of unit_ty = 1" "\<not> has_niche InvariantLifetime" "send InvariantLifetime" "sync InvariantLifetime"
  by (simp_all add: InvariantLifetime_def unit_ty_def)

lemma extra_sized [simp]: "size_of (extra_ty e) = Some 0" "align_of (extra_ty e) = 1"
  by (cases e; simp)+

lemma BrandMarker_sized [simp]:
  "size_of (BrandMarker x) = size_of x" "align_of (BrandMarker x) = align_of x"
  by (simp_all add: BrandMarker_def)

lemma tokens_sized [simp]:
  "size_of (owner_token fam) = Some 0" "align_of (owner_token fam) = 1"
  "size_of SharedReadToken = Some 0" "align_of SharedReadToken = 1"
  by (simp_all add: owner_token_def SharedReadToken_def BorrowWindow_def)

lemma cell_sized [simp]: "size_of (MelinoeCell t) = size_of t" "align_of (MelinoeCell t) = align_of t"
  by (simp_all add: MelinoeCell_def)

lemma guard_sized [simp]:
  "size_of (MelinoeRef t) = size_of (RefOf t)" "size_of (MelinoeMut t) = size_of (RefMutOf t)"
  "has_niche (MelinoeRef t)" "has_niche (MelinoeMut t)"
  by (simp_all add: MelinoeRef_def MelinoeMut_def)

lemma shard_sized [simp]: "size_of (WriterShard t) = Some 16" "has_niche (WriterShard t)"
  by (simp_all add: WriterShard_def pointer_size_def)

lemma branded_atomic_sized [simp]:
  "size_of (BrandedAtomic a) = size_of a" "align_of (BrandedAtomic a) = align_of a"
  by (simp_all add: BrandedAtomic_def)

lemma policy_sized [simp]:
  "size_of policy_ty = Some 0" "align_of policy_ty = 1"
  "size_of Borrowed_ty = Some 0" "align_of Borrowed_ty = 1"
  "size_of Retained_ty = Some 0" "align_of Retained_ty = 1"
  by (simp_all add: policy_ty_def Borrowed_ty_def Retained_ty_def struct_size_def)

lemma static_assertions_hold: "list_all id static_assertions"
  by (simp add: static_assertions_def pointer_size_def MelinoeCell_def [symmetric] int_ty_def bytes_ty_def)

text \<open>Nothing the crate wraps costs memory. Every token, shared read token, ordering policy and
  Cow tag has size zero; a branded cell and a branded atomic have exactly the size and alignment of
  what they hold, for every payload; a guard has the size of the bare reference it wraps and
  \<open>Option\<close> of a guard too, because the guard keeps the reference's null niche; a shard is exactly
  the slice reference. So every assertion \<^verbatim>\<open>static_assertions.rs\<close> puts to the compiler holds,
  and the one on \<open>Executor\<close>, which is its function pointer.\<close>

theorem wrappers_are_zero_cost:
  "size_of (owner_token fam) = Some 0 \<and> size_of SharedReadToken = Some 0
    \<and> size_of (MelinoeCell t) = size_of t \<and> align_of (MelinoeCell t) = align_of t
    \<and> size_of (MelinoeRef t) = size_of (RefOf t) \<and> size_of (OptionOf (MelinoeRef t)) = size_of (RefOf t)
    \<and> size_of (MelinoeMut t) = size_of (RefMutOf t) \<and> size_of (OptionOf (MelinoeMut t)) = size_of (RefMutOf t)
    \<and> size_of (WriterShard t) = size_of (RefMutOf (SliceOf (MelinoeCell t)))
    \<and> size_of (BrandedAtomic t) = size_of t \<and> align_of (BrandedAtomic t) = align_of t
    \<and> list_all id static_assertions \<and> executor_assertion"
  using static_assertions_hold by (simp add: pointer_size_def executor_assertion_def Executor_ty_def)

section \<open>Auto traits\<close>

lemma send_sync_tokens:
  "send (owner_token fam) = family_send fam" "sync (owner_token fam) = family_sync fam"
  "send SharedReadToken" "sync SharedReadToken"
  by (cases fam; simp add: owner_token_def BrandMarker_def family_send_def family_sync_def unit_ty_def
        SharedReadToken_def BorrowWindow_def)+

lemma brand_owner_iff: "brand_owner t \<longleftrightarrow> (\<exists>fam. t = owner_token fam)"
  unfolding brand_owner_def by (auto, case_tac fam) auto

lemma write_permit_ty_iff: "write_permit_ty p \<longleftrightarrow> (\<exists>fam. p = RefMutOf (owner_token fam))"
  by (cases p) (auto simp: brand_owner_iff)

lemma read_permit_ty_iff:
  "read_permit_ty p \<longleftrightarrow> p = SharedReadToken \<or> (\<exists>fam. p = RefOf (owner_token fam) \<or> p = RefMutOf (owner_token fam))"
  by (cases p) (auto simp: brand_owner_iff SharedReadToken_def)



end
