(* ===== verification/TokenProgress.thy ===== *)
theory TokenProgress
  imports Tokens
begin

text \<open>
  Progress of the token machine: what a brand has lent out can always be taken back. Permits and
  views end when they are dropped, and a program may drop them at any time, views before the
  permits they came through; \<open>release\<close> lists these drops for one brand.
\<close>

section \<open>Dropping what a brand has lent\<close>

definition release :: "brand \<Rightarrow> world \<Rightarrow> op list" where
  "release b w =
     map DropView (concat (map (\<lambda>p. views_of p w) (permits_of b w))) @ map DropPermit (permits_of b w)"

fun is_drop :: "op \<Rightarrow> bool" where
  "is_drop (DropView v) \<longleftrightarrow> True"
| "is_drop (DropPermit p) \<longleftrightarrow> True"
| "is_drop op \<longleftrightarrow> False"

definition without :: "nat list \<Rightarrow> (nat \<rightharpoonup> 'a) \<Rightarrow> (nat \<rightharpoonup> 'a)" where
  "without ks m = (\<lambda>k. if k \<in> set ks then None else m k)"

lemma without_Nil [simp]: "without [] m = m"
  by (simp add: without_def)

lemma without_Cons: "without ks (m(k := None)) = without (k # ks) m"
  by (auto simp: without_def)

lemma run_ops_append: "run_ops (xs @ ys) w = (case run_ops xs w of Inl e \<Rightarrow> Inl e | Inr w' \<Rightarrow> run_ops ys w')"
  by (induction xs arbitrary: w) (auto split: sum.splits)

lemma run_ops_inv: "token_inv w \<Longrightarrow> run_ops ops w = Inr w' \<Longrightarrow> token_inv w'"
  by (induction ops arbitrary: w) (auto split: sum.splits dest: step_inv)

lemma run_drop_views:
  "distinct vs \<Longrightarrow> \<forall>v\<in>set vs. w_views w v \<noteq> None \<Longrightarrow>
     run_ops (map DropView vs) w = Inr (w\<lparr>w_views := without vs (w_views w)\<rparr>)"
proof (induction vs arbitrary: w)
  case (Cons v vs)
  let ?w = "w\<lparr>w_views := (w_views w)(v := None)\<rparr>"
  have "run_ops (map DropView vs) ?w = Inr (?w\<lparr>w_views := without vs (w_views ?w)\<rparr>)"
    using Cons.prems by (intro Cons.IH) auto
  then show ?case using Cons.prems by (auto simp: without_Cons)
qed simp

lemma run_drop_permits:
  "distinct ps \<Longrightarrow> \<forall>p\<in>set ps. w_permits w p \<noteq> None \<and> views_of p w = [] \<Longrightarrow>
     run_ops (map DropPermit ps) w = Inr (w\<lparr>w_permits := without ps (w_permits w)\<rparr>)"
proof (induction ps arbitrary: w)
  case (Cons p ps)
  let ?w = "w\<lparr>w_permits := (w_permits w)(p := None)\<rparr>"
  have "run_ops (map DropPermit ps) ?w = Inr (?w\<lparr>w_permits := without ps (w_permits ?w)\<rparr>)"
    using Cons.prems by (intro Cons.IH) (auto simp: views_of_def)
  then show ?case using Cons.prems by (auto simp: without_Cons)
qed simp

lemma views_of_mem: "view_inv w \<Longrightarrow> v \<in> set (views_of p w) \<longleftrightarrow> (\<exists>x. w_views w v = Some x \<and> vw_permit x = p)"
  by (auto simp: views_of_def view_inv_def split: option.splits)

lemma distinct_views_of_permits:
  assumes "distinct ps"
  shows "distinct (concat (map (\<lambda>p. views_of p w) ps))"
  using assms
proof (induction ps)
  case (Cons p ps)
  moreover have "set (views_of p w) \<inter> set (views_of q w) = {}" if "q \<noteq> p" for q
    using that by (auto simp: views_of_def split: option.splits)
  moreover have "distinct (views_of p w)" by (simp add: views_of_def)
  ultimately show ?case by (auto simp: disjoint_iff) metis
qed simp

lemma release_runs:
  assumes "token_inv w"
  obtains w' where "run_ops (release b w) w = Inr w'" "permits_of b w' = []"
    "w_owners w' = w_owners w" "w_cells w' = w_cells w" "w_brand w' = w_brand w" "token_inv w'"
    "\<And>p pm. w_permits w p = Some pm \<Longrightarrow> pr_brand pm \<noteq> b \<Longrightarrow> w_permits w' p = Some pm"
    "\<And>v x pm. w_views w v = Some x \<Longrightarrow> w_permits w (vw_permit x) = Some pm \<Longrightarrow> pr_brand pm \<noteq> b
       \<Longrightarrow> w_views w' v = Some x"
proof -
  note inv = token_invD [OF assms]
  let ?ps = "permits_of b w" and ?vs = "concat (map (\<lambda>p. views_of p w) (permits_of b w))"
  let ?w1 = "w\<lparr>w_views := without ?vs (w_views w)\<rparr>"
  let ?w2 = "?w1\<lparr>w_permits := without ?ps (w_permits ?w1)\<rparr>"
  have ps: "distinct ?ps" by (simp add: permits_of_def)
  have vs: "v \<in> set ?vs \<longleftrightarrow> (\<exists>x pm. w_views w v = Some x \<and> w_permits w (vw_permit x) = Some pm \<and> pr_brand pm = b)" for v
    by (auto simp: views_of_mem [OF inv(2)] permits_of_mem [OF inv(1)])
  have "run_ops (map DropView ?vs) w = Inr ?w1"
    by (rule run_drop_views [OF distinct_views_of_permits [OF ps]]) (use vs in blast)
  moreover have "views_of p ?w1 = []" if "p \<in> set ?ps" for p
    using that by (auto simp: views_of_def filter_empty_conv without_def split: option.splits if_splits)
  then have "run_ops (map DropPermit ?ps) ?w1 = Inr ?w2"
    by (intro run_drop_permits ps) (auto simp: permits_of_mem [OF inv(1)])
  ultimately have run: "run_ops (release b w) w = Inr ?w2" by (simp add: release_def run_ops_append)
  moreover have "token_inv ?w2" by (rule run_ops_inv [OF assms run])
  moreover have "permits_of b ?w2 = []"
    by (auto simp: permits_of_def filter_empty_conv without_def split: option.splits if_splits)
  moreover have "w_permits ?w2 p = Some pm" if "w_permits w p = Some pm" "pr_brand pm \<noteq> b" for p pm
    using that permits_of_mem [OF inv(1), of p b] by (simp add: without_def)
  moreover have "w_views ?w2 v = Some x"
    if "w_views w v = Some x" "w_permits w (vw_permit x) = Some pm" "pr_brand pm \<noteq> b" for v x pm
    using that vs [of v] by (simp add: without_def)
  ultimately show thesis using that by simp
qed

lemma release_drops: "list_all is_drop (release b w)"
  by (auto simp: release_def list_all_iff)

section \<open>Properties\<close>

text \<open>C15. A brand is never stuck. From every reachable state in which a brand has an owner, dropping
  what the brand has lent, and nothing of any other brand, is accepted; afterwards the owner
  is where it was and its thread may borrow the token exclusively, share it if the family can be
  shared, send it if the family can be sent, or end the scope. So no sequence of borrows, shares,
  sends and scopes loses the token.\<close>

theorem token_is_recoverable:
  assumes "reachable w" "w_owners w b = Some ow"
  shows "list_all is_drop (release b w)
    \<and> (\<exists>w'. run_ops (release b w) w = Inr w' \<and> reachable w' \<and> w_owners w' = w_owners w
      \<and> (\<forall>p pm. w_permits w p = Some pm \<longrightarrow> pr_brand pm \<noteq> b \<longrightarrow> w_permits w' p = Some pm)
      \<and> (\<forall>v x pm. w_views w v = Some x \<longrightarrow> w_permits w (vw_permit x) = Some pm \<longrightarrow> pr_brand pm \<noteq> b \<longrightarrow>
           w_views w' v = Some x)
      \<and> (\<exists>w1. token_step (BorrowMut b (ow_thread ow)) w' = Inr w1)
      \<and> (family_share (ow_family ow) \<longrightarrow> (\<exists>w1. token_step (Share b (ow_thread ow)) w' = Inr w1))
      \<and> (family_send (ow_family ow) \<longrightarrow> (\<forall>t. \<exists>w1. token_step (SendToken b t) w' = Inr w1))
      \<and> (\<exists>w1. token_step (CloseScope b) w' = Inr w1))"
proof -
  obtain w' where run: "run_ops (release b w) w = Inr w'" and free: "permits_of b w' = []"
    and o: "w_owners w' = w_owners w"
    and p: "\<And>p pm. w_permits w p = Some pm \<Longrightarrow> pr_brand pm \<noteq> b \<Longrightarrow> w_permits w' p = Some pm"
    and v: "\<And>v x pm. w_views w v = Some x \<Longrightarrow> w_permits w (vw_permit x) = Some pm \<Longrightarrow> pr_brand pm \<noteq> b
       \<Longrightarrow> w_views w' v = Some x"
    by (rule release_runs [OF reachable_inv [OF assms(1)], of b]) blast
  have own: "w_owners w' b = Some ow" using assms(2) o by simp
  have "reachable w'" by (rule run_ops_reachable [OF assms(1) run])
  moreover have "\<exists>w1. token_step (BorrowMut b (ow_thread ow)) w' = Inr w1"
    and "family_share (ow_family ow) \<longrightarrow> (\<exists>w1. token_step (Share b (ow_thread ow)) w' = Inr w1)"
    and "family_send (ow_family ow) \<longrightarrow> (\<forall>t. \<exists>w1. token_step (SendToken b t) w' = Inr w1)"
    and "\<exists>w1. token_step (CloseScope b) w' = Inr w1"
    by (simp_all add: borrow_token_def share_token_def own free)
  ultimately show ?thesis using release_drops run o p v by blast
qed

text \<open>Two nested scopes; the outer token has an exclusive view, the inner one is shared.\<close>

definition nested_ops :: "op list" where
  "nested_ops = [OpenScope ExclusiveFamily 0, OpenScope SyncRegionFamily 0, NewCell 7 0, NewCell 8 1,
     BorrowMut 0 0, BorrowMutCells [7] 0, Share 1 0, Borrow [8] 2]"

definition nested :: world where
  "nested = \<lparr>w_brand = 2,
     w_owners = [0 \<mapsto> \<lparr>ow_family = ExclusiveFamily, ow_thread = 0\<rparr>, 1 \<mapsto> \<lparr>ow_family = SyncRegionFamily, ow_thread = 0\<rparr>],
     w_cells = [7 \<mapsto> 0, 8 \<mapsto> 1], w_fresh = 4,
     w_permits = [0 \<mapsto> \<lparr>pr_brand = 0, pr_carrier = OwnerMut, pr_thread = 0\<rparr>,
        2 \<mapsto> \<lparr>pr_brand = 1, pr_carrier = SharedRead, pr_thread = 0\<rparr>],
     w_views = [1 \<mapsto> \<lparr>vw_cells = [7], vw_permit = 0, vw_mut = True\<rparr>,
        3 \<mapsto> \<lparr>vw_cells = [8], vw_permit = 2, vw_mut = False\<rparr>]\<rparr>"

lemma nested_run: "run_ops nested_ops empty_world = Inr nested"
  by (simp add: nested_ops_def nested_def token_eval Let_def eval_nat_numeral)

theorem token_is_recoverable_witness:
  "reachable nested \<and> token_step (BorrowMut 0 0) nested = Inl AlreadyMutablyBorrowed
   \<and> (\<exists>w' w1. run_ops (release 0 nested) nested = Inr w' \<and> w_views w' 3 = w_views nested 3
        \<and> token_step (BorrowMut 0 0) w' = Inr w1)"
proof -
  have r: "reachable nested" by (rule run_ops_reachable [OF start nested_run])
  have o: "w_owners nested 0 = Some \<lparr>ow_family = ExclusiveFamily, ow_thread = 0\<rparr>" by (simp add: nested_def)
  have v: "w_views nested 3 = Some \<lparr>vw_cells = [8], vw_permit = 2, vw_mut = False\<rparr>"
    "w_permits nested 2 = Some \<lparr>pr_brand = 1, pr_carrier = SharedRead, pr_thread = 0\<rparr>"
    by (simp_all add: nested_def)
  have s: "token_step (BorrowMut 0 0) nested = Inl AlreadyMutablyBorrowed"
    by (simp add: nested_def token_eval Let_def upt_conv_Cons is_mut_def permits_of_def)
  obtain w' w1 where "run_ops (release 0 nested) nested = Inr w'" "token_step (BorrowMut 0 0) w' = Inr w1"
    "\<forall>v x pm. w_views nested v = Some x \<longrightarrow> w_permits nested (vw_permit x) = Some pm \<longrightarrow> pr_brand pm \<noteq> 0 \<longrightarrow>
       w_views w' v = Some x"
    using token_is_recoverable [OF r o] by auto
  then show ?thesis using r s v by (intro conjI exI [of _ w'] exI [of _ w1]) auto
qed

end
