(* ===== verification/BuildScript.thy ===== *)
theory BuildScript
  imports Prelude "HOL-Library.Sublist"
begin

text \<open>
  The build script, \<^verbatim>\<open>build.rs\<close>: which \<open>cfg\<close> flags the crate is compiled with. The
  environment and the answer of \<^verbatim>\<open>rustc -vV\<close> are arguments; what the script prints is
  its value. The compiler's output is text already: the lossy decoding of bytes is the
  standard library's.
\<close>

section \<open>Text\<close>

text \<open>\<open>str::lines\<close>: a line ends with a newline or a carriage return and a newline, and what follows
  the last newline is a line when it is not empty.\<close>

abbreviation newline :: char where
  "newline \<equiv> CHR 10"

abbreviation carriage_return :: char where
  "carriage_return \<equiv> CHR 13"

definition strip_cr :: "string \<Rightarrow> string" where
  "strip_cr l = (if l \<noteq> [] \<and> last l = carriage_return then butlast l else l)"

fun lines_from :: "string \<Rightarrow> string \<Rightarrow> string list" where
  "lines_from acc [] = (if acc = [] then [] else [acc])"
| "lines_from acc (c # s) =
     (if c = newline then strip_cr acc # lines_from [] s else lines_from (acc @ [c]) s)"

definition text_lines :: "string \<Rightarrow> string list" where
  "text_lines s = lines_from [] s"

definition strip_prefix :: "string \<Rightarrow> string \<Rightarrow> string option" where
  "strip_prefix p s = (if prefix p s then Some (drop (length p) s) else None)"

fun contains_text :: "string \<Rightarrow> string \<Rightarrow> bool" where
  "contains_text p [] \<longleftrightarrow> p = []"
| "contains_text p (c # s) \<longleftrightarrow> prefix p (c # s) \<or> contains_text p s"

section \<open>The script\<close>

datatype flag = CheckDocCfg | CheckNightlyTls | RerunIfChanged | DocCfgActive | NightlyTlsActive

record build_env =
  be_feature_nightly :: bool
  be_docsrs :: bool

text \<open>\<open>None\<close>: the compiler could not be started; otherwise its success and its output.\<close>

type_synonym compiler_answer = "(bool \<times> string) option"

definition is_nightly_compiler :: "string \<Rightarrow> bool" where
  "is_nightly_compiler version =
     list_ex (\<lambda>line. case strip_prefix ''release: '' line of
                       Some release \<Rightarrow> contains_text ''nightly'' release
                     | None \<Rightarrow> False)
       (text_lines version)"

definition build_main :: "build_env \<Rightarrow> compiler_answer \<Rightarrow> flag list" where
  "build_main env answer =
     [CheckDocCfg, CheckNightlyTls, RerunIfChanged] @
     (case answer of
        None \<Rightarrow> []
      | Some (success, version) \<Rightarrow>
          if \<not> success then []
          else (if (is_nightly_compiler version \<and> be_feature_nightly env) \<or> be_docsrs env
                then [DocCfgActive] else [])
             @ (if is_nightly_compiler version then [NightlyTlsActive] else []))"

section \<open>What it decides\<close>

lemma contains_text_iff: "contains_text p s \<longleftrightarrow> (\<exists>u v. s = u @ p @ v)"
proof (induction s)
  case (Cons c s)
  have "(\<exists>u v. c # s = u @ p @ v) \<longleftrightarrow> prefix p (c # s) \<or> (\<exists>u v. s = u @ p @ v)"
    by (auto simp: prefix_def Cons_eq_append_conv)
  then show ?case using Cons by simp
qed simp

lemma strip_prefix_iff: "strip_prefix p s = Some r \<longleftrightarrow> s = p @ r"
  by (auto simp: strip_prefix_def prefix_def)

text \<open>Whole lines, each ended by a newline, come back as they are.\<close>

lemma lines_from_line: "newline \<notin> set l \<Longrightarrow> lines_from acc (l @ newline # s) = strip_cr (acc @ l) # lines_from [] s"
  by (induction l arbitrary: acc) auto

lemma text_lines_unlines:
  "list_all (\<lambda>l. newline \<notin> set l \<and> (l = [] \<or> last l \<noteq> carriage_return)) ls \<Longrightarrow>
     text_lines (concat (map (\<lambda>l. l @ [newline]) ls)) = ls"
proof (induction ls)
  case (Cons l ls)
  then have "strip_cr l = l" by (auto simp: strip_cr_def)
  with Cons show ?case using lines_from_line [of l "[]"] by (simp add: text_lines_def)
qed (simp add: text_lines_def)

text \<open>A compiler is nightly when a line of its answer is \<^verbatim>\<open>release: \<close> and some text
  with \<^verbatim>\<open>nightly\<close> in it; a commit named so on another line does not count.\<close>

lemma prefixed_containing:
  "(case strip_prefix p line of Some r \<Rightarrow> contains_text q r | None \<Rightarrow> False) \<longleftrightarrow> (\<exists>u v. line = p @ u @ q @ v)"
proof (cases "strip_prefix p line")
  case None
  then have "line \<noteq> p @ r" for r using strip_prefix_iff [of p line r] by auto
  with None show ?thesis by simp
next
  case (Some r)
  then have "line = p @ r" by (simp add: strip_prefix_iff)
  with Some show ?thesis by (simp add: contains_text_iff)
qed

lemma is_nightly_compiler_iff:
  "is_nightly_compiler version \<longleftrightarrow>
     (\<exists>u v. ''release: '' @ u @ ''nightly'' @ v \<in> set (text_lines version))"
  unfolding is_nightly_compiler_def list_ex_iff prefixed_containing by blast

lemma unstable_features_need_nightly:
  "DocCfgActive \<in> set (build_main env answer) \<or> NightlyTlsActive \<in> set (build_main env answer) \<Longrightarrow>
     \<exists>version. answer = Some (True, version) \<and> (is_nightly_compiler version \<or> be_docsrs env)"
  by (auto simp: build_main_def split: option.splits if_splits)

end
